(* ===== verification/Prelude.thy ===== *)
theory Prelude
  imports Main
    "HOL-Library.Word"
    "HOL-Library.Multiset"
    "HOL-Library.List_Lexorder"
    "HOL-Library.Char_ord"
    "HOL-Library.Product_Lexorder"
    "HOL-Library.Sublist"
begin

text \<open>
  Shared ground of the development: the machine types of the Go program, its error
  values, and the generic facts on lists and on orders that several components use.
  Go strings and byte slices are both byte sequences; they are \<open>string\<close> (a list of
  \<open>char\<close>, one per byte). Go compares strings byte by byte, which is the lexicographic
  order of \<open>HOL-Library.List_Lexorder\<close> over \<open>HOL-Library.Char_ord\<close>.
\<close>

type_synonym uint64 = "64 word"   \<comment> \<open>Go \<open>uint64\<close>: addition wraps\<close>
type_synonym goint = "64 word"    \<comment> \<open>Go \<open>int\<close> (64 bit), read through \<open>sint\<close>\<close>

text \<open>
  An error value: the text of \<open>fmt.Errorf\<close> or \<open>errors.New\<close>, the failure of
  \<open>connection.Write\<close>, the unmatched path of \<open>Router.Run\<close>, the errors of the standard
  library that the program passes on, or any of these wrapped by \<open>errors.Wrap\<close>.
\<close>

datatype go_error =
    Errorf string
  | WriteFailed
  | NoRoute string
  | NumSyntax string string   \<comment> \<open>\<open>strconv\<close>: the function and the text it could not parse\<close>
  | NumRange string string
  | TooLong                   \<comment> \<open>\<open>bufio.ErrTooLong\<close>\<close>
  | IoError string            \<comment> \<open>an error of the operating system\<close>
  | JsonSyntax                \<comment> \<open>\<open>encoding/json\<close>: the text is no JSON\<close>
  | JsonType string           \<comment> \<open>a value of this kind does not fit its field\<close>
  | RetriesFailed int go_error   \<comment> \<open>\<open>retry.Retry\<close>: the number of attempts and the last error\<close>
  | CorruptInput              \<comment> \<open>\<open>encoding/base64\<close>\<close>
  | Wrap go_error string

text \<open>
  A call that changes the state \<open>'s\<close> and has effects \<open>'e\<close> in the order it makes them
  returns \<open>Some (state, effects, err)\<close> with Go's \<open>err\<close> as an option. \<open>None\<close> is a call
  that does not return: it panics, blocks on a full channel or recurses for ever.
\<close>

type_synonym ('s, 'e) call = "('s \<times> 'e list \<times> go_error option) option"

definition wrap_err :: "string \<Rightarrow> go_error option \<Rightarrow> go_error option" where
  "wrap_err msg err = map_option (\<lambda>e. Wrap e msg) err"

lemma wrap_err_simps [simp]:
  "wrap_err msg None = None" "wrap_err msg (Some e) = Some (Wrap e msg)"
  "wrap_err msg err = None \<longleftrightarrow> err = None"
  by (simp_all add: wrap_err_def)

section \<open>Arithmetic on Go's int\<close>

definition goint_max :: int where
  "goint_max = 2 ^ 63 - 1"

definition goint_min :: int where
  "goint_min = - (2 ^ 63)"

lemma sint_goint_range: "goint_min \<le> sint (x :: goint)" "sint (x :: goint) \<le> goint_max"
  using sint_range_size [of x] by (simp_all add: goint_min_def goint_max_def word_size)

lemma sint_goint_add:
  "goint_min \<le> sint x + sint y \<Longrightarrow> sint x + sint y \<le> goint_max \<Longrightarrow> sint (x + y :: goint) = sint x + sint y"
  by (simp add: sint_word_ariths signed_take_bit_int_eq_self goint_min_def goint_max_def)

lemma sint_goint_diff:
  "goint_min \<le> sint x - sint y \<Longrightarrow> sint x - sint y \<le> goint_max \<Longrightarrow> sint (x - y :: goint) = sint x - sint y"
  by (simp add: sint_word_ariths signed_take_bit_int_eq_self goint_min_def goint_max_def)

section \<open>Exchanging two elements of a list\<close>

definition swap_nth :: "'a list \<Rightarrow> nat \<Rightarrow> nat \<Rightarrow> 'a list" where
  "swap_nth xs i j = xs[i := xs ! j, j := xs ! i]"

lemma length_swap_nth [simp]: "length (swap_nth xs i j) = length xs"
  by (simp add: swap_nth_def)

lemma nth_swap_nth:
  "i < length xs \<Longrightarrow> j < length xs \<Longrightarrow> k < length xs \<Longrightarrow>
     swap_nth xs i j ! k = (if k = j then xs ! i else if k = i then xs ! j else xs ! k)"
  by (simp add: swap_nth_def nth_list_update)

lemma mset_swap_nth [simp]:
  "i < length xs \<Longrightarrow> j < length xs \<Longrightarrow> mset (swap_nth xs i j) = mset xs"
  by (metis mset_swap swap_nth_def)

lemma set_swap_nth [simp]:
  "i < length xs \<Longrightarrow> j < length xs \<Longrightarrow> set (swap_nth xs i j) = set xs"
  by (metis mset_swap_nth set_mset_mset)

lemma distinct_swap_nth [simp]:
  "i < length xs \<Longrightarrow> j < length xs \<Longrightarrow> distinct (swap_nth xs i j) = distinct xs"
  by (metis mset_swap_nth mset_eq_imp_distinct_iff)

lemma map_swap_nth:
  "i < length xs \<Longrightarrow> j < length xs \<Longrightarrow> map f (swap_nth xs i j) = swap_nth (map f xs) i j"
  by (simp add: swap_nth_def map_update)

lemma nth_below: "set xs \<subseteq> {..<n} \<Longrightarrow> k < length xs \<Longrightarrow> xs ! k < n"
  by (meson lessThan_iff nth_mem subsetD)

section \<open>Lists that follow one order\<close>

text \<open>
  Two lists sorted by the same key, each closed downwards with respect to the other, are
  comparable by prefix. It is how agreement on an order is turned into agreement on the
  delivered sequences.
\<close>

lemma sorted_closed_prefix:
  fixes key :: "'a \<Rightarrow> 'k::linorder"
  assumes "sorted_wrt (\<lambda>a b. key a < key b) xs" and "sorted_wrt (\<lambda>a b. key a < key b) ys"
    and "set xs \<subseteq> set ys"
    and "\<And>a b. a \<in> set xs \<Longrightarrow> b \<in> set ys \<Longrightarrow> key b < key a \<Longrightarrow> b \<in> set xs"
  shows "prefix xs ys"
  using assms
proof (induction xs arbitrary: ys)
  case Nil
  then show ?case by simp
next
  case (Cons x xs)
  from Cons.prems(3) obtain y ys' where ys: "ys = y # ys'"
    by (cases ys) auto
  have "y = x"
  proof (rule ccontr)
    assume ne: "y \<noteq> x"
    with Cons.prems(3) ys have "x \<in> set ys'" by auto
    with Cons.prems(2) ys have lt: "key y < key x" by simp
    from lt Cons.prems(4) [of x y] ys have "y \<in> set (x # xs)" by simp
    with ne have "y \<in> set xs" by simp
    with Cons.prems(1) have "key x < key y" by simp
    with lt show False by simp
  qed
  have sub: "set xs \<subseteq> set ys'"
    using Cons.prems(1,3) ys \<open>y = x\<close> by auto
  have "prefix xs ys'"
  proof (rule Cons.IH)
    show "b \<in> set xs" if "a \<in> set xs" "b \<in> set ys'" "key b < key a" for a b
      using that Cons.prems(2) Cons.prems(4) [of a b] ys \<open>y = x\<close> by auto
  qed (use Cons.prems(1,2) ys sub in auto)
  then show ?case by (simp add: ys \<open>y = x\<close>)
qed

lemma sorted_key_distinct:
  fixes key :: "'a \<Rightarrow> 'k::order"
  shows "sorted_wrt (\<lambda>a b. key a < key b) xs \<Longrightarrow> distinct xs"
  by (induction xs) auto

lemma sorted_closed_comparable:
  fixes key :: "'a \<Rightarrow> 'k::linorder"
  assumes "sorted_wrt (\<lambda>a b. key a < key b) xs" and "sorted_wrt (\<lambda>a b. key a < key b) ys"
    and xs: "\<And>a b. a \<in> set xs \<Longrightarrow> b \<in> set ys \<Longrightarrow> key b < key a \<Longrightarrow> b \<in> set xs"
    and ys: "\<And>a b. a \<in> set ys \<Longrightarrow> b \<in> set xs \<Longrightarrow> key b < key a \<Longrightarrow> b \<in> set ys"
    and inj: "inj_on key (set xs \<union> set ys)"
  shows "prefix xs ys \<or> prefix ys xs"
proof -
  have "set xs \<subseteq> set ys \<or> set ys \<subseteq> set xs"
  proof (rule ccontr)
    assume "\<not> ?thesis"
    then obtain a b where a: "a \<in> set xs" "a \<notin> set ys" and b: "b \<in> set ys" "b \<notin> set xs"
      by blast
    then have "key a \<noteq> key b" using inj by (auto simp: inj_on_def)
    then show False using xs [of a b] ys [of b a] a b by force
  qed
  then show ?thesis
    using sorted_closed_prefix [of key xs ys] sorted_closed_prefix [of key ys xs] assms(1,2) xs ys
    by blast
qed

section \<open>Printing numbers\<close>

text \<open>The verbs \<open>%d\<close> and \<open>%t\<close> of Go's \<open>fmt\<close>, on the values the program prints.\<close>

definition digit_char :: "nat \<Rightarrow> char" where
  "digit_char d = char_of (48 + d)"

fun dec_nat :: "nat \<Rightarrow> string" where
  "dec_nat n = (if n < 10 then [digit_char n] else dec_nat (n div 10) @ [digit_char (n mod 10)])"

declare dec_nat.simps [simp del]

definition dec_int :: "int \<Rightarrow> string" where
  "dec_int i = (if i < 0 then CHR ''-'' # dec_nat (nat (- i)) else dec_nat (nat i))"

definition dec_bool :: "bool \<Rightarrow> string" where
  "dec_bool b = (if b then ''true'' else ''false'')"

definition newline :: char where
  "newline = char_of (10 :: nat)"

end
