(* ===== verification/Go_Heap.thy ===== *)
theory Go_Heap
  imports Prelude
begin

text \<open>
  The operations of Go's \<open>container/heap\<close> that the hold queue of the total-order layer is
  built on. As in Go, they know the heap only through an interface: \<open>Less\<close> and \<open>Swap\<close> on
  positions. The locale at the end states what an implementation of the interface
  promises and proves, once, that the operations keep the heap order and the elements.
\<close>

section \<open>The operations\<close>

text \<open>
  In Go the parent of position 0 is \<open>(0 - 1) / 2 = 0\<close> (division truncates), which is what
  subtraction on \<open>nat\<close> gives.
\<close>

definition parent :: "nat \<Rightarrow> nat" where
  "parent k = (k - 1) div 2"

lemma parent_0 [simp]: "parent 0 = 0"
  by (simp add: parent_def)

lemma parent_less [simp]: "0 < k \<Longrightarrow> parent k < k"
  by (simp add: parent_def)

lemma parent_le: "parent k \<le> k"
  by (cases k) (auto simp: parent_def)

lemma parent_eq_iff: "parent k = k \<longleftrightarrow> k = 0"
  by (metis less_irrefl neq0_conv parent_0 parent_less)

lemma parent_bound [simp]: "k < n \<Longrightarrow> parent k < n"
  using parent_le le_less_trans by blast

lemma parent_child: "0 < k \<Longrightarrow> parent k = i \<longleftrightarrow> k = 2 * i + 1 \<or> k = 2 * i + 2"
  by (auto simp: parent_def)

text \<open>\<open>heap.up\<close>.\<close>

function heap_up ::
  "('h \<Rightarrow> nat \<Rightarrow> nat \<Rightarrow> bool) \<Rightarrow> ('h \<Rightarrow> nat \<Rightarrow> nat \<Rightarrow> 'h) \<Rightarrow> nat \<Rightarrow> 'h \<Rightarrow> 'h" where
  "heap_up lt sw j h =
     (let i = parent j in
      if i = j \<or> \<not> lt h j i then h else heap_up lt sw i (sw h i j))"
  by pat_completeness auto
termination
  by (relation "measure (\<lambda>(lt, sw, j, h). j)") (auto simp: parent_eq_iff intro!: parent_less)

text \<open>
  \<open>heap.down\<close>: the position it stops at is returned; Go returns whether it is beyond the
  start. The test \<open>j1 < 0\<close> of the source guards an overflow of \<open>2*i + 1\<close>, which needs a
  heap of \<open>2^62\<close> elements.
\<close>

function heap_down ::
  "('h \<Rightarrow> nat \<Rightarrow> nat \<Rightarrow> bool) \<Rightarrow> ('h \<Rightarrow> nat \<Rightarrow> nat \<Rightarrow> 'h) \<Rightarrow> nat \<Rightarrow> nat \<Rightarrow> 'h \<Rightarrow> 'h \<times> nat" where
  "heap_down lt sw i n h =
     (let j1 = 2 * i + 1 in
      if n \<le> j1 then (h, i)
      else
        let j2 = j1 + 1; j = (if j2 < n \<and> lt h j2 j1 then j2 else j1) in
        if \<not> lt h j i then (h, i) else heap_down lt sw j n (sw h i j))"
  by pat_completeness auto
termination
  by (relation "measure (\<lambda>(lt, sw, i, n, h). n - i)") (auto simp: Let_def split: if_splits)

declare heap_up.simps [simp del] heap_down.simps [simp del]

definition heap_Push ::
  "('h \<Rightarrow> nat) \<Rightarrow> ('h \<Rightarrow> nat \<Rightarrow> nat \<Rightarrow> bool) \<Rightarrow> ('h \<Rightarrow> nat \<Rightarrow> nat \<Rightarrow> 'h) \<Rightarrow> ('x \<Rightarrow> 'h \<Rightarrow> 'h) \<Rightarrow>
     'x \<Rightarrow> 'h \<Rightarrow> 'h" where
  "heap_Push len lt sw push x h = (let h1 = push x h in heap_up lt sw (len h1 - 1) h1)"

text \<open>\<open>heap.Pop\<close> on an empty heap calls \<open>Swap(0, -1)\<close>, an index panic: \<open>None\<close>.\<close>

definition heap_Pop ::
  "('h \<Rightarrow> nat) \<Rightarrow> ('h \<Rightarrow> nat \<Rightarrow> nat \<Rightarrow> bool) \<Rightarrow> ('h \<Rightarrow> nat \<Rightarrow> nat \<Rightarrow> 'h) \<Rightarrow> ('h \<Rightarrow> ('h \<times> 'x) option) \<Rightarrow>
     'h \<Rightarrow> ('h \<times> 'x) option" where
  "heap_Pop len lt sw pop h =
     (if len h = 0 then None
      else let n = len h - 1 in pop (fst (heap_down lt sw 0 n (sw h 0 n))))"

definition heap_Fix ::
  "('h \<Rightarrow> nat) \<Rightarrow> ('h \<Rightarrow> nat \<Rightarrow> nat \<Rightarrow> bool) \<Rightarrow> ('h \<Rightarrow> nat \<Rightarrow> nat \<Rightarrow> 'h) \<Rightarrow> nat \<Rightarrow> 'h \<Rightarrow> 'h" where
  "heap_Fix len lt sw i h =
     (let (h1, i1) = heap_down lt sw i (len h) h in
      if i < i1 then h1 else heap_up lt sw i h1)"

section \<open>Heap order\<close>

text \<open>
  The order on the first \<open>n\<close> elements, and its two weakenings: everywhere but between
  \<open>i\<close> and its parent (what \<open>up\<close> repairs), and everywhere but around \<open>i\<close> (what \<open>Fix\<close>
  repairs). In both, the children of \<open>i\<close> are in order with its parent.
\<close>

definition heap_ordered :: "('a \<Rightarrow> 'a \<Rightarrow> bool) \<Rightarrow> nat \<Rightarrow> 'a list \<Rightarrow> bool" where
  "heap_ordered before n xs \<longleftrightarrow> (\<forall>k<n. 0 < k \<longrightarrow> \<not> before (xs ! k) (xs ! parent k))"

definition heap_but_above :: "('a \<Rightarrow> 'a \<Rightarrow> bool) \<Rightarrow> nat \<Rightarrow> nat \<Rightarrow> 'a list \<Rightarrow> bool" where
  "heap_but_above before n i xs \<longleftrightarrow>
     (\<forall>k<n. 0 < k \<longrightarrow>
        (k \<noteq> i \<longrightarrow> \<not> before (xs ! k) (xs ! parent k)) \<and>
        (parent k = i \<longrightarrow> 0 < i \<longrightarrow> \<not> before (xs ! k) (xs ! parent i)))"

definition heap_but_at :: "('a \<Rightarrow> 'a \<Rightarrow> bool) \<Rightarrow> nat \<Rightarrow> nat \<Rightarrow> 'a list \<Rightarrow> bool" where
  "heap_but_at before n i xs \<longleftrightarrow>
     (\<forall>k<n. 0 < k \<longrightarrow>
        (k \<noteq> i \<longrightarrow> parent k \<noteq> i \<longrightarrow> \<not> before (xs ! k) (xs ! parent k)) \<and>
        (parent k = i \<longrightarrow> 0 < i \<longrightarrow> \<not> before (xs ! k) (xs ! parent i)))"

lemma heap_ordered_but_at_update:
  assumes strict: "\<And>x y z. \<not> before x y \<Longrightarrow> \<not> before y z \<Longrightarrow> \<not> before x z"
    and h: "heap_ordered before n xs" and n: "n \<le> length xs" and i: "i < n"
  shows "heap_but_at before n i (xs[i := x])"
  unfolding heap_but_at_def
proof (intro allI impI conjI)
  fix k assume k: "k < n" "0 < k"
  {
    assume "k \<noteq> i" "parent k \<noteq> i"
    with h k show "\<not> before (xs[i := x] ! k) (xs[i := x] ! parent k)"
      by (simp add: heap_ordered_def)
  }
  assume pk: "parent k = i" and i0: "0 < i"
  from pk k have "k \<noteq> i" using parent_eq_iff [of k] by auto
  moreover from i0 have "parent i \<noteq> i" by (simp add: parent_eq_iff)
  moreover have "\<not> before (xs ! k) (xs ! i)" using h k pk by (auto simp: heap_ordered_def)
  moreover have "\<not> before (xs ! i) (xs ! parent i)" using h i i0 by (simp add: heap_ordered_def)
  ultimately show "\<not> before (xs[i := x] ! k) (xs[i := x] ! parent i)"
    using strict by auto
qed

lemma heap_ordered_snoc:
  assumes "heap_ordered before n xs" and "n = length xs"
  shows "heap_but_above before (Suc n) n (xs @ [x])"
proof -
  have "(xs @ [x]) ! k = xs ! k \<and> (xs @ [x]) ! parent k = xs ! parent k" if "k < n" for k
    using that assms(2) parent_le [of k] by (auto simp: nth_append)
  moreover have "parent k \<noteq> n" if "k < Suc n" "0 < k" for k using that parent_less [of k] by linarith
  ultimately show ?thesis
    using assms by (auto simp: heap_but_above_def heap_ordered_def less_Suc_eq)
qed

lemma heap_ordered_least:
  assumes strict: "\<And>x y z. \<not> before x y \<Longrightarrow> \<not> before y z \<Longrightarrow> \<not> before x z"
    and refl: "\<And>x. \<not> before x x" and h: "heap_ordered before n xs"
  shows "k < n \<Longrightarrow> \<not> before (xs ! k) (xs ! 0)"
proof (induction k rule: less_induct)
  case (less k)
  show ?case
  proof (cases "k = 0")
    case True
    then show ?thesis by (simp add: refl)
  next
    case False
    then have "\<not> before (xs ! parent k) (xs ! 0)" using less by simp
    moreover have "\<not> before (xs ! k) (xs ! parent k)"
      using False less.prems h by (simp add: heap_ordered_def)
    ultimately show ?thesis using strict by blast
  qed
qed

lemma heap_ordered_cong:
  "heap_ordered before n xs \<Longrightarrow> (\<And>k. k < n \<Longrightarrow> ys ! k = xs ! k) \<Longrightarrow> heap_ordered before n ys"
  unfolding heap_ordered_def by (metis parent_bound)

section \<open>The interface and what the operations do on it\<close>

locale go_heap =
  fixes len :: "'h \<Rightarrow> nat"
    and lt :: "'h \<Rightarrow> nat \<Rightarrow> nat \<Rightarrow> bool"
    and sw :: "'h \<Rightarrow> nat \<Rightarrow> nat \<Rightarrow> 'h"
    and elems :: "'h \<Rightarrow> 'a list"
    and before :: "'a \<Rightarrow> 'a \<Rightarrow> bool"
    and ok :: "'h \<Rightarrow> bool"
  assumes len_elems: "ok h \<Longrightarrow> len h = length (elems h)"
    and lt_elems: "ok h \<Longrightarrow> i < len h \<Longrightarrow> j < len h \<Longrightarrow>
      lt h i j = before (elems h ! i) (elems h ! j)"
    and sw_elems: "ok h \<Longrightarrow> i < len h \<Longrightarrow> j < len h \<Longrightarrow> elems (sw h i j) = swap_nth (elems h) i j"
    and ok_sw: "ok h \<Longrightarrow> i < len h \<Longrightarrow> j < len h \<Longrightarrow> ok (sw h i j)"
    and before_asym: "before x y \<Longrightarrow> \<not> before y x"
    and before_strict: "\<not> before x y \<Longrightarrow> \<not> before y z \<Longrightarrow> \<not> before x z"
begin

lemma before_irrefl: "\<not> before x x"
  using before_asym by blast

lemma root_least:
  "heap_ordered before (len h) (elems h) \<Longrightarrow> k < len h \<Longrightarrow> \<not> before (elems h ! k) (elems h ! 0)"
  using heap_ordered_least [of before "len h" "elems h" k] before_strict before_irrefl by blast

lemma len_sw: "ok h \<Longrightarrow> i < len h \<Longrightarrow> j < len h \<Longrightarrow> len (sw h i j) = len h"
  using len_elems ok_sw sw_elems by simp

lemma up_step:
  assumes "heap_but_above before n j xs" and "j < n" "n \<le> length xs" "parent j \<noteq> j"
    and lt: "before (xs ! j) (xs ! parent j)"
  shows "heap_but_above before n (parent j) (swap_nth xs (parent j) j)"
  unfolding heap_but_above_def
proof (intro allI impI)
  let ?i = "parent j" let ?ys = "swap_nth xs ?i j"
  fix k assume k: "k < n" "0 < k"
  have j0: "0 < j" "?i < j" using assms(4) by (auto simp: parent_eq_iff intro: parent_less)
  have ys: "?ys ! m = (if m = j then xs ! ?i else if m = ?i then xs ! j else xs ! m)" if "m < n" for m
    using that assms(2,3) j0 by (intro nth_swap_nth) auto
  have pk: "parent k < k" "parent k < n" using k parent_less [of k] by linarith+
  have ab: "m \<noteq> j \<longrightarrow> \<not> before (xs ! m) (xs ! parent m)"
      "parent m = j \<longrightarrow> \<not> before (xs ! m) (xs ! ?i)" if "m < n" "0 < m" for m
    using assms(1) that j0 by (auto simp: heap_but_above_def)
  have "\<not> before (?ys ! k) (?ys ! parent k)" if "k \<noteq> ?i"
  proof (cases "k = j")
    case True
    then show ?thesis using k pk j0 lt before_asym by (auto simp: ys)
  next
    case False
    consider "parent k = j" | "parent k = ?i" | "parent k \<noteq> j" "parent k \<noteq> ?i" by blast
    then show ?thesis
    proof cases
      case 2
      then have "\<not> before (xs ! k) (xs ! ?i)" using ab(1) k False by metis
      moreover have "\<not> before (xs ! ?i) (xs ! j)" using lt before_asym by blast
      ultimately show ?thesis
        using 2 False that k pk j0 before_strict by (auto simp: ys)
    qed (use False that k pk j0 ab in \<open>auto simp: ys\<close>)
  qed
  moreover have "\<not> before (?ys ! k) (?ys ! parent ?i)" if "parent k = ?i" "0 < ?i"
  proof -
    have pi: "parent ?i < ?i" "parent ?i \<noteq> j" using that(2) j0 parent_less [of ?i] by linarith+
    have i: "\<not> before (xs ! ?i) (xs ! parent ?i)" using ab(1) [of ?i] that(2) j0 assms(2) by simp
    show ?thesis
    proof (cases "k = j")
      case True
      moreover have "parent ?i \<noteq> ?i" using pi(1) by simp
      ultimately show ?thesis using i pi(2) assms(2) j0 by (auto simp: ys)
    next
      case False
      then have "\<not> before (xs ! k) (xs ! ?i)" using ab(1) k that(1) by metis
      then show ?thesis using False that pi j0 k pk i before_strict by (auto simp: ys)
    qed
  qed
  ultimately show "(k \<noteq> ?i \<longrightarrow> \<not> before (?ys ! k) (?ys ! parent k)) \<and>
      (parent k = ?i \<longrightarrow> 0 < ?i \<longrightarrow> \<not> before (?ys ! k) (?ys ! parent ?i))" by blast
qed

lemma heap_up_correct:
  assumes "ok h" "j < n" "n \<le> len h" "heap_but_above before n j (elems h)"
  shows "ok (heap_up lt sw j h) \<and> len (heap_up lt sw j h) = len h
    \<and> heap_ordered before n (elems (heap_up lt sw j h))
    \<and> mset (elems (heap_up lt sw j h)) = mset (elems h)"
  using assms
proof (induction j arbitrary: h rule: less_induct)
  case (less j)
  let ?i = "parent j"
  have bnd: "j < len h" "?i < len h" using less.prems(2,3) by (auto intro: less_le_trans)
  show ?case
  proof (cases "?i = j \<or> \<not> lt h j ?i")
    case True
    have "\<not> before (elems h ! k) (elems h ! parent k)" if k: "k < n" "0 < k" for k
    proof (cases "k = j")
      case kj: True
      then have "\<not> lt h j ?i" using True k parent_eq_iff [of j] by auto
      then show ?thesis using kj bnd less.prems(1) lt_elems by auto
    next
      case False
      then show ?thesis using less.prems(4) k by (simp add: heap_but_above_def)
    qed
    then show ?thesis
      using True less.prems(1) by (simp add: heap_up.simps [of lt sw j h] heap_ordered_def)
  next
    case False
    then have j0: "?i < j" "?i \<noteq> j" and b: "before (elems h ! j) (elems h ! ?i)"
      using bnd less.prems(1) lt_elems parent_eq_iff [of j] by auto
    have "heap_but_above before n ?i (elems (sw h ?i j))"
      using up_step [OF less.prems(4,2) _ j0(2) b] less.prems(1,3) bnd
      by (simp add: sw_elems len_elems)
    then have "ok (heap_up lt sw ?i (sw h ?i j)) \<and> len (heap_up lt sw ?i (sw h ?i j)) = len (sw h ?i j)
      \<and> heap_ordered before n (elems (heap_up lt sw ?i (sw h ?i j)))
      \<and> mset (elems (heap_up lt sw ?i (sw h ?i j))) = mset (elems (sw h ?i j))"
      using less.IH [OF j0(1), of "sw h ?i j"] less.prems bnd by (simp add: ok_sw len_sw)
    moreover have "mset (elems (sw h ?i j)) = mset (elems h)"
      using less.prems(1) bnd by (simp add: sw_elems len_elems)
    ultimately show ?thesis
      using False less.prems(1) bnd by (simp add: heap_up.simps [of lt sw j h] len_sw Let_def)
  qed
qed

text \<open>One exchange of \<open>down\<close>: the disorder moves from \<open>i\<close> to its child \<open>j\<close>, which is in order
  with its new parent.\<close>

lemma down_step:
  assumes h: "heap_but_at before n i xs" and n: "n \<le> length xs" and ji: "parent j = i" "0 < j" "j < n"
    and lt: "before (xs ! j) (xs ! i)"
    and least: "\<And>k. k < n \<Longrightarrow> 0 < k \<Longrightarrow> parent k = i \<Longrightarrow> \<not> before (xs ! k) (xs ! j)"
  shows "heap_but_at before n j (swap_nth xs i j)"
    and "\<not> before (swap_nth xs i j ! j) (swap_nth xs i j ! i)"
proof -
  let ?ys = "swap_nth xs i j"
  have i: "i < j" "i < n" using ji by auto
  have ys: "?ys ! m = (if m = j then xs ! i else if m = i then xs ! j else xs ! m)" if "m < n" for m
    using that n ji i by (intro nth_swap_nth) auto
  have at: "m \<noteq> i \<longrightarrow> parent m \<noteq> i \<longrightarrow> \<not> before (xs ! m) (xs ! parent m)"
      "parent m = i \<longrightarrow> 0 < i \<longrightarrow> \<not> before (xs ! m) (xs ! parent i)" if "m < n" "0 < m" for m
    using h that by (auto simp: heap_but_at_def)
  show "\<not> before (?ys ! j) (?ys ! i)"
    using lt before_asym i ji by (auto simp: ys)
  show "heap_but_at before n j ?ys"
    unfolding heap_but_at_def
  proof (intro allI impI conjI)
    fix k assume k: "k < n" "0 < k"
    have pk: "parent k < k" "parent k < n" using k by auto
    {
      assume kj: "k \<noteq> j" "parent k \<noteq> j"
      show "\<not> before (?ys ! k) (?ys ! parent k)"
      proof (cases "k = i")
        case True
        then show ?thesis using at(2) [OF ji(3,2)] ji k pk i by (auto simp: ys)
      next
        case False
        then show ?thesis using kj at(1) [OF k] least [OF k] pk k i by (auto simp: ys)
      qed
    }
    assume kj: "parent k = j"
    then have "i < k" "k \<noteq> j" using k pk i by auto
    then show "\<not> before (?ys ! k) (?ys ! parent j)"
      using at(1) [OF k] kj ji i k by (auto simp: ys)
  qed
qed

lemma heap_down_correct:
  assumes "ok h" "i < n" "n \<le> len h" "heap_but_at before n i (elems h)"
    and "heap_down lt sw i n h = (h', i')"
  shows "ok h' \<and> len h' = len h \<and> i \<le> i' \<and> i' < n \<and> mset (elems h') = mset (elems h)
    \<and> (\<forall>k. n \<le> k \<longrightarrow> k < len h \<longrightarrow> elems h' ! k = elems h ! k)
    \<and> heap_but_above before n i' (elems h')
    \<and> (if i < i' \<or> i = 0 \<or> \<not> before (elems h ! i) (elems h ! parent i)
       then heap_ordered before n (elems h') else h' = h)"
  using assms
proof (induction "n - i" arbitrary: h i rule: less_induct)
  case less
  let ?c1 = "2 * i + 1" let ?c2 = "2 * i + 2"
  define j where "j = (if ?c2 < n \<and> lt h ?c2 ?c1 then ?c2 else ?c1)"
  have bnd: "k < len h" if "k < n" for k using that less.prems(3) by simp
  have lt: "lt h a b = before (elems h ! a) (elems h ! b)" if "a < n" "b < n" for a b
    using that less.prems(1) bnd lt_elems by simp
  have at: "k \<noteq> i \<longrightarrow> parent k \<noteq> i \<longrightarrow> \<not> before (elems h ! k) (elems h ! parent k)"
      "parent k = i \<longrightarrow> 0 < i \<longrightarrow> \<not> before (elems h ! k) (elems h ! parent i)" if "k < n" "0 < k" for k
    using less.prems(4) that by (auto simp: heap_but_at_def)
  show ?case
  proof (cases "n \<le> ?c1 \<or> \<not> lt h j i")
    case stop: True
    then have res: "h' = h" "i' = i"
      using less.prems(5) by (auto simp: heap_down.simps [of lt sw i n h] Let_def j_def split: if_splits)
    have child: "\<not> before (elems h ! k) (elems h ! i)" if k: "k < n" "0 < k" "parent k = i" for k
    proof -
      from k have c: "k = ?c1 \<or> k = ?c2" by (simp add: parent_child)
      with k stop have nb: "\<not> before (elems h ! j) (elems h ! i)" and j: "j < n" "?c1 < n"
        using lt [of j i] less.prems(2) by (auto simp: j_def split: if_splits)
      have "\<not> before (elems h ! k) (elems h ! j)"
        using c k j lt [of ?c2 ?c1] before_asym before_irrefl by (auto simp: j_def)
      with nb show ?thesis using before_strict by blast
    qed
    have ab: "heap_but_above before n i (elems h)"
      using at child unfolding heap_but_above_def by metis
    then have "heap_ordered before n (elems h)" if "i = 0 \<or> \<not> before (elems h ! i) (elems h ! parent i)"
      using that unfolding heap_but_above_def heap_ordered_def by (metis less_irrefl)
    with ab res less.prems show ?thesis by auto
  next
    case False
    then have go: "?c1 < n" "lt h j i" by auto
    have j: "parent j = i" "0 < j" "j < n" "i < j" using go(1) by (auto simp: parent_def j_def)
    have b: "before (elems h ! j) (elems h ! i)" using go j lt less.prems(2) by simp
    have least: "\<not> before (elems h ! k) (elems h ! j)" if "k < n" "0 < k" "parent k = i" for k
      using that go(1) lt [of ?c2 ?c1] before_asym before_irrefl
      by (auto simp: parent_child j_def)
    have el: "elems (sw h i j) = swap_nth (elems h) i j" and ok: "ok (sw h i j)"
        and ln: "len (sw h i j) = len h"
      using less.prems(1,2) j bnd by (auto simp: sw_elems ok_sw len_sw)
    have "n \<le> length (elems h)" using less.prems(1,3) len_elems by simp
    then have ds: "heap_but_at before n j (swap_nth (elems h) i j)"
        "\<not> before (swap_nth (elems h) i j ! j) (swap_nth (elems h) i j ! i)"
      using down_step [OF less.prems(4) _ j(1-3) b] least by blast+
    have rec: "heap_down lt sw j n (sw h i j) = (h', i')"
      using less.prems(5) False by (auto simp: heap_down.simps [of lt sw i n h] Let_def j_def split: if_splits)
    have "n - j < n - i" using j by linarith
    moreover have "n \<le> len (sw h i j)" "heap_but_at before n j (elems (sw h i j))"
      using ds(1) less.prems(3) ln el by simp_all
    ultimately have IH: "ok h' \<and> len h' = len h \<and> j \<le> i' \<and> i' < n \<and> mset (elems h') = mset (elems (sw h i j))
      \<and> (\<forall>k. n \<le> k \<longrightarrow> k < len h \<longrightarrow> elems h' ! k = elems (sw h i j) ! k)
      \<and> heap_but_above before n i' (elems h')
      \<and> (if j < i' \<or> j = 0 \<or> \<not> before (elems (sw h i j) ! j) (elems (sw h i j) ! parent j)
         then heap_ordered before n (elems h') else h' = sw h i j)"
      unfolding ln [symmetric] by (rule less.hyps [OF _ ok j(3) _ _ rec])
    have "heap_ordered before n (elems h')" using IH ds(2) j(1) el by simp
    moreover have "mset (elems (sw h i j)) = mset (elems h)"
      using el j less.prems bnd len_elems by simp
    moreover have "elems (sw h i j) ! k = elems h ! k" if "n \<le> k" "k < len h" for k
      using that el j less.prems(1,2) len_elems by (simp add: nth_swap_nth)
    ultimately have "mset (elems h') = mset (elems h)"
      and "\<forall>k. n \<le> k \<longrightarrow> k < len h \<longrightarrow> elems h' ! k = elems h ! k"
      and "heap_ordered before n (elems h')"
      using IH by simp_all
    moreover have "i < i'" using IH j(4) by linarith
    moreover have "ok h'" "len h' = len h" "i' < n" "heap_but_above before n i' (elems h')"
      using IH by blast+
    ultimately show ?thesis by simp
  qed
qed

lemma heap_Fix_correct:
  assumes "ok h" "i < len h" "heap_but_at before (len h) i (elems h)"
  shows "ok (heap_Fix len lt sw i h) \<and> len (heap_Fix len lt sw i h) = len h
    \<and> heap_ordered before (len h) (elems (heap_Fix len lt sw i h))
    \<and> mset (elems (heap_Fix len lt sw i h)) = mset (elems h)"
proof -
  obtain h' i' where d: "heap_down lt sw i (len h) h = (h', i')" by force
  note D = heap_down_correct [OF assms(1,2) order_refl assms(3) d]
  show ?thesis
  proof (cases "i < i'")
    case True
    with D d show ?thesis by (simp add: heap_Fix_def)
  next
    case False
    with D have "i' = i" by linarith
    with D have "ok h'" "i < len h" "len h \<le> len h'" "heap_but_above before (len h) i (elems h')"
      by auto
    from heap_up_correct [OF this] D False d show ?thesis by (simp add: heap_Fix_def)
  qed
qed

end

locale go_heap_io = go_heap len lt sw elems before ok
  for len :: "'h \<Rightarrow> nat" and lt sw and elems :: "'h \<Rightarrow> 'a list" and before ok +
  fixes push :: "'x \<Rightarrow> 'h \<Rightarrow> 'h"
    and pop :: "'h \<Rightarrow> ('h \<times> 'x) option"
    and element :: "'x \<Rightarrow> 'h \<Rightarrow> 'a"
    and handle :: "'a \<Rightarrow> 'x"
    and fits :: "'x \<Rightarrow> 'h \<Rightarrow> bool"
  assumes ok_push: "ok h \<Longrightarrow> fits x h \<Longrightarrow> ok (push x h)"
    and elems_push: "ok h \<Longrightarrow> fits x h \<Longrightarrow> elems (push x h) = elems h @ [element x h]"
    and pop_last: "ok h \<Longrightarrow> 0 < len h \<Longrightarrow>
      \<exists>h'. pop h = Some (h', handle (last (elems h))) \<and> ok h' \<and> elems h' = butlast (elems h)"
begin

lemma heap_Push_correct:
  assumes "ok h" "fits x h" "heap_ordered before (len h) (elems h)"
  defines "h' \<equiv> heap_Push len lt sw push x h"
  shows "ok h' \<and> heap_ordered before (len h') (elems h')
    \<and> mset (elems h') = add_mset (element x h) (mset (elems h))"
proof -
  let ?h1 = "push x h"
  have h1: "ok ?h1" "elems ?h1 = elems h @ [element x h]" "len ?h1 = Suc (len h)"
    using assms ok_push elems_push len_elems by simp_all
  have "heap_but_above before (len ?h1) (len h) (elems ?h1)"
    using heap_ordered_snoc [OF assms(3)] h1 len_elems [OF assms(1)] by simp
  from heap_up_correct [OF h1(1) _ order_refl this] h1 show ?thesis
    by (simp add: h'_def heap_Push_def Let_def)
qed

lemma heap_Pop_correct:
  assumes "ok h" "0 < len h" "heap_ordered before (len h) (elems h)"
  shows "\<exists>h'. heap_Pop len lt sw pop h = Some (h', handle (elems h ! 0)) \<and> ok h'
    \<and> heap_ordered before (len h') (elems h')
    \<and> mset (elems h) = add_mset (elems h ! 0) (mset (elems h'))"
proof -
  let ?n = "len h - 1" let ?h1 = "sw h 0 ?n"
  have n: "?n < len h" "len h = length (elems h)" using assms len_elems by auto
  have h1: "ok ?h1" "len ?h1 = len h" "elems ?h1 = swap_nth (elems h) 0 ?n"
    using assms(1,2) n(1) by (simp_all add: ok_sw len_sw sw_elems)
  obtain h2 i where d: "heap_down lt sw 0 ?n ?h1 = (h2, i)" by force
  have "ok h2 \<and> len h2 = len h \<and> mset (elems h2) = mset (elems h)
    \<and> elems h2 ! ?n = elems h ! 0 \<and> heap_ordered before ?n (elems h2)"
  proof (cases "?n = 0")
    case True
    with d have "h2 = ?h1" by (simp add: heap_down.simps)
    with True h1 n assms show ?thesis by (simp add: nth_swap_nth heap_ordered_def)
  next
    case False
    have same: "elems ?h1 ! k = elems h ! k" if "k < ?n" "0 < k" for k
      unfolding h1(3) using that n assms(2) by (simp add: nth_swap_nth)
    have "heap_but_at before ?n 0 (elems ?h1)"
      unfolding heap_but_at_def
    proof (intro allI impI conjI)
      fix k assume k: "k < ?n" "0 < k" "parent k \<noteq> 0"
      then have "parent k < ?n" by simp
      then show "\<not> before (elems ?h1 ! k) (elems ?h1 ! parent k)"
        using same [of k] same [of "parent k"] k assms(3) by (simp add: heap_ordered_def)
    qed simp
    from heap_down_correct [OF h1(1) _ _ this d] False h1 n assms show ?thesis
      by (simp add: nth_swap_nth)
  qed
  note h2 = this
  then have l0: "length (elems h2) = len h" "elems h2 \<noteq> []"
    using assms(2) len_elems [of h2] by auto
  with h2 have l: "elems h2 \<noteq> []" "last (elems h2) = elems h ! 0" "length (elems h2) = len h"
    by (simp_all add: last_conv_nth)
  obtain h' where h': "pop h2 = Some (h', handle (elems h ! 0))" "ok h'" "elems h' = butlast (elems h2)"
    using pop_last [of h2] h2 l assms(2) by auto
  have "len h' = ?n" using h'(2,3) l len_elems by simp
  moreover have "heap_ordered before ?n (elems h')"
    using h2 heap_ordered_cong [of before ?n "elems h2"] h'(3) l by (simp add: nth_butlast)
  moreover have "mset (elems h) = add_mset (elems h ! 0) (mset (elems h'))"
    using h2 l h'(3) append_butlast_last_id [of "elems h2"]
    by (metis mset.simps(2) mset_append add_mset_add_single mset_single_iff union_commute)
  ultimately show ?thesis
    using h' d assms(2) by (simp add: heap_Pop_def Let_def)
qed

end

end
