(* ===== verification/Hold_Queue.thy ===== *)
theory Hold_Queue
  imports Go_Heap
begin

text \<open>
  The hold queue of the total-order layer (\<open>lib/mp1/multicast/to_hold_queue_item.go\<close>): a
  \<open>container/heap\<close> over pointers to items. The code keeps the same pointers in a map
  and changes an item through either of them, so items live in an explicit store:
  \<open>mem\<close> is the memory of all items ever allocated, an address is a position in it, and
  \<open>pq\<close> is the slice of addresses. \<open>Swap\<close>, \<open>Push\<close> and \<open>Pop\<close> write the \<open>index\<close> field
  of the items they move.
\<close>

section \<open>Items and the heap interface\<close>

record 'b hold_item =
  body :: 'b
  proposalSeqNum :: uint64
  processID :: string
  agreed :: bool
  msgID :: string
  index :: int

record 'b hold_heap =
  mem :: "'b hold_item list"
  pq :: "nat list"

definition item_at :: "'b hold_heap \<Rightarrow> nat \<Rightarrow> 'b hold_item" where
  "item_at h a = mem h ! a"

definition pq_Len :: "'b hold_heap \<Rightarrow> nat" where
  "pq_Len h = length (pq h)"

definition item_less :: "'b hold_item \<Rightarrow> 'b hold_item \<Rightarrow> bool" where
  "item_less x y =
     (if proposalSeqNum x < proposalSeqNum y then True
      else if proposalSeqNum x > proposalSeqNum y then False
      else if agreed x = False \<and> agreed y = True then True
      else if agreed x = True \<and> agreed y = False then False
      else processID x < processID y)"

definition pq_Less :: "'b hold_heap \<Rightarrow> nat \<Rightarrow> nat \<Rightarrow> bool" where
  "pq_Less h i j = item_less (item_at h (pq h ! i)) (item_at h (pq h ! j))"

definition set_index :: "nat \<Rightarrow> int \<Rightarrow> 'b hold_item list \<Rightarrow> 'b hold_item list" where
  "set_index a k m = m[a := (m ! a)\<lparr>index := k\<rparr>]"

definition pq_Swap :: "'b hold_heap \<Rightarrow> nat \<Rightarrow> nat \<Rightarrow> 'b hold_heap" where
  "pq_Swap h i j =
     (let p = swap_nth (pq h) i j in
      h\<lparr>pq := p, mem := set_index (p ! j) (int j) (set_index (p ! i) (int i) (mem h))\<rparr>)"

definition pq_Push :: "nat \<Rightarrow> 'b hold_heap \<Rightarrow> 'b hold_heap" where
  "pq_Push a h = h\<lparr>mem := set_index a (int (length (pq h))) (mem h), pq := pq h @ [a]\<rparr>"

text \<open>Reading the last element of an empty slice panics: \<open>None\<close>.\<close>

definition pq_Pop :: "'b hold_heap \<Rightarrow> ('b hold_heap \<times> nat) option" where
  "pq_Pop h =
     (if pq h = [] then None
      else let a = last (pq h) in
        Some (h\<lparr>mem := set_index a (- 1) (mem h), pq := butlast (pq h)\<rparr>, a))"

definition pq_Peek :: "'b hold_heap \<Rightarrow> nat option" where
  "pq_Peek h = (case pq h of [] \<Rightarrow> None | a # _ \<Rightarrow> Some a)"

text \<open>
  \<open>Update\<close> writes the item and repairs the heap at the item's \<open>index\<close>. For the index
  \<open>-1\<close> of an item that was popped, \<open>heap.Fix\<close> does nothing: the child index \<open>2*(-1) + 1\<close>
  is negative and the parent of \<open>-1\<close> is \<open>-1\<close>.
\<close>

definition pq_Update :: "nat \<Rightarrow> string \<Rightarrow> uint64 \<Rightarrow> 'b hold_heap \<Rightarrow> 'b hold_heap" where
  "pq_Update a pid seq h =
     (let h1 = h\<lparr>mem := (mem h)[a := (item_at h a)\<lparr>agreed := True, processID := pid, proposalSeqNum := seq\<rparr>]\<rparr>;
          i = index (item_at h1 a)
      in if i < 0 then h1 else heap_Fix pq_Len pq_Less pq_Swap (nat i) h1)"

definition pq_Snapshot :: "'b hold_heap \<Rightarrow> string" where
  "pq_Snapshot h =
     concat (map (\<lambda>a. let x = item_at h a in
       ''['' @ dec_nat (unat (proposalSeqNum x)) @ '':'' @ processID x @ ''] '' @ dec_bool (agreed x) @
       '' '' @ msgID x @ '' '' @ dec_int (index x) @ [newline]) (take 10 (pq h)))"

text \<open>\<open>heap.Push\<close> and \<open>heap.Pop\<close> at this interface.\<close>

definition hold_push :: "nat \<Rightarrow> 'b hold_heap \<Rightarrow> 'b hold_heap" where
  "hold_push = heap_Push pq_Len pq_Less pq_Swap pq_Push"

definition hold_pop :: "'b hold_heap \<Rightarrow> ('b hold_heap \<times> nat) option" where
  "hold_pop = heap_Pop pq_Len pq_Less pq_Swap pq_Pop"

section \<open>The order on items\<close>

text \<open>
  What \<open>Less\<close> compares: the sequence number, then agreed after not agreed, then the
  process. It is a linear order on ranks.
\<close>

datatype rank = Rank (rank_seq: uint64) (rank_agreed: bool) (rank_pid: string)

instantiation rank :: linorder
begin

definition less_rank :: "rank \<Rightarrow> rank \<Rightarrow> bool" where
  "less_rank x y \<longleftrightarrow>
     (rank_seq x, rank_agreed x, rank_pid x) < (rank_seq y, rank_agreed y, rank_pid y)"

definition less_eq_rank :: "rank \<Rightarrow> rank \<Rightarrow> bool" where
  "less_eq_rank x y \<longleftrightarrow>
     (rank_seq x, rank_agreed x, rank_pid x) \<le> (rank_seq y, rank_agreed y, rank_pid y)"

instance
proof
  fix x y z :: rank
  show "x < y \<longleftrightarrow> x \<le> y \<and> \<not> y \<le> x"
    unfolding less_rank_def less_eq_rank_def by (rule less_le_not_le)
  show "x \<le> x" by (simp add: less_eq_rank_def)
  show "x \<le> y \<Longrightarrow> y \<le> z \<Longrightarrow> x \<le> z"
    unfolding less_eq_rank_def by (rule order_trans)
  show "x \<le> y \<Longrightarrow> y \<le> x \<Longrightarrow> x = y"
    unfolding less_eq_rank_def by (drule (1) order_antisym) (cases x; cases y; simp)
  show "x \<le> y \<or> y \<le> x"
    unfolding less_eq_rank_def by (rule linear)
qed

end

definition rank_of :: "'b hold_item \<Rightarrow> rank" where
  "rank_of x = Rank (proposalSeqNum x) (agreed x) (processID x)"

lemma rank_of_index [simp]: "rank_of (x\<lparr>index := k\<rparr>) = rank_of x"
  by (simp add: rank_of_def)

lemma item_less_rank: "item_less x y \<longleftrightarrow> rank_of x < rank_of y"
  by (auto simp: item_less_def rank_of_def less_rank_def less_prod_def)

section \<open>The hold queue is an implementation of the heap interface\<close>

text \<open>
  An element of the heap is an address with the item stored there, up to the \<open>index\<close>
  field. The queue is well formed when its addresses are allocated, no address occurs
  twice, and the item at position \<open>i\<close> records \<open>i\<close>.
\<close>

definition pq_entry :: "'b hold_heap \<Rightarrow> nat \<Rightarrow> nat \<times> 'b hold_item" where
  "pq_entry h a = (a, (item_at h a)\<lparr>index := 0\<rparr>)"

definition pq_elems :: "'b hold_heap \<Rightarrow> (nat \<times> 'b hold_item) list" where
  "pq_elems h = map (pq_entry h) (pq h)"

definition entry_before :: "nat \<times> 'b hold_item \<Rightarrow> nat \<times> 'b hold_item \<Rightarrow> bool" where
  "entry_before x y \<longleftrightarrow> rank_of (snd x) < rank_of (snd y)"

definition pq_ok :: "'b hold_heap \<Rightarrow> bool" where
  "pq_ok h \<longleftrightarrow> distinct (pq h) \<and> set (pq h) \<subseteq> {..<length (mem h)}
     \<and> (\<forall>i<length (pq h). index (item_at h (pq h ! i)) = int i)"

definition pq_heap :: "'b hold_heap \<Rightarrow> bool" where
  "pq_heap h \<longleftrightarrow> pq_ok h \<and> heap_ordered entry_before (pq_Len h) (pq_elems h)"

definition pq_contents :: "'b hold_heap \<Rightarrow> (nat \<times> 'b hold_item) multiset" where
  "pq_contents h = mset (pq_elems h)"

lemma length_set_index [simp]: "length (set_index a k m) = length m"
  by (simp add: set_index_def)

lemma nth_set_index:
  "a < length m \<Longrightarrow> b < length m \<Longrightarrow>
     set_index a k m ! b = (if b = a then (m ! a)\<lparr>index := k\<rparr> else m ! b)"
  by (simp add: set_index_def nth_list_update)

lemma set_index_forget [simp]:
  "b < length m \<Longrightarrow> (set_index a k m ! b)\<lparr>index := 0\<rparr> = (m ! b)\<lparr>index := 0\<rparr>"
  by (cases "a < length m") (auto simp: set_index_def nth_list_update)

lemma pq_okD:
  assumes "pq_ok h" "i < length (pq h)"
  shows "pq h ! i < length (mem h)" and "index (mem h ! (pq h ! i)) = int i"
  using assms by (auto simp: pq_ok_def item_at_def nth_below)

lemma pq_Swap_simps:
  assumes "pq_ok h" "i < pq_Len h" "j < pq_Len h"
  shows "pq (pq_Swap h i j) = swap_nth (pq h) i j"
    and "length (mem (pq_Swap h i j)) = length (mem h)"
    and "b < length (mem h) \<Longrightarrow> pq_entry (pq_Swap h i j) b = pq_entry h b"
  using assms by (auto simp: pq_Swap_def Let_def pq_entry_def item_at_def)

lemma pq_Swap_ok:
  assumes ok: "pq_ok h" and ij: "i < pq_Len h" "j < pq_Len h"
  shows "pq_ok (pq_Swap h i j)"
proof -
  let ?p = "swap_nth (pq h) i j"
  have ij': "i < length (pq h)" "j < length (pq h)" using ij by (simp_all add: pq_Len_def)
  have d: "distinct ?p" "set ?p \<subseteq> {..<length (mem h)}" using ok ij' by (auto simp: pq_ok_def)
  have bnd: "?p ! k < length (mem h)" if "k < length (pq h)" for k
    using nth_below [OF d(2)] that by simp
  have "index (mem (pq_Swap h i j) ! (?p ! k)) = int k" if k: "k < length (pq h)" for k
  proof -
    have "?p ! k = ?p ! j \<longleftrightarrow> k = j" "?p ! k = ?p ! i \<longleftrightarrow> k = i"
      using nth_eq_iff_index_eq [OF d(1)] k ij' by auto
    then have "index (mem (pq_Swap h i j) ! (?p ! k)) =
        (if k = j then int j else if k = i then int i else index (mem h ! (?p ! k)))"
      using bnd [OF k] bnd [OF ij'(1)] bnd [OF ij'(2)] by (simp add: pq_Swap_def Let_def nth_set_index)
    moreover have "?p ! k = pq h ! k" if "k \<noteq> i" "k \<noteq> j"
      using that k ij' by (simp add: nth_swap_nth)
    ultimately show ?thesis using pq_okD(2) [OF ok k] by simp
  qed
  then show ?thesis
    using d ij' by (auto simp: pq_ok_def pq_Swap_def Let_def item_at_def)
qed

interpretation hold: go_heap_io
  pq_Len pq_Less pq_Swap pq_elems entry_before pq_ok pq_Push pq_Pop
  "\<lambda>a h. pq_entry h a" fst "\<lambda>a h. a < length (mem h) \<and> a \<notin> set (pq h)"
proof
  fix h :: "'b hold_heap" and a i j :: nat and x y z :: "nat \<times> 'b hold_item"
  show "pq_Len h = length (pq_elems h)" by (simp add: pq_Len_def pq_elems_def)
  show "pq_Less h i j = entry_before (pq_elems h ! i) (pq_elems h ! j)"
    if "pq_ok h" "i < pq_Len h" "j < pq_Len h"
    using that by (simp add: pq_Less_def item_less_rank entry_before_def pq_elems_def pq_Len_def pq_entry_def)
  show "pq_elems (pq_Swap h i j) = swap_nth (pq_elems h) i j"
    if "pq_ok h" "i < pq_Len h" "j < pq_Len h"
  proof -
    have "map (pq_entry (pq_Swap h i j)) (pq h) = map (pq_entry h) (pq h)"
      using pq_Swap_simps(3) [OF that] that(1) by (intro map_cong) (auto simp: pq_ok_def)
    then show ?thesis
      using that pq_Swap_simps(1) [OF that]
      by (simp add: pq_elems_def map_swap_nth pq_Len_def del: map_eq_conv)
  qed
  show "pq_ok (pq_Swap h i j)" if "pq_ok h" "i < pq_Len h" "j < pq_Len h"
    using that by (rule pq_Swap_ok)
  show "\<not> entry_before y x" if "entry_before x y"
    using that by (simp add: entry_before_def)
  show "\<not> entry_before x z" if "\<not> entry_before x y" "\<not> entry_before y z"
    using that by (simp add: entry_before_def)
  show "pq_ok (pq_Push a h)" if "pq_ok h" "a < length (mem h) \<and> a \<notin> set (pq h)"
    using that nth_mem by (fastforce simp: pq_ok_def pq_Push_def item_at_def nth_append nth_set_index less_Suc_eq)
  show "pq_elems (pq_Push a h) = pq_elems h @ [pq_entry h a]"
    if "pq_ok h" "a < length (mem h) \<and> a \<notin> set (pq h)"
    using that by (auto simp: pq_ok_def pq_Push_def pq_elems_def pq_entry_def item_at_def)
  show "\<exists>h'. pq_Pop h = Some (h', fst (last (pq_elems h))) \<and> pq_ok h' \<and> pq_elems h' = butlast (pq_elems h)"
    if ok: "pq_ok h" and "0 < pq_Len h"
  proof -
    let ?a = "last (pq h)"
    let ?h = "h\<lparr>mem := set_index ?a (- 1) (mem h), pq := butlast (pq h)\<rparr>"
    have ne: "pq h \<noteq> []" using that(2) by (auto simp: pq_Len_def)
    have pqs: "pq h = butlast (pq h) @ [?a]" using ne by simp
    have notin: "?a \<notin> set (butlast (pq h))"
      using ok distinct_append [of "butlast (pq h)" "[?a]"] pqs by (auto simp: pq_ok_def)
    have sub: "set (butlast (pq h)) \<subseteq> {..<length (mem h)}" "?a < length (mem h)"
      using ok last_in_set [OF ne] in_set_butlastD [of _ "pq h"] unfolding pq_ok_def by auto
    have "index (mem ?h ! (pq ?h ! i)) = int i" if "i < length (pq ?h)" for i
    proof -
      have i: "i < length (butlast (pq h))" using that by simp
      have "butlast (pq h) ! i \<in> set (butlast (pq h))" using i by (rule nth_mem)
      with notin have "butlast (pq h) ! i \<noteq> ?a" by metis
      then show ?thesis
        using pq_okD(2) [OF ok, of i] nth_below [OF sub(1) i] sub(2) i
        by (simp add: nth_set_index nth_butlast)
    qed
    then have "pq_ok ?h"
      using ok sub by (simp add: pq_ok_def item_at_def distinct_butlast)
    moreover have "map (pq_entry ?h) (butlast (pq h)) = map (pq_entry h) (butlast (pq h))"
      using sub(1) by (intro map_cong) (auto simp: pq_entry_def item_at_def)
    moreover have "fst (last (pq_elems h)) = ?a"
      using ne by (simp add: pq_elems_def last_map pq_entry_def)
    ultimately show ?thesis
      using ne by (simp add: pq_Pop_def Let_def pq_elems_def map_butlast)
  qed
qed

section \<open>What the operations do to the queued items\<close>

text \<open>
  Which item each queued address holds. Every operation is described by its effect on
  this map, from which the position in the heap has disappeared.
\<close>

definition pq_view :: "'b hold_heap \<Rightarrow> nat \<Rightarrow> 'b hold_item option" where
  "pq_view h a = (if a \<in> set (pq h) then Some ((item_at h a)\<lparr>index := 0\<rparr>) else None)"

lemma pq_view_contents: "pq_view h a = Some x \<longleftrightarrow> (a, x) \<in># pq_contents h"
  by (auto simp: pq_view_def pq_contents_def pq_elems_def pq_entry_def)

lemma pq_view_dom: "dom (pq_view h) = set (pq h)"
  by (auto simp: pq_view_def split: if_splits)

lemma addresses_distinct:
  assumes "pq_ok h" "pq_contents h = add_mset (a, x) M"
  shows "(a, y) \<notin># M"
proof
  assume "(a, y) \<in># M"
  then obtain N where "M = add_mset (a, y) N" by (metis insert_DiffM)
  then have "image_mset fst (pq_contents h) = add_mset a (add_mset a (image_mset fst N))"
    using assms(2) by simp
  moreover have "image_mset fst (pq_contents h) = mset (pq h)"
    by (simp add: pq_contents_def pq_elems_def pq_entry_def multiset.map_comp comp_def)
  moreover have "count (mset (pq h)) a \<le> 1"
    using assms(1) by (simp add: pq_ok_def distinct_count_atmost_1)
  ultimately show False by simp
qed

lemma pq_view_add:
  assumes "pq_ok h'" "pq_contents h' = add_mset (a, x) M" "\<And>b y. (b, y) \<in># M \<longleftrightarrow> v b = Some y"
  shows "pq_view h' = v(a \<mapsto> x)" and "v a = None"
proof -
  show none: "v a = None"
    using addresses_distinct [OF assms(1,2)] assms(3) by (cases "v a") auto
  have "pq_view h' b = (v(a \<mapsto> x)) b" for b
  proof -
    have "pq_view h' b = Some y \<longleftrightarrow> (v(a \<mapsto> x)) b = Some y" for y
      using none assms(2,3) by (auto simp: pq_view_contents)
    then show ?thesis by (metis option.exhaust)
  qed
  then show "pq_view h' = v(a \<mapsto> x)" by blast
qed

lemma hold_push_correct:
  assumes "pq_heap h" "a < length (mem h)" "a \<notin> set (pq h)"
  shows "pq_heap (hold_push a h)"
    and "pq_view (hold_push a h) = (pq_view h)(a \<mapsto> (item_at h a)\<lparr>index := 0\<rparr>)"
proof -
  have *: "pq_ok (hold_push a h) \<and> heap_ordered entry_before (pq_Len (hold_push a h)) (pq_elems (hold_push a h))
      \<and> mset (pq_elems (hold_push a h)) = add_mset (pq_entry h a) (mset (pq_elems h))"
    unfolding hold_push_def using assms by (intro hold.heap_Push_correct) (auto simp: pq_heap_def)
  then show "pq_heap (hold_push a h)" by (simp add: pq_heap_def)
  show "pq_view (hold_push a h) = (pq_view h)(a \<mapsto> (item_at h a)\<lparr>index := 0\<rparr>)"
    using * by (intro pq_view_add(1)) (auto simp: pq_contents_def pq_entry_def pq_view_contents)
qed

lemma hold_pop_correct:
  assumes "pq_heap h" "pq_Peek h = Some a"
  shows "\<exists>h'. hold_pop h = Some (h', a) \<and> pq_heap h' \<and> pq_view h' = (pq_view h)(a := None)
    \<and> length (pq h') < length (pq h)"
proof -
  from assms(2) have ne: "pq h \<noteq> []" and a: "a = pq h ! 0"
    by (auto simp: pq_Peek_def hd_conv_nth split: list.splits)
  have "0 < pq_Len h" using ne by (simp add: pq_Len_def)
  from hold.heap_Pop_correct [OF _ this] assms(1)
  obtain h' where h': "hold_pop h = Some (h', fst (pq_elems h ! 0))" "pq_heap h'"
      and m: "mset (pq_elems h) = add_mset (pq_elems h ! 0) (mset (pq_elems h'))"
    by (auto simp: pq_heap_def hold_pop_def)
  have e0: "pq_elems h ! 0 = pq_entry h a" using ne a by (simp add: pq_elems_def)
  have "pq_contents h = add_mset (a, (item_at h a)\<lparr>index := 0\<rparr>) (pq_contents h')"
    using m e0 by (simp add: pq_contents_def pq_entry_def)
  note V = pq_view_add [OF _ this, of "pq_view h'"]
  have "pq_view h = (pq_view h')(a \<mapsto> (item_at h a)\<lparr>index := 0\<rparr>)" "pq_view h' a = None"
    using V assms(1) by (simp_all add: pq_heap_def pq_view_contents)
  then have "pq_view h' = (pq_view h)(a := None)" by auto
  moreover have "length (pq h') < length (pq h)"
    using m size_mset [of "pq_elems h"] size_mset [of "pq_elems h'"]
    by (simp add: pq_elems_def del: size_mset)
  ultimately show ?thesis using h' e0 by (auto simp: pq_entry_def)
qed

lemma pq_Peek_least:
  assumes "pq_heap h" "pq_Peek h = Some a"
  shows "pq_view h a = Some ((item_at h a)\<lparr>index := 0\<rparr>)"
    and "pq_view h b = Some y \<Longrightarrow> rank_of (item_at h a) \<le> rank_of y"
proof -
  from assms(2) have ne: "pq h \<noteq> []" and a: "a = pq h ! 0"
    by (auto simp: pq_Peek_def split: list.splits)
  then show "pq_view h a = Some ((item_at h a)\<lparr>index := 0\<rparr>)" by (simp add: pq_view_def)
  assume "pq_view h b = Some y"
  then obtain k where k: "k < length (pq h)" "(b, y) = pq_elems h ! k"
    by (auto simp: pq_view_contents pq_contents_def in_set_conv_nth pq_elems_def)
  have "\<not> entry_before (pq_elems h ! k) (pq_elems h ! 0)"
    using hold.root_least assms(1) k(1) by (auto simp: pq_heap_def pq_Len_def)
  moreover have "pq_elems h ! 0 = pq_entry h a" using ne a by (simp add: pq_elems_def)
  ultimately show "rank_of (item_at h a) \<le> rank_of y"
    using k(2) [symmetric] by (simp add: entry_before_def pq_entry_def not_less)
qed

text \<open>Allocating an item changes nothing of the queue.\<close>

lemma pq_alloc:
  assumes "pq_heap h"
  shows "pq_heap (h\<lparr>mem := mem h @ [x]\<rparr>)" and "pq_view (h\<lparr>mem := mem h @ [x]\<rparr>) = pq_view h"
    and "length (mem h) \<notin> set (pq h)"
proof -
  let ?h = "h\<lparr>mem := mem h @ [x]\<rparr>"
  have ok: "pq_ok h" using assms by (simp add: pq_heap_def)
  have at: "item_at ?h a = item_at h a" if "a \<in> set (pq h)" for a
    using that ok by (auto simp: item_at_def pq_ok_def nth_append)
  then have "map (pq_entry ?h) (pq h) = map (pq_entry h) (pq h)"
    by (intro map_cong) (auto simp: pq_entry_def)
  then have el: "pq_elems ?h = pq_elems h" by (simp add: pq_elems_def del: map_eq_conv)
  have "pq_ok ?h" using ok at by (fastforce simp: pq_ok_def)
  then show "pq_heap ?h" using assms by (simp add: pq_heap_def el pq_Len_def)
  show "pq_view ?h = pq_view h" using at by (auto simp: pq_view_def fun_eq_iff)
  show "length (mem h) \<notin> set (pq h)" using ok by (auto simp: pq_ok_def)
qed

text \<open>\<open>Update\<close>: the fields are written, the heap order is restored, nothing else changes.\<close>

lemma pq_view_cong: "pq_contents h = pq_contents h' \<Longrightarrow> pq_view h = pq_view h'"
proof
  fix a assume "pq_contents h = pq_contents h'"
  then have "pq_view h a = Some x \<longleftrightarrow> pq_view h' a = Some x" for x
    by (simp add: pq_view_contents)
  then show "pq_view h a = pq_view h' a" by (metis option.exhaust)
qed

lemma pq_Update_correct:
  fixes pid :: string and seq :: uint64
  assumes h: "pq_heap h" and a: "a \<in> set (pq h)"
  defines "h' \<equiv> pq_Update a pid seq h"
  shows "pq_heap h'"
    and "pq_view h' = (pq_view h)(a \<mapsto>
      (item_at h a)\<lparr>agreed := True, processID := pid, proposalSeqNum := seq, index := 0\<rparr>)"
proof -
  define x where "x = (item_at h a)\<lparr>agreed := True, processID := pid, proposalSeqNum := seq\<rparr>"
  define h1 where "h1 = h\<lparr>mem := (mem h)[a := x]\<rparr>"
  obtain i where i: "i < length (pq h)" "pq h ! i = a" using a by (auto simp: in_set_conv_nth)
  have ok: "pq_ok h" and ord: "heap_ordered entry_before (pq_Len h) (pq_elems h)"
    using h by (auto simp: pq_heap_def)
  have al: "a < length (mem h)" using pq_okD(1) [OF ok i(1)] i(2) by simp
  have ix: "index x = int i" using pq_okD(2) [OF ok i(1)] i(2) by (simp add: x_def item_at_def)
  have at: "item_at h1 b = (if b = a then x else item_at h b)" if "b < length (mem h)" for b
    using that by (simp add: h1_def item_at_def)
  have bnd: "pq h ! k < length (mem h)" if "k < length (pq h)" for k
    using that ok by (simp add: pq_ok_def nth_below)
  have inj: "pq h ! k = a \<longleftrightarrow> k = i" if "k < length (pq h)" for k
    using that i ok nth_eq_iff_index_eq [of "pq h" k i] by (auto simp: pq_ok_def)
  have ok1: "pq_ok h1"
    using ok ix at bnd inj by (auto simp: pq_ok_def h1_def)
  have el: "pq_elems h1 = (pq_elems h)[i := (a, x\<lparr>index := 0\<rparr>)]"
  proof (rule nth_equalityI)
    fix k assume "k < length (pq_elems h1)"
    then have k: "k < length (pq h)" by (simp add: pq_elems_def h1_def)
    then show "pq_elems h1 ! k = (pq_elems h)[i := (a, x\<lparr>index := 0\<rparr>)] ! k"
      using at [OF bnd [OF k]] inj [OF k] i
      by (auto simp: pq_elems_def pq_entry_def nth_list_update h1_def)
  qed (simp add: pq_elems_def h1_def)
  have len1: "pq_Len h1 = pq_Len h" by (simp add: pq_Len_def h1_def)
  have "heap_but_at entry_before (pq_Len h1) i (pq_elems h1)"
    unfolding el len1
    by (rule heap_ordered_but_at_update [OF _ ord])
       (use i in \<open>auto simp: entry_before_def pq_elems_def pq_Len_def\<close>)
  note F = hold.heap_Fix_correct [OF ok1 _ this]
  have "h' = heap_Fix pq_Len pq_Less pq_Swap i h1"
    using ix at [OF al] by (simp add: h'_def pq_Update_def Let_def h1_def x_def [symmetric])
  then show "pq_heap h'"
    using F i len1 by (simp add: pq_heap_def pq_Len_def)
  have "pq_contents h' = pq_contents h1"
    using F i \<open>h' = _\<close> len1 by (simp add: pq_contents_def pq_Len_def)
  then have "pq_view h' = pq_view h1" by (rule pq_view_cong)
  also have "\<dots> = (pq_view h)(a \<mapsto> x\<lparr>index := 0\<rparr>)"
    using at al a ok by (auto simp: pq_view_def h1_def item_at_def fun_eq_iff pq_ok_def)
  finally show "pq_view h' = (pq_view h)(a \<mapsto>
      (item_at h a)\<lparr>agreed := True, processID := pid, proposalSeqNum := seq, index := 0\<rparr>)"
    by (simp add: x_def)
qed

section \<open>Emptying the queue\<close>

lemma pq_Len_swap: "length (pq (pq_Swap h i j)) = length (pq h)"
  by (simp add: pq_Swap_def Let_def)

lemma pq_Len_down: "length (pq (fst (heap_down pq_Less pq_Swap i n h))) = length (pq h)"
proof (induction "n - i" arbitrary: i h rule: less_induct)
  case less
  show ?case
    by (subst heap_down.simps) (auto simp: Let_def pq_Len_swap less)
qed

lemma hold_pop_shorter: "hold_pop h = Some (h', a) \<Longrightarrow> length (pq h') < length (pq h)"
  by (auto simp: hold_pop_def heap_Pop_def pq_Pop_def Let_def pq_Len_down pq_Len_swap pq_Len_def
      split: if_splits)

section \<open>Properties\<close>

text \<open>Two items: one agreed with number 5, one proposed with number 3.\<close>

definition sample_queue :: "string hold_heap" where
  "sample_queue =
     \<lparr>mem = [\<lparr>body = ''x'', proposalSeqNum = 5, processID = ''n2'', agreed = True, msgID = ''m1'', index = 1\<rparr>,
             \<lparr>body = ''y'', proposalSeqNum = 3, processID = ''n1'', agreed = False, msgID = ''m2'', index = 0\<rparr>],
      pq = [1, 0]\<rparr>"

lemma all_less_2: "(\<forall>k < (2::nat). P k) \<longleftrightarrow> P 0 \<and> P 1"
  by (auto simp: numeral_2_eq_2 less_Suc_eq)

lemma sample_queue_heap: "pq_heap sample_queue"
  by (simp add: pq_heap_def pq_ok_def heap_ordered_def sample_queue_def pq_Len_def pq_elems_def
      pq_entry_def item_at_def entry_before_def rank_of_def less_rank_def parent_def
      all_less_2 All_less_Suc)

text \<open>
  Pushing an allocated item that is not queued keeps the heap well formed and adds
  exactly that item.
\<close>

theorem push_adds_item:
  assumes "pq_heap h" "a < length (mem h)" "a \<notin> set (pq h)"
  shows "pq_heap (hold_push a h)
       \<and> pq_view (hold_push a h) = (pq_view h)(a \<mapsto> (item_at h a)\<lparr>index := 0\<rparr>)"
  using hold_push_correct [OF assms] by simp

theorem push_adds_item_witness:
  "pq_heap (hold_push 0 (sample_queue\<lparr>pq := []\<rparr>))"
  using push_adds_item [of "sample_queue\<lparr>pq := []\<rparr>" 0]
  by (simp add: pq_heap_def pq_ok_def heap_ordered_def pq_Len_def pq_elems_def sample_queue_def)

text \<open>
  C16. Popping a non-empty hold queue does not panic; it returns the item at the head, which
  no queued item precedes, removes it alone and keeps the heap well formed.
\<close>

theorem pop_returns_least:
  assumes "pq_heap h" "pq h \<noteq> []"
  shows "\<exists>h' a x. hold_pop h = Some (h', a) \<and> pq_Peek h = Some a \<and> pq_view h a = Some x
       \<and> (\<forall>b y. pq_view h b = Some y \<longrightarrow> rank_of x \<le> rank_of y)
       \<and> pq_heap h' \<and> pq_view h' = (pq_view h)(a := None)"
proof -
  obtain a where a: "pq_Peek h = Some a" using assms(2) by (cases "pq h") (auto simp: pq_Peek_def)
  from hold_pop_correct [OF assms(1) a] pq_Peek_least [OF assms(1) a] a show ?thesis by fastforce
qed

theorem pop_returns_least_witness:
  "\<exists>h'. hold_pop sample_queue = Some (h', 1) \<and> pq_heap h'"
  using pop_returns_least [of sample_queue] sample_queue_heap
  by (auto simp: pq_Peek_def sample_queue_def)

text \<open>
  C17. Updating a queued item with its agreement writes the three fields of that item alone
  and restores the heap, wherever in the heap the item was.
\<close>

theorem update_restores_heap:
  assumes "pq_heap h" "a \<in> set (pq h)"
  shows "pq_heap (pq_Update a pid seq h)
       \<and> pq_view (pq_Update a pid seq h) = (pq_view h)(a \<mapsto>
           (item_at h a)\<lparr>agreed := True, processID := pid, proposalSeqNum := seq, index := 0\<rparr>)"
  using pq_Update_correct [OF assms, of pid seq] by simp

theorem update_restores_heap_witness:
  "pq_heap (pq_Update 1 ''n3'' 9 sample_queue) \<and> 1 \<in> set (pq sample_queue)"
  using update_restores_heap [of sample_queue 1 "''n3''" 9] sample_queue_heap
  by (simp add: sample_queue_def)

end
