(* ===== verification/Multicast_Util.thy ===== *)
theory Multicast_Util
  imports Prelude
begin

text \<open>
  \<open>lib/mp1/multicast/util.go\<close>: maxima, among them the maximum of a list of votes, which is
  the agreement of the total-order protocol. A vote is a \<open>ProposalItem\<close>; its \<open>Body\<close> is
  never set by the program (a nil slice, \<open>None\<close>).
\<close>

record 'b ProposalItem =
  v_ProposalSeqNum :: uint64
  v_ProcessID :: string
  v_MsgID :: string
  v_Body :: "'b option"

definition MaxUint64 :: "uint64 \<Rightarrow> uint64 \<Rightarrow> uint64" where
  "MaxUint64 x y = (if x > y then x else y)"

fun max_loop_Uint64 :: "uint64 \<Rightarrow> uint64 list \<Rightarrow> uint64" where
  "max_loop_Uint64 m [] = m"
| "max_loop_Uint64 m (v # vs) = max_loop_Uint64 (if m < v then v else m) vs"

definition MaxOfArrayUint64 :: "uint64 list \<Rightarrow> go_error + uint64" where
  "MaxOfArrayUint64 arr =
     (case arr of [] \<Rightarrow> Inl (Errorf ''arr is an empty sequence'')
      | a # _ \<Rightarrow> Inr (max_loop_Uint64 a arr))"

fun max_loop_ProposalItem :: "'b ProposalItem \<Rightarrow> 'b ProposalItem list \<Rightarrow> 'b ProposalItem" where
  "max_loop_ProposalItem m [] = m"
| "max_loop_ProposalItem m (v # vs) =
     (if v_ProposalSeqNum m < v_ProposalSeqNum v then max_loop_ProposalItem v vs
      else if v_ProposalSeqNum m > v_ProposalSeqNum v then max_loop_ProposalItem m vs
      else if v_ProposalSeqNum m = v_ProposalSeqNum v
      then (if v_ProcessID m < v_ProcessID v then max_loop_ProposalItem v vs
            else max_loop_ProposalItem m vs)
      else max_loop_ProposalItem m vs)"

definition MaxOfArrayProposalItem :: "'b ProposalItem list \<Rightarrow> go_error + 'b ProposalItem" where
  "MaxOfArrayProposalItem arr =
     (case arr of [] \<Rightarrow> Inl (Errorf ''arr is an empty sequence'')
      | a # _ \<Rightarrow> Inr (max_loop_ProposalItem a arr))"

section \<open>Maxima\<close>

text \<open>Votes are compared by number, ties by process.\<close>

definition vote_key :: "'b ProposalItem \<Rightarrow> nat \<times> string" where
  "vote_key v = (unat (v_ProposalSeqNum v), v_ProcessID v)"

lemma MaxUint64_max: "MaxUint64 x y = max x y"
  unfolding MaxUint64_def by (auto simp: max_def)

lemma unat_MaxUint64: "unat (MaxUint64 x y) = max (unat x) (unat y)"
  unfolding MaxUint64_def by (auto simp: word_less_nat_alt max_def)

lemma max_loop_Uint64_fold: "max_loop_Uint64 m vs = fold max vs m"
proof (induction vs arbitrary: m)
  case (Cons v vs)
  have "(if m < v then v else m) = max v m" by (auto simp: max_def)
  then show ?case using Cons.IH by (simp only: max_loop_Uint64.simps fold_simps comp_def)
qed simp

lemma max_loop_ProposalItem_Cons:
  "max_loop_ProposalItem m (v # vs) =
     max_loop_ProposalItem (if vote_key m < vote_key v then v else m) vs"
  by (auto simp: vote_key_def less_prod_def word_less_nat_alt word_unat_eq_iff)

lemma max_loop_ProposalItem_max:
  "max_loop_ProposalItem m vs \<in> set (m # vs) \<and>
     (\<forall>v\<in>set (m # vs). vote_key v \<le> vote_key (max_loop_ProposalItem m vs))"
proof (induction vs arbitrary: m)
  case Nil
  then show ?case by simp
next
  case (Cons v vs)
  let ?m = "if vote_key m < vote_key v then v else m"
  have "vote_key m \<le> vote_key ?m" "vote_key v \<le> vote_key ?m" by auto
  then show ?case
    using Cons.IH [of ?m] unfolding max_loop_ProposalItem_Cons
    by (auto intro: order_trans split: if_splits)
qed

text \<open>The result on a non-empty list, and the error on the empty one.\<close>

lemma MaxOfArrayProposalItem_Inr:
  assumes "vs \<noteq> []"
  obtains m where "MaxOfArrayProposalItem vs = Inr m" "m \<in> set vs"
    "\<forall>v\<in>set vs. vote_key v \<le> vote_key m"
proof -
  from assms obtain a as where "vs = a # as" by (cases vs) auto
  then show thesis
    using max_loop_ProposalItem_max [of a vs] that
    by (auto simp: MaxOfArrayProposalItem_def simp del: max_loop_ProposalItem.simps)
qed

lemma MaxOfArrayProposalItem_Inl_iff:
  "MaxOfArrayProposalItem vs = Inl e \<longleftrightarrow> vs = [] \<and> e = Errorf ''arr is an empty sequence''"
  by (auto simp: MaxOfArrayProposalItem_def split: list.splits)

section \<open>Properties\<close>

text \<open>
  C15. The agreement on a list of votes: an error exactly on the empty list, otherwise one of
  the votes, and no vote has a larger number, or the same number and a larger process.
\<close>

theorem agreement_is_largest_vote:
  "case MaxOfArrayProposalItem vs of
     Inl e \<Rightarrow> vs = [] \<and> e = Errorf ''arr is an empty sequence''
   | Inr m \<Rightarrow> m \<in> set vs \<and> (\<forall>v\<in>set vs. vote_key v \<le> vote_key m)"
proof (cases "vs = []")
  case True
  then show ?thesis by (simp add: MaxOfArrayProposalItem_def)
next
  case False
  from MaxOfArrayProposalItem_Inr [OF this] obtain m where "MaxOfArrayProposalItem vs = Inr m"
    "m \<in> set vs" "\<forall>v\<in>set vs. vote_key v \<le> vote_key m" .
  then show ?thesis by simp
qed

definition sample_vote :: "nat \<Rightarrow> string \<Rightarrow> string ProposalItem" where
  "sample_vote n p = \<lparr>v_ProposalSeqNum = of_nat n, v_ProcessID = p, v_MsgID = ''m'', v_Body = None\<rparr>"

theorem agreement_is_largest_vote_witness:
  "\<exists>m. MaxOfArrayProposalItem [sample_vote 2 ''n1'', sample_vote 4 ''n1'', sample_vote 4 ''n2''] = Inr m
     \<and> m = sample_vote 4 ''n2''"
  using agreement_is_largest_vote [of "[sample_vote 2 ''n1'', sample_vote 4 ''n1'', sample_vote 4 ''n2'']"]
  by (auto simp: sample_vote_def vote_key_def MaxOfArrayProposalItem_def less_eq_prod_def less_prod_def
      char_of_def less_char_def)

end
