(* ===== verification/Messages.thy ===== *)
theory Messages
  imports Prelude
begin

text \<open>
  The messages of the multicast layers (\<open>lib/mp1/multicast/message.go\<close>). A message of one
  layer is marshalled into the \<open>Body\<close> of the message of the layer below; \<open>'b\<close> is the type
  of marshalled data. The \<open>Encode\<close> and \<open>Decode\<close> methods are the fields of a \<open>codec\<close>;
  the laws the protocol needs of it are the locale \<open>message_codec\<close>.
\<close>

record 'b BMsg =
  b_SrcID :: string
  b_Path :: string
  b_Body :: 'b

record 'b RMsg =
  r_ID :: string
  r_Path :: string
  r_Body :: 'b

record 'b TOAskProposalSeqMsg =
  a_SrcID :: string
  a_MsgID :: string
  a_Body :: 'b

record TOReplyProposalSeqMsg =
  p_ProcessID :: string
  p_MsgID :: string
  p_ProposalSeq :: uint64

record TOAnnounceAgreementSeqMsg =
  n_ProcessID :: string
  n_AgreementSeq :: uint64
  n_MsgID :: string

record 'b TOMsg =
  t_Path :: string
  t_Body :: 'b

text \<open>
  \<open>Encode\<close> returns data or an error. \<open>Decode\<close> of a \<open>BMsg\<close> writes into the message it is
  called on, which the server goes on using when decoding failed: it returns the message,
  possibly filled in part, and the error. \<open>digest\<close> is \<open>SHA1\<close> of the data, in hex.
\<close>

record 'b codec =
  enc_BMsg :: "'b BMsg \<Rightarrow> go_error + 'b"
  dec_BMsg :: "'b \<Rightarrow> 'b BMsg \<times> go_error option"
  enc_RMsg :: "'b RMsg \<Rightarrow> go_error + 'b"
  dec_RMsg :: "'b \<Rightarrow> go_error + 'b RMsg"
  enc_Ask :: "'b TOAskProposalSeqMsg \<Rightarrow> go_error + 'b"
  dec_Ask :: "'b \<Rightarrow> go_error + 'b TOAskProposalSeqMsg"
  enc_Reply :: "TOReplyProposalSeqMsg \<Rightarrow> go_error + 'b"
  dec_Reply :: "'b \<Rightarrow> go_error + TOReplyProposalSeqMsg"
  enc_Announce :: "TOAnnounceAgreementSeqMsg \<Rightarrow> go_error + 'b"
  dec_Announce :: "'b \<Rightarrow> go_error + TOAnnounceAgreementSeqMsg"
  enc_TOMsg :: "'b TOMsg \<Rightarrow> go_error + 'b"
  dec_TOMsg :: "'b \<Rightarrow> go_error + 'b TOMsg"
  digest :: "'b \<Rightarrow> string"

section \<open>Constructors\<close>

text \<open>
  The argument \<open>data\<close> is the result of \<open>json.Marshal(v)\<close> on the value a constructor is
  given, \<open>uuid\<close> the text of the fresh \<open>uuid.New()\<close> it draws.
\<close>

definition NewBMsg :: "string \<Rightarrow> string \<Rightarrow> go_error + 'b \<Rightarrow> go_error + 'b BMsg" where
  "NewBMsg srcID path data =
     (case data of Inl e \<Rightarrow> Inl e | Inr d \<Rightarrow> Inr \<lparr>b_SrcID = srcID, b_Path = path, b_Body = d\<rparr>)"

definition NewRMsg :: "'b codec \<Rightarrow> string \<Rightarrow> string \<Rightarrow> go_error + 'b \<Rightarrow> go_error + 'b RMsg" where
  "NewRMsg cd uuid path data =
     (case data of Inl e \<Rightarrow> Inl e
      | Inr d \<Rightarrow> Inr \<lparr>r_ID = uuid @ ''-'' @ digest cd d, r_Path = path, r_Body = d\<rparr>)"

definition NewTOAskProposalSeqMsg :: "'b codec \<Rightarrow> string \<Rightarrow> string \<Rightarrow> 'b \<Rightarrow> 'b TOAskProposalSeqMsg" where
  "NewTOAskProposalSeqMsg cd uuid srcID d =
     \<lparr>a_SrcID = srcID, a_MsgID = uuid @ digest cd d, a_Body = d\<rparr>"

definition NewTOReplyProposalSeqMsg :: "string \<Rightarrow> string \<Rightarrow> uint64 \<Rightarrow> TOReplyProposalSeqMsg" where
  "NewTOReplyProposalSeqMsg pid mid seq = \<lparr>p_ProcessID = pid, p_MsgID = mid, p_ProposalSeq = seq\<rparr>"

definition NewTOAnnounceAgreementSeqMsg :: "string \<Rightarrow> uint64 \<Rightarrow> string \<Rightarrow> TOAnnounceAgreementSeqMsg" where
  "NewTOAnnounceAgreementSeqMsg pid seq mid = \<lparr>n_ProcessID = pid, n_AgreementSeq = seq, n_MsgID = mid\<rparr>"

definition NewTOMsg :: "string \<Rightarrow> go_error + 'b \<Rightarrow> go_error + 'b TOMsg" where
  "NewTOMsg path data =
     (case data of Inl e \<Rightarrow> Inl e | Inr d \<Rightarrow> Inr \<lparr>t_Path = path, t_Body = d\<rparr>)"

section \<open>Paths\<close>

definition BMulticastPath :: string where "BMulticastPath = ''/b-multicast''"
definition RMulticastPath :: string where "RMulticastPath = ''/r-multicast''"
definition AskProposalSeqPath :: string where "AskProposalSeqPath = ''/total-ording/ask-proposal-seq''"
definition WaitProposalSeqPath :: string where "WaitProposalSeqPath = ''/total-ording/wait-proposal-seq''"
definition AnnounceAgreementSeqPath :: string where
  "AnnounceAgreementSeqPath = ''/total-ording/announce-agreement-seq''"

lemma paths_distinct [simp]:
  "BMulticastPath \<noteq> RMulticastPath" "RMulticastPath \<noteq> BMulticastPath"
  "BMulticastPath \<noteq> WaitProposalSeqPath" "WaitProposalSeqPath \<noteq> BMulticastPath"
  "RMulticastPath \<noteq> WaitProposalSeqPath" "WaitProposalSeqPath \<noteq> RMulticastPath"
  "AskProposalSeqPath \<noteq> AnnounceAgreementSeqPath" "AnnounceAgreementSeqPath \<noteq> AskProposalSeqPath"
  by (simp_all add: BMulticastPath_def RMulticastPath_def WaitProposalSeqPath_def
      AskProposalSeqPath_def AnnounceAgreementSeqPath_def)

section \<open>What the protocol needs of the codec\<close>

text \<open>
  Messages over valid text are encoded without error and decode to themselves. \<open>valid\<close> is
  the text that survives (JSON replaces bytes that are not UTF-8). What was encoded of a
  \<open>TOMsg\<close> can always be decoded, to the same message or not.
\<close>

locale message_codec =
  fixes cd :: "'b codec" and valid :: "string \<Rightarrow> bool"
  assumes BMsg_roundtrip: "valid (b_SrcID bm) \<Longrightarrow> valid (b_Path bm) \<Longrightarrow>
      \<exists>d. enc_BMsg cd bm = Inr d \<and> dec_BMsg cd d = (bm, None)"
    and RMsg_roundtrip: "valid (r_ID rm) \<Longrightarrow> valid (r_Path rm) \<Longrightarrow>
      \<exists>d. enc_RMsg cd rm = Inr d \<and> dec_RMsg cd d = Inr rm"
    and Ask_roundtrip: "valid (a_SrcID ask) \<Longrightarrow> valid (a_MsgID ask) \<Longrightarrow>
      \<exists>d. enc_Ask cd ask = Inr d \<and> dec_Ask cd d = Inr ask"
    and Reply_roundtrip: "valid (p_ProcessID reply) \<Longrightarrow> valid (p_MsgID reply) \<Longrightarrow>
      \<exists>d. enc_Reply cd reply = Inr d \<and> dec_Reply cd d = Inr reply"
    and Announce_roundtrip: "valid (n_ProcessID ann) \<Longrightarrow> valid (n_MsgID ann) \<Longrightarrow>
      \<exists>d. enc_Announce cd ann = Inr d \<and> dec_Announce cd d = Inr ann"
    and TOMsg_roundtrip: "valid (t_Path tm) \<Longrightarrow>
      \<exists>d. enc_TOMsg cd tm = Inr d \<and> dec_TOMsg cd d = Inr tm"
    and TOMsg_decodes: "enc_TOMsg cd tm = Inr d \<Longrightarrow> \<exists>tm'. dec_TOMsg cd d = Inr tm'"
    and valid_append: "valid u \<Longrightarrow> valid v \<Longrightarrow> valid (u @ v)"
    and valid_dash: "valid ''-''"
    and valid_digest: "valid (digest cd d)"
    and valid_paths: "valid RMulticastPath" "valid WaitProposalSeqPath" "valid AskProposalSeqPath"
      "valid AnnounceAgreementSeqPath"

end
