(* ===== verification/Router.thy ===== *)
theory Router
  imports Prelude
begin

text \<open>
  \<open>lib/mp1/router/router.go\<close>: handlers bound to exact paths. The program binds closures; a
  handler is a value \<open>'h\<close> naming the closure, and running it is the argument \<open>exec\<close>.
\<close>

record 'v router_Msg =
  m_Path :: string
  m_Body :: 'v

definition NewMsg :: "string \<Rightarrow> 'v \<Rightarrow> 'v router_Msg" where
  "NewMsg path v = \<lparr>m_Path = path, m_Body = v\<rparr>"

type_synonym 'h router = "string \<Rightarrow> 'h option"

definition New_router :: "'h router" where
  "New_router = Map.empty"

definition Bind :: "string \<Rightarrow> 'h \<Rightarrow> 'h router \<Rightarrow> 'h router" where
  "Bind path f r = r(path \<mapsto> f)"

definition Run ::
  "('h \<Rightarrow> 'm \<Rightarrow> 's \<Rightarrow> ('s, 'e) call) \<Rightarrow> 'h router \<Rightarrow> string \<Rightarrow> 'm \<Rightarrow> 's \<Rightarrow> ('s, 'e) call" where
  "Run exec r path msg s =
     (case r path of None \<Rightarrow> Some (s, [], Some (NoRoute path)) | Some f \<Rightarrow> exec f msg s)"

lemma Run_Bind:
  "Run exec (Bind path f r) path' msg s =
     (if path' = path then exec f msg s else Run exec r path' msg s)"
  by (simp add: Run_def Bind_def)

lemma Run_New: "Run exec New_router path msg s = Some (s, [], Some (NoRoute path))"
  by (simp add: Run_def New_router_def)

end
