(* ===== verification/BMulticast.thy ===== *)
theory BMulticast
  imports Messages Router
begin

text \<open>
  The basic multicast layer (\<open>lib/mp1/multicast/b_multicast.go\<close>, \<open>client.go\<close>): the table of
  connections to the members of the group, unicast and multicast over them, and the
  ejection of a member whose connection fails. A connection is the environment: whether a
  write on it succeeds is the argument \<open>ok\<close>, per path and destination.
\<close>

section \<open>State\<close>

record TCPClient =
  c_srcID :: string
  c_dstID :: string
  c_addr :: string
  c_retryInterval :: int

text \<open>
  Effects, in the order the code makes them: a message written to a connection (\<open>Send\<close>
  adds the newline that frames it), a connection closed, the member count published on the
  broker, the delivery of a totally ordered message and the text a handler prints.
\<close>

datatype 'b effect =
    Write (eff_dst: string) (eff_data: 'b)
  | CloseConn string
  | Publish nat
  | TODeliver (dlv_seq: uint64) (dlv_pid: string) (dlv_msg: string)
  | Print string

text \<open>The closures the program binds on the router of this layer.\<close>

datatype b_handler = BDeliver | RDeliver | WaitProposalSeq

text \<open>
  A client in the table may be a nil pointer (\<open>None\<close>): \<open>startClient\<close> adds the client it
  got before it looks at the error.
\<close>

record bmulticast =
  senders :: "string \<Rightarrow> TCPClient option option"
  b_router :: "b_handler router"
  startSyncWaitGroup :: int

definition NewBMulticast :: bmulticast where
  "NewBMulticast = \<lparr>senders = Map.empty, b_router = New_router, startSyncWaitGroup = 0\<rparr>"

section \<open>Operations\<close>

definition B_Bind :: "string \<Rightarrow> b_handler \<Rightarrow> bmulticast \<Rightarrow> bmulticast" where
  "B_Bind path f b = b\<lparr>b_router := Bind path f (b_router b)\<rparr>"

definition bindBDeliver :: "bmulticast \<Rightarrow> bmulticast" where
  "bindBDeliver b = b\<lparr>b_router := Bind BMulticastPath BDeliver (b_router b)\<rparr>"

definition AddMember :: "string \<Rightarrow> TCPClient option \<Rightarrow> bmulticast \<Rightarrow> bmulticast" where
  "AddMember nodeID client b = b\<lparr>senders := (senders b)(nodeID \<mapsto> client)\<rparr>"

definition MemberCount :: "bmulticast \<Rightarrow> nat" where
  "MemberCount b = card (dom (senders b))"

definition IsNodeAlived :: "string \<Rightarrow> bmulticast \<Rightarrow> bool" where
  "IsNodeAlived nodeID b = (case senders b nodeID of None \<Rightarrow> False | Some _ \<Rightarrow> True)"

text \<open>
  What both multicast loops and \<open>Unicast\<close> do when \<open>Send\<close> failed: the node is ejected and
  the new member count is published.
\<close>

definition eject :: "string \<Rightarrow> bmulticast \<Rightarrow> bmulticast \<times> 'b effect list" where
  "eject dstID b =
     (let b' = b\<lparr>senders := (senders b)(dstID := None)\<rparr>
      in (b', [CloseConn dstID, Publish (MemberCount b')]))"

definition B_Unicast ::
  "'b codec \<Rightarrow> string \<Rightarrow> (string \<Rightarrow> string \<Rightarrow> bool) \<Rightarrow> string \<Rightarrow> string \<Rightarrow> go_error + 'b \<Rightarrow> bmulticast \<Rightarrow>
     (bmulticast, 'b effect) call" where
  "B_Unicast cd self ok dstID path data b =
     (case senders b dstID of
        None \<Rightarrow> Some (b, [], Some (Errorf (''dst node id ['' @ dstID @ ''] sender not exists, unicast failed'')))
      | Some sender \<Rightarrow>
          (case NewBMsg self path data of
             Inl e \<Rightarrow> Some (b, [], Some (Wrap e ''b-unicast failed''))
           | Inr bmsg \<Rightarrow>
               (case enc_BMsg cd bmsg of
                  Inl e \<Rightarrow> Some (b, [], Some (Wrap e ''b-unicast failed''))
                | Inr bytes \<Rightarrow>
                    (case sender of
                       None \<Rightarrow> None
                     | Some c \<Rightarrow>
                         if ok path dstID then Some (b, [Write dstID bytes], None)
                         else let (b', es) = eject dstID b
                              in Some (b', es, Some (Wrap WriteFailed ''b-unicast failed''))))))"

text \<open>
  The loop over the map of senders, in the order of iteration \<open>ds\<close>, which Go leaves open;
  the map is read at each step, as deleting the current key during the loop allows.
\<close>

fun multicast_loop ::
  "(string \<Rightarrow> string \<Rightarrow> bool) \<Rightarrow> string \<Rightarrow> 'b \<Rightarrow> string list \<Rightarrow> bmulticast \<Rightarrow> (bmulticast, 'b effect) call" where
  "multicast_loop ok path bytes [] b = Some (b, [], None)"
| "multicast_loop ok path bytes (d # ds) b =
     (case senders b d of
        None \<Rightarrow> multicast_loop ok path bytes ds b
      | Some None \<Rightarrow> None
      | Some (Some c) \<Rightarrow>
          (let (b1, es) = (if ok path d then (b, [Write d bytes]) else eject d b)
           in case multicast_loop ok path bytes ds b1 of
                None \<Rightarrow> None
              | Some (b2, es2, err) \<Rightarrow> Some (b2, es @ es2, err)))"

definition B_Multicast ::
  "'b codec \<Rightarrow> string \<Rightarrow> (string \<Rightarrow> string \<Rightarrow> bool) \<Rightarrow> string list \<Rightarrow> string \<Rightarrow> go_error + 'b \<Rightarrow> bmulticast \<Rightarrow>
     (bmulticast, 'b effect) call" where
  "B_Multicast cd self ok order path data b =
     (case NewBMsg self path data of
        Inl e \<Rightarrow> Some (b, [], Some (Wrap e ''b-multicast failed''))
      | Inr bmsg \<Rightarrow>
          (case enc_BMsg cd bmsg of
             Inl e \<Rightarrow> Some (b, [], Some (Wrap e ''b-multicast failed''))
           | Inr bytes \<Rightarrow> multicast_loop ok path bytes order b))"

section \<open>Membership\<close>

definition live :: "bmulticast \<Rightarrow> string set" where
  "live b = dom (senders b)"

definition clients_ok :: "bmulticast \<Rightarrow> bool" where
  "clients_ok b \<longleftrightarrow> None \<notin> ran (senders b)"

lemma clients_okD: "clients_ok b \<Longrightarrow> senders b d \<noteq> Some None"
  by (auto simp: clients_ok_def ran_def)

lemma IsNodeAlived_live: "IsNodeAlived d b \<longleftrightarrow> d \<in> live b"
  by (auto simp: IsNodeAlived_def live_def split: option.splits)

lemma MemberCount_live: "MemberCount b = card (live b)"
  by (simp add: MemberCount_def live_def)

lemma live_AddMember [simp]: "live (AddMember d c b) = insert d (live b)"
  by (simp add: live_def AddMember_def)

lemma eject_eq:
  "eject d b = (b\<lparr>senders := (senders b)(d := None)\<rparr>,
     [CloseConn d, Publish (MemberCount (b\<lparr>senders := (senders b)(d := None)\<rparr>))])"
  by (simp add: eject_def Let_def)

lemma live_eject [simp]: "live (fst (eject d b)) = live b - {d}"
  by (auto simp: eject_eq live_def)

lemma clients_ok_eject [simp]: "clients_ok b \<Longrightarrow> clients_ok (fst (eject d b))"
  by (auto simp: eject_eq clients_ok_def ran_def split: if_splits)

text \<open>
  A multicast returns whenever no client is nil. Every member in the order of iteration is
  written to, or ejected when its write fails; the others are left alone.
\<close>

lemma multicast_loop_correct:
  assumes "clients_ok b" "distinct ds"
  shows "\<exists>b' es. multicast_loop ok path bytes ds b = Some (b', es, None) \<and> clients_ok b'
    \<and> live b' = {d \<in> live b. d \<in> set ds \<longrightarrow> ok path d}
    \<and> b_router b' = b_router b
    \<and> filter (\<lambda>e. \<exists>d x. e = Write d x) es = map (\<lambda>d. Write d bytes) (filter (\<lambda>d. d \<in> live b \<and> ok path d) ds)
    \<and> (\<forall>d. senders b' d = (if d \<in> set ds \<and> \<not> ok path d then None else senders b d))"
  using assms
proof (induction ds arbitrary: b)
  case Nil
  then show ?case by simp
next
  case (Cons d ds)
  show ?case
  proof (cases "senders b d")
    case None
    then have nl: "d \<notin> live b" by (auto simp: live_def)
    from Cons.IH [OF Cons.prems(1)] Cons.prems(2) None nl show ?thesis by fastforce
  next
    case (Some c)
    then obtain cl where c: "senders b d = Some (Some cl)"
      using clients_okD [OF Cons.prems(1), of d] by (cases c) auto
    then have dl: "d \<in> live b" by (auto simp: live_def)
    define b1 where "b1 = (if ok path d then b else b\<lparr>senders := (senders b)(d := None)\<rparr>)"
    define es1 where "es1 = (if ok path d then [Write d bytes] else snd (eject d b))"
    have split: "(if ok path d then (b, [Write d bytes]) else eject d b) = (b1, es1)"
      by (simp add: b1_def es1_def eject_eq)
    have b1: "clients_ok b1" "live b1 = {x \<in> live b. x = d \<longrightarrow> ok path d}" "b_router b1 = b_router b"
      using Cons.prems(1) by (auto simp: b1_def live_def clients_ok_def ran_def)
    have s1: "senders b1 x = (if x = d \<and> \<not> ok path d then None else senders b x)" for x
      by (simp add: b1_def)
    have fl: "filter (\<lambda>e. \<exists>d x. e = Write d x) es1 = (if ok path d then [Write d bytes] else [])"
      by (simp add: es1_def eject_eq)
    have dist: "distinct ds" "d \<notin> set ds" using Cons.prems(2) by auto
    obtain b' es where r: "multicast_loop ok path bytes ds b1 = Some (b', es, None)" "clients_ok b'"
        "live b' = {x \<in> live b1. x \<in> set ds \<longrightarrow> ok path x}" "b_router b' = b_router b1"
        "filter (\<lambda>e. \<exists>d x. e = Write d x) es
          = map (\<lambda>d. Write d bytes) (filter (\<lambda>d. d \<in> live b1 \<and> ok path d) ds)"
        "\<forall>x. senders b' x = (if x \<in> set ds \<and> \<not> ok path x then None else senders b1 x)"
      using Cons.IH [OF b1(1) dist(1)] by blast
    have "filter (\<lambda>x. x \<in> live b1 \<and> ok path x) ds = filter (\<lambda>x. x \<in> live b \<and> ok path x) ds"
      using b1(2) dist(2) by (intro filter_cong) auto
    then have "multicast_loop ok path bytes (d # ds) b = Some (b', es1 @ es, None)
        \<and> filter (\<lambda>e. \<exists>d x. e = Write d x) (es1 @ es)
          = map (\<lambda>d. Write d bytes) (filter (\<lambda>x. x \<in> live b \<and> ok path x) (d # ds))"
      using c split r(1,5) fl dl by simp
    moreover have "live b' = {x \<in> live b. x \<in> set (d # ds) \<longrightarrow> ok path x}"
      using r(3) b1(2) dist(2) by auto
    moreover have "senders b' x = (if x \<in> set (d # ds) \<and> \<not> ok path x then None else senders b x)" for x
      using r(6) s1 by auto
    ultimately show ?thesis using r(2,4) b1(3) by auto
  qed
qed

end
