(* ===== verification/RMulticast.thy ===== *)
theory RMulticast
  imports BMulticast
begin

text \<open>
  The reliable multicast layer (\<open>lib/mp1/multicast/r_multicast.go\<close>): the set of message ids
  seen so far, which makes delivery happen once, and the sending side. What happens when
  a message arrives also involves the layer above and is in the theory \<open>Group\<close>.
\<close>

text \<open>The closures the program binds on the router of this layer.\<close>

datatype r_handler = AskProposalSeq | AnnounceAgreementSeq

record rmulticast =
  received :: "string set"
  r_router :: "r_handler router"

definition NewRMulticast :: rmulticast where
  "NewRMulticast = \<lparr>received = {}, r_router = New_router\<rparr>"

definition AddMsgIfNotExist :: "string \<Rightarrow> rmulticast \<Rightarrow> rmulticast \<times> bool" where
  "AddMsgIfNotExist msgid r =
     (if msgid \<notin> received r then (r\<lparr>received := insert msgid (received r)\<rparr>, True) else (r, False))"

definition R_Multicast ::
  "'b codec \<Rightarrow> string \<Rightarrow> (string \<Rightarrow> string \<Rightarrow> bool) \<Rightarrow> string list \<Rightarrow> string \<Rightarrow> string \<Rightarrow> go_error + 'b \<Rightarrow>
     bmulticast \<Rightarrow> (bmulticast, 'b effect) call" where
  "R_Multicast cd self ok order uuid path data b =
     (case NewRMsg cd uuid path data of
        Inl e \<Rightarrow> Some (b, [], Some (Wrap e ''r-multicast failed''))
      | Inr rmsg \<Rightarrow>
          (case B_Multicast cd self ok order RMulticastPath (enc_RMsg cd rmsg) b of
             None \<Rightarrow> None
           | Some (b', es, err) \<Rightarrow> Some (b', es, wrap_err ''r-multicast failed'' err)))"

definition R_Bind :: "string \<Rightarrow> r_handler \<Rightarrow> rmulticast \<Rightarrow> rmulticast" where
  "R_Bind path f r = r\<lparr>r_router := Bind path f (r_router r)\<rparr>"

definition bindRDeliver :: "bmulticast \<Rightarrow> bmulticast" where
  "bindRDeliver b = B_Bind RMulticastPath RDeliver b"

text \<open>A message id is new exactly once.\<close>

lemma AddMsgIfNotExist_new: "snd (AddMsgIfNotExist i r) \<longleftrightarrow> i \<notin> received r"
  by (simp add: AddMsgIfNotExist_def)

lemma AddMsgIfNotExist_received [simp]:
  "received (fst (AddMsgIfNotExist i r)) = insert i (received r)"
  "r_router (fst (AddMsgIfNotExist i r)) = r_router r"
  by (auto simp: AddMsgIfNotExist_def)

fun add_all :: "string list \<Rightarrow> rmulticast \<Rightarrow> rmulticast \<times> string list" where
  "add_all [] r = (r, [])"
| "add_all (i # is) r =
     (let (r1, new) = AddMsgIfNotExist i r; (r2, ns) = add_all is r1
      in (r2, if new then i # ns else ns))"

lemma add_all_once:
  "received (fst (add_all is r)) = received r \<union> set is
   \<and> distinct (snd (add_all is r)) \<and> set (snd (add_all is r)) = set is - received r"
proof (induction "is" arbitrary: r)
  case (Cons i "is")
  then show ?case
    by (cases "i \<in> received r")
       (auto simp: AddMsgIfNotExist_def Let_def split_beta Cons.IH)
qed simp

end
