(* ===== verification/Total_Ording.thy ===== *)
theory Total_Ording
  imports Hold_Queue Multicast_Util RMulticast
begin

text \<open>
  The total-order layer (\<open>lib/mp1/multicast/total_ording.go\<close>), the ISIS algorithm: a message
  is sent with a request for proposals, every member holds it and replies with a number,
  the sender announces the largest, and members deliver held messages in the order of the
  announced numbers. The handler of a request has two critical sections; each is a
  definition of its own, and \<open>handle_ask\<close> runs one after the other. The theory \<open>Lock_Gap\<close>
  lets other handlers run in between.
\<close>

section \<open>State\<close>

record ('b, 'h) totalording =
  t_router :: "'h router"
  holdQueueMap :: "string \<Rightarrow> nat option"
  holdQueue :: "'b hold_heap"
  maxAgreementSeqNumOfGroup :: uint64
  maxProposalSeqNumOfSelf :: uint64
  waitProposalCounter :: "string \<Rightarrow> 'b ProposalItem list option"
  waitVotesChannel :: "'b ProposalItem list"
  crashNodeTimeout :: "string \<Rightarrow> int option"

definition NodeCrashTimeout :: int where
  "NodeCrashTimeout = 6 * 1000000000"   \<comment> \<open>nanoseconds\<close>

definition waitVotesCapacity :: nat where
  "waitVotesCapacity = 10000"

text \<open>\<open>heap.Init\<close> on the empty queue does nothing.\<close>

definition NewTotalOrder :: "('b, 'h) totalording" where
  "NewTotalOrder =
     \<lparr>t_router = New_router, holdQueueMap = Map.empty, holdQueue = \<lparr>mem = [], pq = []\<rparr>,
      maxAgreementSeqNumOfGroup = 0, maxProposalSeqNumOfSelf = 0,
      waitProposalCounter = Map.empty, waitVotesChannel = [], crashNodeTimeout = Map.empty\<rparr>"

definition TO_Bind :: "string \<Rightarrow> 'h \<Rightarrow> ('b, 'h) totalording \<Rightarrow> ('b, 'h) totalording" where
  "TO_Bind path f t = t\<lparr>t_router := Bind path f (t_router t)\<rparr>"

section \<open>Asking for proposals\<close>

text \<open>
  \<open>Multicast\<close> draws two uuids: \<open>uuid1\<close> for the message of this layer, \<open>uuid2\<close> for the one
  of the layer below.
\<close>

definition TO_Multicast ::
  "'b codec \<Rightarrow> string \<Rightarrow> (string \<Rightarrow> string \<Rightarrow> bool) \<Rightarrow> string list \<Rightarrow> string \<Rightarrow> string \<Rightarrow> string \<Rightarrow>
     go_error + 'b \<Rightarrow> bmulticast \<Rightarrow> (bmulticast, 'b effect) call" where
  "TO_Multicast cd self ok order uuid1 uuid2 path data b =
     (case NewTOMsg path data of
        Inl e \<Rightarrow> Some (b, [], Some (Wrap e ''to-multicast failed''))
      | Inr tomsg \<Rightarrow>
          (case enc_TOMsg cd tomsg of
             Inl e \<Rightarrow> Some (b, [], Some (Wrap e ''to-multicast failed''))
           | Inr bytes \<Rightarrow>
               (case R_Multicast cd self ok order uuid2 AskProposalSeqPath
                       (enc_Ask cd (NewTOAskProposalSeqMsg cd uuid1 self bytes)) b of
                  None \<Rightarrow> None
                | Some (b', es, err) \<Rightarrow> Some (b', es, wrap_err ''to-multicast failed'' err))))"

text \<open>The handler of a request: number the message, hold it, reply to its sender.\<close>

definition next_proposal :: "('b, 'h) totalording \<Rightarrow> uint64" where
  "next_proposal t = MaxUint64 (maxAgreementSeqNumOfGroup t) (maxProposalSeqNumOfSelf t) + 1"

definition hold_message ::
  "'b TOAskProposalSeqMsg \<Rightarrow> uint64 \<Rightarrow> ('b, 'h) totalording \<Rightarrow> ('b, 'h) totalording" where
  "hold_message askMsg seq t =
     (let item = \<lparr>body = a_Body askMsg, proposalSeqNum = seq, processID = a_SrcID askMsg,
                  agreed = False, msgID = a_MsgID askMsg, index = 0\<rparr>;
          a = length (mem (holdQueue t));
          h = (holdQueue t)\<lparr>mem := mem (holdQueue t) @ [item]\<rparr>
      in t\<lparr>holdQueueMap := (holdQueueMap t)(a_MsgID askMsg \<mapsto> a), holdQueue := hold_push a h\<rparr>)"

text \<open>
  The first critical section, under the locks of the two counters: the message gets a number.
  The second, under the lock of the hold queue: it is held, and its sender gets the reply.
\<close>

definition number_ask :: "('b, 'h) totalording \<Rightarrow> uint64 \<times> ('b, 'h) totalording" where
  "number_ask t = (let seq = next_proposal t in (seq, t\<lparr>maxProposalSeqNumOfSelf := seq\<rparr>))"

definition hold_and_reply ::
  "'b codec \<Rightarrow> string \<Rightarrow> (string \<Rightarrow> string \<Rightarrow> bool) \<Rightarrow> 'b TOAskProposalSeqMsg \<Rightarrow> uint64 \<Rightarrow>
     ('b, 'h) totalording \<times> bmulticast \<Rightarrow> (('b, 'h) totalording \<times> bmulticast, 'b effect) call" where
  "hold_and_reply cd self ok askMsg seq = (\<lambda>(t, b).
     (let t1 = hold_message askMsg seq t;
          reply = NewTOReplyProposalSeqMsg self (a_MsgID askMsg) seq
      in case B_Unicast cd self ok (a_SrcID askMsg) WaitProposalSeqPath (enc_Reply cd reply) b of
           None \<Rightarrow> None
         | Some (b', es, err) \<Rightarrow> Some ((t1, b'), es, wrap_err ''ask-proposal-seq failed'' err)))"

definition handle_ask ::
  "'b codec \<Rightarrow> string \<Rightarrow> (string \<Rightarrow> string \<Rightarrow> bool) \<Rightarrow> 'b RMsg \<Rightarrow> ('b, 'h) totalording \<times> bmulticast \<Rightarrow>
     (('b, 'h) totalording \<times> bmulticast, 'b effect) call" where
  "handle_ask cd self ok msg = (\<lambda>(t, b).
     (case dec_Ask cd (r_Body msg) of
        Inl e \<Rightarrow> Some ((t, b), [], Some (Wrap e ''ask-proposal-seq failed''))
      | Inr askMsg \<Rightarrow>
          (let (seq, t1) = number_ask t in hold_and_reply cd self ok askMsg seq (t1, b))))"

lemmas handle_ask_sections = handle_ask_def number_ask_def hold_and_reply_def

section \<open>Collecting votes\<close>

text \<open>The handler of a reply sends on a channel of capacity 10000; on a full one it blocks.\<close>

definition handle_reply ::
  "'b codec \<Rightarrow> 'b BMsg \<Rightarrow> ('b, 'h) totalording \<Rightarrow> (('b, 'h) totalording, 'b effect) call" where
  "handle_reply cd msg t =
     (case dec_Reply cd (b_Body msg) of
        Inl e \<Rightarrow> Some (t, [], Some (Wrap e ''wait-proposal-seq failed''))
      | Inr reply \<Rightarrow>
          (let vote = \<lparr>v_ProposalSeqNum = p_ProposalSeq reply, v_ProcessID = p_ProcessID reply,
                       v_MsgID = p_MsgID reply, v_Body = None\<rparr>
           in if length (waitVotesChannel t) < waitVotesCapacity
              then Some (t\<lparr>waitVotesChannel := waitVotesChannel t @ [vote]\<rparr>, [], None)
              else None))"

definition aggregateVotesAndMulticast ::
  "'b codec \<Rightarrow> string \<Rightarrow> (string \<Rightarrow> string \<Rightarrow> bool) \<Rightarrow> string list \<Rightarrow> string \<Rightarrow> 'b ProposalItem list \<Rightarrow>
     bmulticast \<Rightarrow> (bmulticast, 'b effect) call" where
  "aggregateVotesAndMulticast cd self ok order uuid votes b =
     (case MaxOfArrayProposalItem votes of
        Inl e \<Rightarrow> Some (b, [], Some e)
      | Inr item \<Rightarrow>
          R_Multicast cd self ok order uuid AnnounceAgreementSeqPath
            (enc_Announce cd (NewTOAnnounceAgreementSeqMsg (v_ProcessID item) (v_ProposalSeqNum item) (v_MsgID item))) b)"

text \<open>
  One turn of \<open>collectVotes\<close> for a vote from the channel. The error of the announcement is
  only logged.
\<close>

definition collect_vote ::
  "'b codec \<Rightarrow> string \<Rightarrow> (string \<Rightarrow> string \<Rightarrow> bool) \<Rightarrow> string list \<Rightarrow> string \<Rightarrow>
     ('b, 'h) totalording \<times> bmulticast \<Rightarrow> (('b, 'h) totalording \<times> bmulticast, 'b effect) call" where
  "collect_vote cd self ok order uuid = (\<lambda>(t, b).
     (case waitVotesChannel t of
        [] \<Rightarrow> None
      | vote # rest \<Rightarrow>
          (let mid = v_MsgID vote;
               votes = (case waitProposalCounter t mid of None \<Rightarrow> [] | Some vs \<Rightarrow> vs) @ [vote];
               t1 = t\<lparr>waitVotesChannel := rest, waitProposalCounter := (waitProposalCounter t)(mid \<mapsto> votes)\<rparr>
           in if length votes < MemberCount b then Some ((t1, b), [], None)
              else case aggregateVotesAndMulticast cd self ok order uuid votes b of
                     None \<Rightarrow> None
                   | Some (b', es, err) \<Rightarrow>
                       Some ((t1\<lparr>waitProposalCounter := (waitProposalCounter t1)(mid := None)\<rparr>, b'), es, None))))"

text \<open>
  One turn of \<open>collectVotes\<close> for a new member count: every message with enough votes is
  announced. \<open>mids\<close> is the order of iteration over the map of votes, each with the uuid
  its announcement draws. A published value that is not an \<open>int\<close> counts as \<open>-1\<close>.
\<close>

fun recount_loop ::
  "'b codec \<Rightarrow> string \<Rightarrow> (string \<Rightarrow> string \<Rightarrow> bool) \<Rightarrow> string list \<Rightarrow> int \<Rightarrow> (string \<times> string) list \<Rightarrow>
     ('b, 'h) totalording \<times> bmulticast \<Rightarrow> (('b, 'h) totalording \<times> bmulticast, 'b effect) call" where
  "recount_loop cd self ok order membersCount [] tb = Some (tb, [], None)"
| "recount_loop cd self ok order membersCount ((mid, uuid) # mids) (t, b) =
     (case waitProposalCounter t mid of
        None \<Rightarrow> recount_loop cd self ok order membersCount mids (t, b)
      | Some votes \<Rightarrow>
          if int (length votes) < membersCount then recount_loop cd self ok order membersCount mids (t, b)
          else case aggregateVotesAndMulticast cd self ok order uuid votes b of
                 None \<Rightarrow> None
               | Some (b', es, err) \<Rightarrow>
                   (case recount_loop cd self ok order membersCount mids
                           (t\<lparr>waitProposalCounter := (waitProposalCounter t)(mid := None)\<rparr>, b') of
                      None \<Rightarrow> None
                    | Some (tb'', es2, err2) \<Rightarrow> Some (tb'', es @ es2, err2)))"

definition collect_update ::
  "'b codec \<Rightarrow> string \<Rightarrow> (string \<Rightarrow> string \<Rightarrow> bool) \<Rightarrow> string list \<Rightarrow> int option \<Rightarrow> (string \<times> string) list \<Rightarrow>
     ('b, 'h) totalording \<times> bmulticast \<Rightarrow> (('b, 'h) totalording \<times> bmulticast, 'b effect) call" where
  "collect_update cd self ok order countI mids tb =
     recount_loop cd self ok order (case countI of Some n \<Rightarrow> n | None \<Rightarrow> - 1) mids tb"

section \<open>Announced agreements and delivery\<close>

text \<open>
  The loop that delivers from the head of the hold queue. \<open>alive\<close> is
  \<open>bmulticast.IsNodeAlived\<close>, \<open>now\<close> the clock, \<open>exec\<close> runs the handler that the router finds
  on the state \<open>'p\<close> of the layer above; its error is only logged. An item of a process
  that is gone and whose agreement has not come is dropped when the first sight of it at
  the head is more than \<open>NodeCrashTimeout\<close> ago; the loop ends after that.
\<close>

function deliver_loop ::
  "'b codec \<Rightarrow> ('h \<Rightarrow> 'b TOMsg \<Rightarrow> 'p \<Rightarrow> ('p, 'b effect) call) \<Rightarrow> (string \<Rightarrow> bool) \<Rightarrow> int \<Rightarrow>
     ('b, 'h) totalording \<Rightarrow> 'p \<Rightarrow> (('b, 'h) totalording \<times> 'p, 'b effect) call" where
  "deliver_loop cd exec alive now t p =
     (case pq_Peek (holdQueue t) of
        None \<Rightarrow> Some ((t, p), [], None)
      | Some a \<Rightarrow>
          (let item = item_at (holdQueue t) a in
           if \<not> agreed item then
             if \<not> alive (processID item) then
               (case crashNodeTimeout t (processID item) of
                  None \<Rightarrow>
                    Some ((t\<lparr>crashNodeTimeout := (crashNodeTimeout t)(processID item \<mapsto> now)\<rparr>, p), [], None)
                | Some crashTime \<Rightarrow>
                    if now - crashTime > NodeCrashTimeout then
                      (case hold_pop (holdQueue t) of
                         None \<Rightarrow> None
                       | Some (h, _) \<Rightarrow>
                           Some ((t\<lparr>holdQueueMap := (holdQueueMap t)(msgID item := None), holdQueue := h\<rparr>, p), [], None))
                    else Some ((t, p), [], None))
             else Some ((t, p), [], None)
           else
             (case hold_pop (holdQueue t) of
                None \<Rightarrow> None
              | Some (h, _) \<Rightarrow>
                  (let t1 = t\<lparr>holdQueueMap := (holdQueueMap t)(msgID item := None), holdQueue := h\<rparr>;
                       d = TODeliver (proposalSeqNum item) (processID item) (msgID item)
                   in case dec_TOMsg cd (body item) of
                        Inl e \<Rightarrow> Some ((t1, p), [d], Some (Wrap e ''announce-agreement-seq failed''))
                      | Inr tomsg \<Rightarrow>
                          (case Run exec (t_router t1) (t_Path tomsg) tomsg p of
                             None \<Rightarrow> None
                           | Some (p1, es, err) \<Rightarrow>
                               (case deliver_loop cd exec alive now t1 p1 of
                                  None \<Rightarrow> None
                                | Some (tp, es2, err2) \<Rightarrow> Some (tp, d # es @ es2, err2)))))))"
  by pat_completeness auto
termination
  by (relation "measure (\<lambda>(cd, exec, alive, now, t, p). length (pq (holdQueue t)))")
     (auto dest: hold_pop_shorter)

declare deliver_loop.simps [simp del]

definition handle_announce ::
  "'b codec \<Rightarrow> ('h \<Rightarrow> 'b TOMsg \<Rightarrow> 'p \<Rightarrow> ('p, 'b effect) call) \<Rightarrow> (string \<Rightarrow> bool) \<Rightarrow> int \<Rightarrow> 'b RMsg \<Rightarrow>
     ('b, 'h) totalording \<times> 'p \<Rightarrow> (('b, 'h) totalording \<times> 'p, 'b effect) call" where
  "handle_announce cd exec alive now msg = (\<lambda>(t, p).
     (case dec_Announce cd (r_Body msg) of
        Inl e \<Rightarrow> Some ((t, p), [], Some (Wrap e ''announce-agreement-seq failed''))
      | Inr ann \<Rightarrow>
          (let t1 = t\<lparr>maxAgreementSeqNumOfGroup := MaxUint64 (maxAgreementSeqNumOfGroup t) (n_AgreementSeq ann)\<rparr>
           in case holdQueueMap t1 (n_MsgID ann) of
                None \<Rightarrow> Some ((t1, p), [], Some (Errorf ''announce-agreement-seq failed''))
              | Some a \<Rightarrow>
                  deliver_loop cd exec alive now
                    (t1\<lparr>holdQueue := pq_Update a (n_ProcessID ann) (n_AgreementSeq ann) (holdQueue t1)\<rparr>) p)))"

end
