(* ===== verification/Group.thy ===== *)
theory Group
  imports Total_Ording
begin

text \<open>
  A node of the group (\<open>lib/mp1/multicast/group.go\<close>, \<open>group_builder.go\<close>): the three
  multicast layers over one state, the routers that connect them, and what the node does
  with a line that arrives on a connection (\<open>server.go\<close>), from the frame of the basic
  layer through reliable delivery to the handlers of the total-order layer.
\<close>

section \<open>The node and its construction\<close>

record Node =
  ID :: string
  Addr :: string

record ('b, 'h, 'p) node =
  SelfNodeID :: string
  SelfNodeAddr :: string
  members :: "Node list"
  bmulticast :: bmulticast
  rmulticast :: rmulticast
  totalOrder :: "('b, 'h) totalording"
  processor :: 'p   \<comment> \<open>the state of the layer above, which its handlers share\<close>

record GroupBuilder =
  gb_SelfNodeID :: string
  gb_SelfNodeAddr :: string
  gb_Memebers :: "Node list"

definition NewGroupBuilder :: GroupBuilder where
  "NewGroupBuilder = \<lparr>gb_SelfNodeID = '''', gb_SelfNodeAddr = '''', gb_Memebers = []\<rparr>"

definition WithSelfNodeID :: "string \<Rightarrow> GroupBuilder \<Rightarrow> GroupBuilder" where
  "WithSelfNodeID i g = g\<lparr>gb_SelfNodeID := i\<rparr>"

definition WithSelfNodeAddr :: "string \<Rightarrow> GroupBuilder \<Rightarrow> GroupBuilder" where
  "WithSelfNodeAddr a g = g\<lparr>gb_SelfNodeAddr := a\<rparr>"

definition gb_AddMember :: "string \<Rightarrow> string \<Rightarrow> GroupBuilder \<Rightarrow> GroupBuilder" where
  "gb_AddMember i a g = g\<lparr>gb_Memebers := gb_Memebers g @ [\<lparr>ID = i, Addr = a\<rparr>]\<rparr>"

definition WithMembers :: "Node list \<Rightarrow> GroupBuilder \<Rightarrow> GroupBuilder" where
  "WithMembers ms g = g\<lparr>gb_Memebers := ms\<rparr>"

definition Build :: "'p \<Rightarrow> GroupBuilder \<Rightarrow> ('b, 'h, 'p) node" where
  "Build p g =
     \<lparr>SelfNodeID = gb_SelfNodeID g, SelfNodeAddr = gb_SelfNodeAddr g, members = gb_Memebers g,
      bmulticast = NewBMulticast, rmulticast = NewRMulticast, totalOrder = NewTotalOrder, processor = p\<rparr>"

text \<open>
  What \<open>Start\<close> binds, layer by layer: \<open>bindTODeliver\<close> on the routers of the two layers
  below, \<open>bindRDeliver\<close> and \<open>bindBDeliver\<close> on the router of the basic layer.
\<close>

definition bindTODeliver :: "('b, 'h, 'p) node \<Rightarrow> ('b, 'h, 'p) node" where
  "bindTODeliver nd =
     nd\<lparr>rmulticast := R_Bind AnnounceAgreementSeqPath AnnounceAgreementSeq
                        (R_Bind AskProposalSeqPath AskProposalSeq (rmulticast nd)),
        bmulticast := B_Bind WaitProposalSeqPath WaitProposalSeq (bmulticast nd)\<rparr>"

definition RMulticast_Start :: "('b, 'h, 'p) node \<Rightarrow> ('b, 'h, 'p) node" where
  "RMulticast_Start nd =
     (let nd1 = nd\<lparr>bmulticast := bindRDeliver (bmulticast nd)\<rparr>
      in nd1\<lparr>bmulticast := bindBDeliver (bmulticast nd1)\<rparr>)"

definition TotalOrding_Start :: "('b, 'h, 'p) node \<Rightarrow> ('b, 'h, 'p) node" where
  "TotalOrding_Start nd = RMulticast_Start (bindTODeliver nd)"

definition Start_binds :: "('b, 'h, 'p) node \<Rightarrow> ('b, 'h, 'p) node" where
  "Start_binds nd = TotalOrding_Start nd"

lemmas Start_simps = Start_binds_def TotalOrding_Start_def RMulticast_Start_def

section \<open>Handlers over the node\<close>

text \<open>
  The environment of one handler run: which writes succeed, an order of iteration over the
  senders, the uuids the run draws and the clock.
\<close>

record env =
  env_ok :: "string \<Rightarrow> string \<Rightarrow> bool"
  env_order :: "string list"
  env_uuid1 :: string
  env_uuid2 :: string
  env_now :: int

text \<open>The closures bound on the router of the reliable layer, on the node.\<close>

definition exec_r ::
  "'b codec \<Rightarrow> ('h \<Rightarrow> 'b TOMsg \<Rightarrow> 'p \<Rightarrow> ('p, 'b effect) call) \<Rightarrow> env \<Rightarrow> r_handler \<Rightarrow> 'b RMsg \<Rightarrow>
     ('b, 'h, 'p) node \<Rightarrow> (('b, 'h, 'p) node, 'b effect) call" where
  "exec_r cd exec e f msg nd =
     (case f of
        AskProposalSeq \<Rightarrow>
          (case handle_ask cd (SelfNodeID nd) (env_ok e) msg (totalOrder nd, bmulticast nd) of
             None \<Rightarrow> None
           | Some ((t, b), es, err) \<Rightarrow> Some (nd\<lparr>totalOrder := t, bmulticast := b\<rparr>, es, err))
      | AnnounceAgreementSeq \<Rightarrow>
          (case handle_announce cd exec (\<lambda>pid. IsNodeAlived pid (bmulticast nd)) (env_now e) msg
                  (totalOrder nd, processor nd) of
             None \<Rightarrow> None
           | Some ((t, p), es, err) \<Rightarrow> Some (nd\<lparr>totalOrder := t, processor := p\<rparr>, es, err)))"

text \<open>
  Reliable delivery: a message seen for the first time is sent on to all members, unless
  this node sent it, and then handed to the layer above.
\<close>

definition r_deliver ::
  "'b codec \<Rightarrow> ('h \<Rightarrow> 'b TOMsg \<Rightarrow> 'p \<Rightarrow> ('p, 'b effect) call) \<Rightarrow> env \<Rightarrow> 'b BMsg \<Rightarrow>
     ('b, 'h, 'p) node \<Rightarrow> (('b, 'h, 'p) node, 'b effect) call" where
  "r_deliver cd exec e msg nd =
     (case dec_RMsg cd (b_Body msg) of
        Inl er \<Rightarrow> Some (nd, [], Some (Wrap er ''r-deliver failed''))
      | Inr rmsg \<Rightarrow>
          (let (r, new) = AddMsgIfNotExist (r_ID rmsg) (rmulticast nd);
               nd1 = nd\<lparr>rmulticast := r\<rparr>
           in if new then
                if b_SrcID msg \<noteq> SelfNodeID nd1 then
                  (let rmsgCopy = \<lparr>r_ID = r_ID rmsg, r_Path = r_Path rmsg, r_Body = r_Body rmsg\<rparr>
                   in case B_Multicast cd (SelfNodeID nd1) (env_ok e) (env_order e) RMulticastPath
                             (enc_RMsg cd rmsgCopy) (bmulticast nd1) of
                        None \<Rightarrow> None
                      | Some (b, es, Some er) \<Rightarrow>
                          Some (nd1\<lparr>bmulticast := b\<rparr>, es, Some (Wrap er ''r-deliver failed''))
                      | Some (b, es, None) \<Rightarrow>
                          (case Run (exec_r cd exec e) (r_router r) (r_Path rmsg) rmsg (nd1\<lparr>bmulticast := b\<rparr>) of
                             None \<Rightarrow> None
                           | Some (nd2, es2, err) \<Rightarrow> Some (nd2, es @ es2, err)))
                else Run (exec_r cd exec e) (r_router r) (r_Path rmsg) rmsg nd1
              else Some (nd1, [], None)))"

definition reply_deliver ::
  "'b codec \<Rightarrow> 'b BMsg \<Rightarrow> ('b, 'h, 'p) node \<Rightarrow> (('b, 'h, 'p) node, 'b effect) call" where
  "reply_deliver cd msg nd =
     (case handle_reply cd msg (totalOrder nd) of
        None \<Rightarrow> None
      | Some (t, es, err) \<Rightarrow> Some (nd\<lparr>totalOrder := t\<rparr>, es, err))"

text \<open>
  Running the router of the basic layer. The closure of \<open>bindBDeliver\<close> runs the router
  again on the path inside the message, so a message addressed to \<open>BMulticastPath\<close> itself
  makes it recurse for ever: the function is partial, and undefined there.
\<close>

partial_function (option) b_run ::
  "'b codec \<Rightarrow> ('h \<Rightarrow> 'b TOMsg \<Rightarrow> 'p \<Rightarrow> ('p, 'b effect) call) \<Rightarrow> env \<Rightarrow> string \<Rightarrow> 'b BMsg \<Rightarrow>
     ('b, 'h, 'p) node \<Rightarrow> (('b, 'h, 'p) node, 'b effect) call" where
  "b_run cd exec e path msg nd =
     (case b_router (bmulticast nd) path of
        None \<Rightarrow> Some (nd, [], Some (NoRoute path))
      | Some f \<Rightarrow>
          (case f of
             BDeliver \<Rightarrow> b_run cd exec e (b_Path msg) msg nd
           | RDeliver \<Rightarrow> r_deliver cd exec e msg nd
           | WaitProposalSeq \<Rightarrow> reply_deliver cd msg nd))"

text \<open>
  A line on a connection (\<open>handleConn\<close>). A decoding error is logged, and the message, as
  far as it was filled in, is run all the same.
\<close>

definition handle_line ::
  "'b codec \<Rightarrow> ('h \<Rightarrow> 'b TOMsg \<Rightarrow> 'p \<Rightarrow> ('p, 'b effect) call) \<Rightarrow> env \<Rightarrow> 'b \<Rightarrow>
     ('b, 'h, 'p) node \<Rightarrow> (('b, 'h, 'p) node, 'b effect) call" where
  "handle_line cd exec e line nd =
     (let (msg, err) = dec_BMsg cd line in b_run cd exec e BMulticastPath msg nd)"

text \<open>The other two sources of activity of a node: its own multicasts, and its vote collector.\<close>

definition node_multicast ::
  "'b codec \<Rightarrow> env \<Rightarrow> string \<Rightarrow> go_error + 'b \<Rightarrow> ('b, 'h, 'p) node \<Rightarrow> (('b, 'h, 'p) node, 'b effect) call" where
  "node_multicast cd e path data nd =
     (case TO_Multicast cd (SelfNodeID nd) (env_ok e) (env_order e) (env_uuid1 e) (env_uuid2 e) path data
             (bmulticast nd) of
        None \<Rightarrow> None
      | Some (b, es, err) \<Rightarrow> Some (nd\<lparr>bmulticast := b\<rparr>, es, err))"

definition node_collect ::
  "'b codec \<Rightarrow> env \<Rightarrow> ('b, 'h, 'p) node \<Rightarrow> (('b, 'h, 'p) node, 'b effect) call" where
  "node_collect cd e nd =
     (case collect_vote cd (SelfNodeID nd) (env_ok e) (env_order e) (env_uuid1 e)
             (totalOrder nd, bmulticast nd) of
        None \<Rightarrow> None
      | Some ((t, b), es, err) \<Rightarrow> Some (nd\<lparr>totalOrder := t, bmulticast := b\<rparr>, es, err))"

definition node_member_update ::
  "'b codec \<Rightarrow> env \<Rightarrow> int option \<Rightarrow> (string \<times> string) list \<Rightarrow> ('b, 'h, 'p) node \<Rightarrow>
     (('b, 'h, 'p) node, 'b effect) call" where
  "node_member_update cd e membersCountI mids nd =
     (case collect_update cd (SelfNodeID nd) (env_ok e) (env_order e) membersCountI mids
             (totalOrder nd, bmulticast nd) of
        None \<Rightarrow> None
      | Some ((t, b), es, err) \<Rightarrow> Some (nd\<lparr>totalOrder := t, bmulticast := b\<rparr>, es, err))"

section \<open>Dispatch on a started node\<close>

definition b_routes :: "bmulticast \<Rightarrow> bool" where
  "b_routes b \<longleftrightarrow> b_router b =
     [BMulticastPath \<mapsto> BDeliver, RMulticastPath \<mapsto> RDeliver, WaitProposalSeqPath \<mapsto> WaitProposalSeq]"

definition r_routes :: "rmulticast \<Rightarrow> bool" where
  "r_routes r \<longleftrightarrow> r_router r =
     [AskProposalSeqPath \<mapsto> AskProposalSeq, AnnounceAgreementSeqPath \<mapsto> AnnounceAgreementSeq]"

lemma Start_binds_routes:
  "b_routes (bmulticast (Start_binds (Build p g)))" "r_routes (rmulticast (Start_binds (Build p g)))"
  by (auto simp: b_routes_def r_routes_def Start_simps bindTODeliver_def bindRDeliver_def
      bindBDeliver_def Build_def B_Bind_def R_Bind_def Bind_def NewBMulticast_def NewRMulticast_def
      New_router_def Let_def fun_eq_iff)

lemma b_run_path:
  assumes "b_routes (bmulticast nd)" "b_Path msg \<noteq> BMulticastPath"
  shows "b_run cd exec e BMulticastPath msg nd =
     (if b_Path msg = RMulticastPath then r_deliver cd exec e msg nd
      else if b_Path msg = WaitProposalSeqPath then reply_deliver cd msg nd
      else Some (nd, [], Some (NoRoute (b_Path msg))))"
  using assms by (simp add: b_routes_def b_run.simps [of cd exec e BMulticastPath]
      b_run.simps [of cd exec e "b_Path msg"])

text \<open>A message whose path is that of the basic layer is never answered.\<close>

lemma b_run_diverges:
  fixes nd :: "('b, 'h, 'p) node"
  assumes "b_routes (bmulticast nd)" "b_Path msg = BMulticastPath"
  shows "b_run cd exec e BMulticastPath msg nd = None"
proof (rule ccontr)
  let ?P = "\<lambda>cd exec e path msg nd (r :: ('b, 'h, 'p) node \<times> 'b effect list \<times> go_error option).
    path = BMulticastPath \<longrightarrow> b_Path msg = BMulticastPath \<longrightarrow> \<not> b_routes (bmulticast nd)"
  assume "b_run cd exec e BMulticastPath msg nd \<noteq> None"
  then obtain r where ret: "b_run cd exec e BMulticastPath msg nd = Some r" by blast
  have "?P cd exec e BMulticastPath msg nd r"
    by (rule b_run.raw_induct [where P = ?P, OF _ ret])
       (auto simp: b_routes_def split: option.splits b_handler.splits)
  then show False using assms by simp
qed

end
