(* ===== verification/Isis.thy ===== *)
theory Isis
  imports Prelude
begin

text \<open>
  The ISIS total-order algorithm in the abstract: what its messages achieve, without the
  messages. \<open>M\<close> is the fixed set of members. A member proposes a number for a message,
  larger than its earlier proposals and than the agreements it knows; once all members
  have proposed, the largest proposal (ties broken by the proposer's name) is the
  agreement; members learn of it one by one, and deliver a message they know the agreement
  of when no held message can still come before it.
\<close>

record isis =
  proposed :: "string \<Rightarrow> string \<Rightarrow> nat option"            \<comment> \<open>member, message: its proposal\<close>
  fin :: "string \<Rightarrow> (nat \<times> string) option"           \<comment> \<open>message: its agreement\<close>
  known :: "string \<Rightarrow> string set"                     \<comment> \<open>member: messages it knows the agreement of\<close>
  dlv :: "string \<Rightarrow> string list"                      \<comment> \<open>member: messages delivered, in order\<close>

definition isis_init :: isis where
  "isis_init = \<lparr>proposed = (\<lambda>_. Map.empty), fin = Map.empty, known = (\<lambda>_. {}), dlv = (\<lambda>_. [])\<rparr>"

definition agr :: "isis \<Rightarrow> string \<Rightarrow> nat \<times> string" where
  "agr S m = the (fin S m)"

text \<open>
  Nothing that member \<open>p\<close> still holds comes before \<open>m\<close>: the agreements it knows are not
  smaller, and the proposals of the others are larger.
\<close>

definition first_held :: "isis \<Rightarrow> string \<Rightarrow> string \<Rightarrow> bool" where
  "first_held S p m \<longleftrightarrow>
     (\<forall>m' s. proposed S p m' = Some s \<longrightarrow> m' \<notin> set (dlv S p) \<longrightarrow>
        (if m' \<in> known S p then agr S m \<le> agr S m' else fst (agr S m) < s))"

inductive isis_step :: "string set \<Rightarrow> isis \<Rightarrow> isis \<Rightarrow> bool" for M where
  propose: "p \<in> M \<Longrightarrow> proposed S p m = None \<Longrightarrow>
     (\<And>m' s'. proposed S p m' = Some s' \<Longrightarrow> s' < s) \<Longrightarrow>
     (\<And>m'. m' \<in> known S p \<Longrightarrow> fst (agr S m') < s) \<Longrightarrow>
     isis_step M S (S\<lparr>proposed := (proposed S)(p := (proposed S p)(m \<mapsto> s))\<rparr>)"
| agree: "fin S m = None \<Longrightarrow> q \<in> M \<Longrightarrow> proposed S q m = Some s \<Longrightarrow>
     (\<And>p. p \<in> M \<Longrightarrow> \<exists>s'. proposed S p m = Some s' \<and> (s', p) \<le> (s, q)) \<Longrightarrow>
     isis_step M S (S\<lparr>fin := (fin S)(m \<mapsto> (s, q))\<rparr>)"
| learn: "p \<in> M \<Longrightarrow> fin S m \<noteq> None \<Longrightarrow>
     isis_step M S (S\<lparr>known := (known S)(p := insert m (known S p))\<rparr>)"
| deliver: "p \<in> M \<Longrightarrow> m \<in> known S p \<Longrightarrow> m \<notin> set (dlv S p) \<Longrightarrow> first_held S p m \<Longrightarrow>
     isis_step M S (S\<lparr>dlv := (dlv S)(p := dlv S p @ [m])\<rparr>)"

inductive_cases isis_stepE: "isis_step M S S'"

inductive isis_reach :: "string set \<Rightarrow> isis \<Rightarrow> bool" for M where
  init: "isis_reach M isis_init"
| step: "isis_reach M S \<Longrightarrow> isis_step M S S' \<Longrightarrow> isis_reach M S'"

section \<open>Invariants\<close>

definition agreement_inv :: "string set \<Rightarrow> isis \<Rightarrow> bool" where
  "agreement_inv M S \<longleftrightarrow>
     (\<forall>m s q. fin S m = Some (s, q) \<longrightarrow>
        q \<in> M \<and> proposed S q m = Some s \<and> (\<forall>p\<in>M. \<exists>s'. proposed S p m = Some s' \<and> (s', p) \<le> (s, q)))
   \<and> (\<forall>p m m' s. proposed S p m = Some s \<longrightarrow> proposed S p m' = Some s \<longrightarrow> m = m')
   \<and> (\<forall>p m. m \<in> known S p \<longrightarrow> fin S m \<noteq> None)"

definition order_inv :: "string set \<Rightarrow> isis \<Rightarrow> bool" where
  "order_inv M S \<longleftrightarrow>
     (\<forall>p\<in>M. set (dlv S p) \<subseteq> known S p
        \<and> sorted_wrt (\<lambda>a b. agr S a < agr S b) (dlv S p)
        \<and> (\<forall>m\<in>set (dlv S p). \<forall>m' s. m' \<notin> set (dlv S p) \<longrightarrow> proposed S p m' = Some s \<longrightarrow>
             fst (agr S m) < s \<or> m' \<in> known S p \<and> agr S m < agr S m'))"

lemma order_invD:
  assumes "order_inv M S" "p \<in> M"
  shows "set (dlv S p) \<subseteq> known S p" "sorted_wrt (\<lambda>a b. agr S a < agr S b) (dlv S p)"
    and "m \<in> set (dlv S p) \<Longrightarrow> m' \<notin> set (dlv S p) \<Longrightarrow> proposed S p m' = Some s \<Longrightarrow>
      fst (agr S m) < s \<or> m' \<in> known S p \<and> agr S m < agr S m'"
  using assms unfolding order_inv_def by blast+

lemma order_invI:
  assumes "\<And>p. p \<in> M \<Longrightarrow> set (dlv S p) \<subseteq> known S p"
    and "\<And>p. p \<in> M \<Longrightarrow> sorted_wrt (\<lambda>a b. agr S a < agr S b) (dlv S p)"
    and "\<And>p m m' s. p \<in> M \<Longrightarrow> m \<in> set (dlv S p) \<Longrightarrow> m' \<notin> set (dlv S p) \<Longrightarrow> proposed S p m' = Some s \<Longrightarrow>
      fst (agr S m) < s \<or> m' \<in> known S p \<and> agr S m < agr S m'"
  shows "order_inv M S"
  unfolding order_inv_def by (intro ballI conjI allI impI) (fact assms)+

lemma agreement_invD:
  assumes "agreement_inv M S"
  shows "fin S m = Some (s, q) \<Longrightarrow> q \<in> M \<and> proposed S q m = Some s"
    and "fin S m = Some (s, q) \<Longrightarrow> p \<in> M \<Longrightarrow> \<exists>s'. proposed S p m = Some s' \<and> (s', p) \<le> (s, q)"
    and "proposed S p m = Some s \<Longrightarrow> proposed S p m' = Some s \<Longrightarrow> m = m'"
    and "m \<in> known S p \<Longrightarrow> \<exists>s q. fin S m = Some (s, q)"
  subgoal using assms unfolding agreement_inv_def by blast
  subgoal using assms unfolding agreement_inv_def by blast
  subgoal using assms unfolding agreement_inv_def by blast
  subgoal using assms unfolding agreement_inv_def by (metis option.exhaust surj_pair)
  done

lemma agreement_inv_step:
  assumes "isis_step M S S'" "agreement_inv M S"
  shows "agreement_inv M S'"
  using assms(1)
proof cases
  case (propose p m s)
  have keep: "proposed S' q n = Some r" if "proposed S q n = Some r" for q n r
    using that propose by auto
  have inj: "n = n'" if "proposed S' q n = Some r" "proposed S' q n' = Some r" for q n n' r
    using that propose agreement_invD(3) [OF assms(2)] by (auto split: if_splits)
  have same: "fin S' = fin S" "known S' = known S" using propose by auto
  show ?thesis
    unfolding agreement_inv_def same
  proof (intro conjI allI impI ballI)
    fix n r q assume f: "fin S n = Some (r, q)"
    show "q \<in> M" "proposed S' q n = Some r"
      using agreement_invD(1) [OF assms(2) f] keep by auto
    fix q' assume "q' \<in> M"
    show "\<exists>s'. proposed S' q' n = Some s' \<and> (s', q') \<le> (r, q)"
      using agreement_invD(2) [OF assms(2) f \<open>q' \<in> M\<close>] keep by blast
  next
    fix q n n' r assume "proposed S' q n = Some r" "proposed S' q n' = Some r"
    then show "n = n'" by (rule inj)
  next
    fix q n assume "n \<in> known S q"
    then show "fin S n \<noteq> None" using agreement_invD(4) [OF assms(2)] by blast
  qed
next
  case (agree m q s)
  then show ?thesis using assms(2) unfolding agreement_inv_def by auto
next
  case (learn p m)
  then show ?thesis using assms(2) unfolding agreement_inv_def by auto
next
  case (deliver p m)
  then show ?thesis using assms(2) unfolding agreement_inv_def by auto
qed

text \<open>Agreements are different for different messages, and at least every proposal.\<close>

lemma agr_inj:
  assumes "agreement_inv M S" "fin S m \<noteq> None" "fin S m' \<noteq> None" "agr S m = agr S m'"
  shows "m = m'"
proof -
  obtain s q where f: "fin S m = Some (s, q)" using assms(2) by auto
  then have "fin S m' = Some (s, q)" using assms(3,4) by (auto simp: agr_def)
  with f agreement_invD(1,3) [OF assms(1)] show ?thesis by blast
qed

lemma agr_ge_prop:
  assumes "agreement_inv M S" "fin S m \<noteq> None" "p \<in> M"
  shows "\<exists>s. proposed S p m = Some s \<and> s \<le> fst (agr S m)"
proof -
  obtain s q where f: "fin S m = Some (s, q)" using assms(2) by auto
  from agreement_invD(2) [OF assms(1) this assms(3)] f show ?thesis
    by (auto simp: agr_def less_eq_prod_def)
qed

lemma fst_less_agr: "fst x < s \<Longrightarrow> s \<le> fst y \<Longrightarrow> (x :: nat \<times> string) < y"
  by (simp add: less_prod_def)

lemma order_inv_step:
  assumes "isis_step M S S'" "agreement_inv M S" "order_inv M S"
  shows "order_inv M S'"
  using assms(1)
proof cases
  case (propose p m s)
  have "m' \<in> set (dlv S p) \<Longrightarrow> fst (agr S m') < s" for m'
    using propose assms(3) unfolding order_inv_def by blast
  moreover have "agr S' = agr S" using propose by (simp add: agr_def fun_eq_iff)
  ultimately show ?thesis
    using assms(3) propose unfolding order_inv_def by auto
next
  case (agree m q s)
  have "agr S' x = agr S x" if "x \<in> known S p" for x p
    using agreement_invD(4) [OF assms(2) that] agree by (auto simp: agr_def)
  note same = this
  have "sorted_wrt (\<lambda>a b. agr S' a < agr S' b) (dlv S p)" if "p \<in> M" for p
  proof -
    have "sorted_wrt (\<lambda>a b. agr S a < agr S b) (dlv S p)" "set (dlv S p) \<subseteq> known S p"
      using assms(3) that by (auto simp: order_inv_def)
    then show ?thesis
      by (elim sorted_wrt_mono_rel [rotated]) (auto simp: same [of _ p] subset_iff)
  qed
  moreover have "set (dlv S' p) \<subseteq> known S' p" if "p \<in> M" for p
    using assms(3) that agree by (simp add: order_inv_def)
  moreover have "fst (agr S' n) < r \<or> n' \<in> known S' p \<and> agr S' n < agr S' n'"
    if p: "p \<in> M" and n: "n \<in> set (dlv S' p)" "n' \<notin> set (dlv S' p)" "proposed S' p n' = Some r" for p n n' r
  proof -
    have ps: "proposed S' = proposed S" "dlv S' = dlv S" "known S' = known S" using agree by simp_all
    have "n \<in> known S p" using assms(3) p n unfolding order_inv_def ps by blast
    moreover have "fst (agr S n) < r \<or> n' \<in> known S p \<and> agr S n < agr S n'"
      using assms(3) p n unfolding order_inv_def ps by blast
    ultimately show ?thesis using same [of _ p] ps by auto
  qed
  ultimately show ?thesis
    using agree unfolding order_inv_def by simp
next
  case (learn p m)
  have "agr S' = agr S" using learn by (simp add: agr_def fun_eq_iff)
  moreover have "proposed S' = proposed S" "dlv S' = dlv S" "n \<in> known S q \<Longrightarrow> n \<in> known S' q" for n q
    using learn by auto
  ultimately show ?thesis
    using order_invD [OF assms(3)] by (intro order_invI) (auto, blast+)
next
  case (deliver p m)
  have agr: "agr S' = agr S" using deliver by (simp add: agr_def fun_eq_iff)
  have M: "p \<in> M" and m: "fin S m \<noteq> None" using deliver agreement_invD(4) [OF assms(2)] by auto
  obtain s where s: "proposed S p m = Some s" "s \<le> fst (agr S m)"
    using agr_ge_prop [OF assms(2) m M] by blast
  have below: "agr S a < agr S m" if "a \<in> set (dlv S p)" for a
    using assms(3) M that deliver s fst_less_agr unfolding order_inv_def by blast
  have above: "fst (agr S m) < r \<or> m' \<in> known S p \<and> agr S m < agr S m'"
    if "m' \<notin> set (dlv S p)" "m' \<noteq> m" "proposed S p m' = Some r" for m' r
  proof (cases "m' \<in> known S p")
    case True
    then have "agr S m \<le> agr S m'" using deliver that by (auto simp: first_held_def)
    moreover have "agr S m \<noteq> agr S m'"
      using agr_inj [OF assms(2) m] that agreement_invD(4) [OF assms(2) True] by auto
    ultimately show ?thesis using True by (simp add: less_le)
  next
    case False
    then show ?thesis using deliver that by (auto simp: first_held_def)
  qed
  show ?thesis
    using assms(3) deliver below above
    unfolding order_inv_def agr by (auto simp: sorted_wrt_append)
qed

lemma isis_reach_inv: "isis_reach M S \<Longrightarrow> agreement_inv M S \<and> order_inv M S"
proof (induction rule: isis_reach.induct)
  case init
  then show ?case by (simp add: agreement_inv_def order_inv_def isis_init_def)
next
  case (step S S')
  then show ?case using agreement_inv_step order_inv_step by blast
qed

section \<open>Total order\<close>

text \<open>
  A member has delivered every message whose agreement is below that of one it delivered.
\<close>

lemma delivered_below:
  assumes "isis_reach M S" "p \<in> M" "m \<in> set (dlv S p)" "fin S m' \<noteq> None" "agr S m' < agr S m"
  shows "m' \<in> set (dlv S p)"
proof (rule ccontr)
  assume no: "m' \<notin> set (dlv S p)"
  have inv: "agreement_inv M S" "order_inv M S" using isis_reach_inv [OF assms(1)] by auto
  obtain s where s: "proposed S p m' = Some s" "s \<le> fst (agr S m')"
    using agr_ge_prop [OF inv(1) assms(4,2)] by blast
  from inv(2) assms(2,3) no s(1) have "fst (agr S m) < s \<or> agr S m < agr S m'"
    unfolding order_inv_def by blast
  with s(2) assms(5) show False using fst_less_agr by (metis order_less_asym)
qed

lemma isis_total_order:
  assumes "isis_reach M S" "p \<in> M" "q \<in> M"
  shows "prefix (dlv S p) (dlv S q) \<or> prefix (dlv S q) (dlv S p)"
proof -
  have inv: "agreement_inv M S" "order_inv M S" using isis_reach_inv [OF assms(1)] by auto
  have fin: "fin S m \<noteq> None" if "m \<in> set (dlv S r)" "r \<in> M" for m r
    using that inv agreement_invD(4) unfolding order_inv_def by fast
  show ?thesis
  proof (rule sorted_closed_comparable [where key = "agr S"])
    show "sorted_wrt (\<lambda>a b. agr S a < agr S b) (dlv S p)" "sorted_wrt (\<lambda>a b. agr S a < agr S b) (dlv S q)"
      using inv(2) assms(2,3) by (auto simp: order_inv_def)
    show "b \<in> set (dlv S p)" if "a \<in> set (dlv S p)" "b \<in> set (dlv S q)" "agr S b < agr S a" for a b
      using delivered_below [OF assms(1,2) that(1) fin [OF that(2) assms(3)] that(3)] .
    show "b \<in> set (dlv S q)" if "a \<in> set (dlv S q)" "b \<in> set (dlv S p)" "agr S b < agr S a" for a b
      using delivered_below [OF assms(1,3) that(1) fin [OF that(2) assms(2)] that(3)] .
    show "inj_on (agr S) (set (dlv S p) \<union> set (dlv S q))"
      using agr_inj [OF inv(1)] fin assms(2,3) by (auto simp: inj_on_def)
  qed
qed

end
