(* ===== verification/Cluster.thy ===== *)
theory Cluster
  imports Group Isis
begin

text \<open>
  A group of started nodes joined by connections. Every connection is a first-in first-out
  list of lines; a step of the system is one handler run of one node: a multicast of the
  layer above, the receipt of one line, or one turn of the vote collector. Runs are
  failure free: every write succeeds. The uuids of a run were never drawn before.
\<close>

section \<open>The system\<close>

record ('b, 'h, 'p) system =
  nodes :: "string \<Rightarrow> ('b, 'h, 'p) node"
  chan :: "string \<Rightarrow> string \<Rightarrow> 'b list"      \<comment> \<open>from, to: lines in flight, oldest first\<close>
  used :: "string set"                       \<comment> \<open>uuids drawn so far\<close>
  log :: "string \<Rightarrow> 'b effect list"           \<comment> \<open>what each node did, oldest first\<close>

fun writes_to :: "string \<Rightarrow> 'b effect list \<Rightarrow> 'b list" where
  "writes_to d [] = []"
| "writes_to d (e # es) =
     (case e of Write d' x \<Rightarrow> (if d' = d then x # writes_to d es else writes_to d es)
      | _ \<Rightarrow> writes_to d es)"

text \<open>The messages a node delivered in total order, and what its handlers printed.\<close>

fun delivered :: "'b effect list \<Rightarrow> string list" where
  "delivered [] = []"
| "delivered (e # es) = (case e of TODeliver _ _ i \<Rightarrow> i # delivered es | _ \<Rightarrow> delivered es)"

fun printed :: "'b effect list \<Rightarrow> string list" where
  "printed [] = []"
| "printed (e # es) = (case e of Print x \<Rightarrow> x # printed es | _ \<Rightarrow> printed es)"

definition commit ::
  "string \<Rightarrow> string set \<Rightarrow> ('b, 'h, 'p) node \<Rightarrow> 'b effect list \<Rightarrow> ('b, 'h, 'p) system \<Rightarrow> ('b, 'h, 'p) system" where
  "commit p us nd es s =
     s\<lparr>nodes := (nodes s)(p := nd),
       chan := (chan s)(p := (\<lambda>d. chan s p d @ writes_to d es)),
       used := used s \<union> us,
       log := (log s)(p := log s p @ es)\<rparr>"

definition take_line :: "string \<Rightarrow> string \<Rightarrow> ('b, 'h, 'p) system \<Rightarrow> ('b, 'h, 'p) system" where
  "take_line q p s = s\<lparr>chan := (chan s)(q := (chan s q)(p := tl (chan s q p)))\<rparr>"

definition calm :: "string set \<Rightarrow> env \<Rightarrow> bool" where
  "calm M e \<longleftrightarrow> (\<forall>path d. env_ok e path d) \<and> distinct (env_order e) \<and> set (env_order e) = M"

text \<open>The text of a uuid has 36 characters.\<close>

definition fresh :: "(string \<Rightarrow> bool) \<Rightarrow> ('b, 'h, 'p) system \<Rightarrow> string \<Rightarrow> bool" where
  "fresh valid s u \<longleftrightarrow> length u = 36 \<and> valid u \<and> u \<notin> used s"

inductive sys_step ::
  "'b codec \<Rightarrow> (string \<Rightarrow> bool) \<Rightarrow> ('h \<Rightarrow> 'b TOMsg \<Rightarrow> 'p \<Rightarrow> ('p, 'b effect) call) \<Rightarrow> string set \<Rightarrow>
     ('b, 'h, 'p) system \<Rightarrow> ('b, 'h, 'p) system \<Rightarrow> bool"
  for cd valid exec M where
  multicast: "p \<in> M \<Longrightarrow> calm M e \<Longrightarrow> fresh valid s (env_uuid1 e) \<Longrightarrow> fresh valid s (env_uuid2 e) \<Longrightarrow>
     node_multicast cd e path data (nodes s p) = Some (nd, es, err) \<Longrightarrow>
     sys_step cd valid exec M s (commit p {env_uuid1 e, env_uuid2 e} nd es s)"
| receive: "p \<in> M \<Longrightarrow> q \<in> M \<Longrightarrow> calm M e \<Longrightarrow> chan s q p = line # rest \<Longrightarrow>
     handle_line cd exec e line (nodes s p) = Some (nd, es, err) \<Longrightarrow>
     sys_step cd valid exec M s (commit p {} nd es (take_line q p s))"
| collect: "p \<in> M \<Longrightarrow> calm M e \<Longrightarrow> fresh valid s (env_uuid1 e) \<Longrightarrow>
     node_collect cd e (nodes s p) = Some (nd, es, err) \<Longrightarrow>
     sys_step cd valid exec M s (commit p {env_uuid1 e} nd es s)"

inductive_cases sys_stepE: "sys_step cd valid exec M s s'"

text \<open>
  The initial system: every node was started and has a connection to each member, and the
  layer above has bound its handlers on the router \<open>tr\<close> of the total-order layer and is in
  state \<open>p0\<close>.
\<close>

definition connection :: "string \<Rightarrow> string \<Rightarrow> TCPClient" where
  "connection p d = \<lparr>c_srcID = p, c_dstID = d, c_addr = [], c_retryInterval = 5 * 1000000000\<rparr>"

definition started :: "string list \<Rightarrow> 'h router \<Rightarrow> 'p \<Rightarrow> string \<Rightarrow> ('b, 'h, 'p) node" where
  "started ms tr p0 p =
     (let nd = Start_binds (Build p0 (WithSelfNodeID p NewGroupBuilder))
      in nd\<lparr>bmulticast := fold (\<lambda>d. AddMember d (Some (connection p d))) ms (bmulticast nd),
            totalOrder := (totalOrder nd)\<lparr>t_router := tr\<rparr>\<rparr>)"

definition initial :: "string list \<Rightarrow> 'h router \<Rightarrow> 'p \<Rightarrow> ('b, 'h, 'p) system" where
  "initial ms tr p0 = \<lparr>nodes = started ms tr p0, chan = (\<lambda>_ _. []), used = {}, log = (\<lambda>_. [])\<rparr>"

text \<open>The states after \<open>n\<close> steps.\<close>

inductive run ::
  "'b codec \<Rightarrow> (string \<Rightarrow> bool) \<Rightarrow> ('h \<Rightarrow> 'b TOMsg \<Rightarrow> 'p \<Rightarrow> ('p, 'b effect) call) \<Rightarrow> string list \<Rightarrow>
     'h router \<Rightarrow> 'p \<Rightarrow> nat \<Rightarrow> ('b, 'h, 'p) system \<Rightarrow> bool"
  for cd valid exec ms tr p0 where
  start: "run cd valid exec ms tr p0 0 (initial ms tr p0)"
| next_step: "run cd valid exec ms tr p0 n s \<Longrightarrow> sys_step cd valid exec (set ms) s s' \<Longrightarrow>
     run cd valid exec ms tr p0 (Suc n) s'"

section \<open>Effects\<close>

lemma writes_to_append [simp]: "writes_to d (es @ es') = writes_to d es @ writes_to d es'"
  by (induction es) (auto split: effect.split)

lemma delivered_append [simp]: "delivered (es @ es') = delivered es @ delivered es'"
  by (induction es) (auto split: effect.split)

lemma printed_append [simp]: "printed (es @ es') = printed es @ printed es'"
  by (induction es) (auto split: effect.split)

lemma writes_to_all:
  "distinct ds \<Longrightarrow> writes_to d (map (\<lambda>d. Write d x) ds) = (if d \<in> set ds then [x] else [])"
  by (induction ds) auto

lemma delivered_writes [simp]: "delivered (map (\<lambda>d. Write d x) ds) = []"
  by (induction ds) auto

lemma printed_writes [simp]: "printed (map (\<lambda>d. Write d x) ds) = []"
  by (induction ds) auto

text \<open>The layer above only prints.\<close>

definition only_prints :: "('h \<Rightarrow> 'b TOMsg \<Rightarrow> 'p \<Rightarrow> ('p, 'b effect) call) \<Rightarrow> bool" where
  "only_prints exec \<longleftrightarrow>
     (\<forall>f msg p p' es err. exec f msg p = Some (p', es, err) \<longrightarrow> (\<forall>e\<in>set es. \<exists>x. e = Print x))"

lemma prints_effects:
  assumes "\<forall>e\<in>set es. \<exists>x. e = Print x"
  shows "writes_to d es = []" "delivered es = []"
  using assms by (induction es) auto

lemma Run_only_prints:
  "only_prints exec \<Longrightarrow> Run exec r path msg p = Some (p', es, err) \<Longrightarrow> \<forall>e\<in>set es. \<exists>x. e = Print x"
  unfolding only_prints_def Run_def by (cases "r path") (simp_all, blast)

section \<open>The state of the layer above\<close>

text \<open>What handling the bodies of messages, one after the other, does to it.\<close>

fun replay ::
  "'b codec \<Rightarrow> ('h \<Rightarrow> 'b TOMsg \<Rightarrow> 'p \<Rightarrow> ('p, 'b effect) call) \<Rightarrow> 'h router \<Rightarrow> 'b list \<Rightarrow> 'p \<Rightarrow>
     ('p \<times> string list) option" where
  "replay cd exec tr [] p = Some (p, [])"
| "replay cd exec tr (x # xs) p =
     (case dec_TOMsg cd x of
        Inl e \<Rightarrow> replay cd exec tr xs p
      | Inr m \<Rightarrow>
          (case Run exec tr (t_Path m) m p of
             None \<Rightarrow> None
           | Some (p1, es, err) \<Rightarrow>
               (case replay cd exec tr xs p1 of
                  None \<Rightarrow> None
                | Some (p2, out) \<Rightarrow> Some (p2, printed es @ out))))"

lemma replay_append:
  "replay cd exec tr (xs @ ys) p =
     (case replay cd exec tr xs p of
        None \<Rightarrow> None
      | Some (p1, out) \<Rightarrow>
          (case replay cd exec tr ys p1 of None \<Rightarrow> None | Some (p2, out2) \<Rightarrow> Some (p2, out @ out2)))"
  by (induction xs arbitrary: p) (auto split: option.splits sum.splits)

end
