(* ===== verification/Node_Steps.thy ===== *)
theory Node_Steps
  imports Cluster
begin

text \<open>
  What one handler run of a started node does when every write succeeds: the lines it sends
  and the state it reaches, with the encoding of messages removed by the laws of the codec.
\<close>

section \<open>Lines\<close>

text \<open>A line that carries a message of the reliable layer, and one that carries a reply.\<close>

definition r_line :: "'b codec \<Rightarrow> string \<Rightarrow> 'b RMsg \<Rightarrow> 'b \<Rightarrow> bool" where
  "r_line cd q rm line \<longleftrightarrow>
     (\<exists>y. dec_BMsg cd line = (\<lparr>b_SrcID = q, b_Path = RMulticastPath, b_Body = y\<rparr>, None) \<and> dec_RMsg cd y = Inr rm)"

definition reply_line :: "'b codec \<Rightarrow> string \<Rightarrow> TOReplyProposalSeqMsg \<Rightarrow> 'b \<Rightarrow> bool" where
  "reply_line cd q rep line \<longleftrightarrow>
     (\<exists>y. dec_BMsg cd line = (\<lparr>b_SrcID = q, b_Path = WaitProposalSeqPath, b_Body = y\<rparr>, None)
        \<and> dec_Reply cd y = Inr rep)"

definition vote_of :: "TOReplyProposalSeqMsg \<Rightarrow> 'b ProposalItem" where
  "vote_of rep = \<lparr>v_ProposalSeqNum = p_ProposalSeq rep, v_ProcessID = p_ProcessID rep,
                  v_MsgID = p_MsgID rep, v_Body = None\<rparr>"

definition members_ok :: "string set \<Rightarrow> bmulticast \<Rightarrow> bool" where
  "members_ok M b \<longleftrightarrow> dom (senders b) = M \<and> clients_ok b"

lemma members_okD:
  assumes "members_ok M b"
  shows "d \<in> M \<Longrightarrow> \<exists>c. senders b d = Some (Some c)" "MemberCount b = card M"
    "IsNodeAlived d b \<longleftrightarrow> d \<in> M"
proof -
  show "\<exists>c. senders b d = Some (Some c)" if "d \<in> M"
    using that assms clients_okD [of b d] unfolding members_ok_def
    by (metis domD not_Some_eq option.inject)
qed (use assms in \<open>auto simp: members_ok_def MemberCount_def IsNodeAlived_live live_def\<close>)

lemma multicast_loop_calm:
  assumes "members_ok M b" "\<forall>path d. ok path d" "set ds \<subseteq> M"
  shows "multicast_loop ok path bytes ds b = Some (b, map (\<lambda>d. Write d bytes) ds, None)"
  using assms(3)
proof (induction ds)
  case (Cons d ds)
  then obtain c where "senders b d = Some (Some c)" using members_okD(1) [OF assms(1), of d] by auto
  then show ?case using Cons assms(2) by simp
qed simp

context message_codec
begin

lemma B_Multicast_calm:
  assumes "members_ok M b" "\<forall>path d. ok path d" "set order \<subseteq> M" "valid self" "valid path"
  shows "\<exists>x. B_Multicast cd self ok order path (Inr d) b = Some (b, map (\<lambda>d. Write d x) order, None)
    \<and> dec_BMsg cd x = (\<lparr>b_SrcID = self, b_Path = path, b_Body = d\<rparr>, None)"
  using BMsg_roundtrip [of "\<lparr>b_SrcID = self, b_Path = path, b_Body = d\<rparr>"] assms(4,5)
  by (auto simp: B_Multicast_def NewBMsg_def multicast_loop_calm [OF assms(1-3)])

lemma B_Multicast_r:
  assumes "members_ok M b" "\<forall>path d. ok path d" "set order \<subseteq> M" "valid self"
    "valid (r_ID rm)" "valid (r_Path rm)"
  shows "\<exists>x. B_Multicast cd self ok order RMulticastPath (enc_RMsg cd rm) b = Some (b, map (\<lambda>d. Write d x) order, None)
    \<and> r_line cd self rm x"
proof -
  obtain y where y: "enc_RMsg cd rm = Inr y" "dec_RMsg cd y = Inr rm"
    using RMsg_roundtrip assms(5,6) by blast
  show ?thesis
    using B_Multicast_calm [OF assms(1-4) valid_paths(1), of y] y by (auto simp: r_line_def)
qed

lemma R_Multicast_calm:
  assumes "members_ok M b" "\<forall>path d. ok path d" "set order \<subseteq> M" "valid self" "valid uuid" "valid path"
  shows "\<exists>x. R_Multicast cd self ok order uuid path (Inr d) b = Some (b, map (\<lambda>d. Write d x) order, None)
    \<and> r_line cd self \<lparr>r_ID = uuid @ ''-'' @ digest cd d, r_Path = path, r_Body = d\<rparr> x"
  using B_Multicast_r [OF assms(1-4), of "\<lparr>r_ID = uuid @ ''-'' @ digest cd d, r_Path = path, r_Body = d\<rparr>"]
    valid_append [OF assms(5) valid_append [OF valid_dash valid_digest]] assms(6)
  by (auto simp: R_Multicast_def NewRMsg_def)

lemma B_Unicast_reply:
  assumes "members_ok M b" "\<forall>path d. ok path d" "dst \<in> M" "valid self"
    "valid (p_ProcessID rep)" "valid (p_MsgID rep)"
  shows "\<exists>x. B_Unicast cd self ok dst WaitProposalSeqPath (enc_Reply cd rep) b = Some (b, [Write dst x], None)
    \<and> reply_line cd self rep x"
proof -
  obtain y where y: "enc_Reply cd rep = Inr y" "dec_Reply cd y = Inr rep"
    using Reply_roundtrip assms(5,6) by blast
  obtain x where x: "enc_BMsg cd \<lparr>b_SrcID = self, b_Path = WaitProposalSeqPath, b_Body = y\<rparr> = Inr x"
      "dec_BMsg cd x = (\<lparr>b_SrcID = self, b_Path = WaitProposalSeqPath, b_Body = y\<rparr>, None)"
    using BMsg_roundtrip [of "\<lparr>b_SrcID = self, b_Path = WaitProposalSeqPath, b_Body = y\<rparr>"]
      assms(4) valid_paths by auto
  obtain c where "senders b dst = Some (Some c)" using members_okD(1) [OF assms(1,3)] by blast
  then show ?thesis
    using x y assms(2) by (auto simp: B_Unicast_def NewBMsg_def reply_line_def)
qed

section \<open>Receiving\<close>

lemma handle_line_reply:
  assumes "b_routes (bmulticast nd)" "reply_line cd q rep line"
  shows "handle_line cd exec e line nd =
     (if length (waitVotesChannel (totalOrder nd)) < waitVotesCapacity
      then Some (nd\<lparr>totalOrder := (totalOrder nd)
             \<lparr>waitVotesChannel := waitVotesChannel (totalOrder nd) @ [vote_of rep]\<rparr>\<rparr>, [], None)
      else None)"
  using assms b_run_path [OF assms(1)]
  by (auto simp: reply_line_def handle_line_def reply_deliver_def handle_reply_def vote_of_def Let_def)

lemma handle_line_r:
  assumes "b_routes (bmulticast nd)" "r_line cd q rm line"
  shows "\<exists>y. handle_line cd exec e line nd =
      r_deliver cd exec e \<lparr>b_SrcID = q, b_Path = RMulticastPath, b_Body = y\<rparr> nd \<and> dec_RMsg cd y = Inr rm"
  using assms b_run_path [OF assms(1)] by (auto simp: r_line_def handle_line_def)

lemma handle_line_old:
  assumes "b_routes (bmulticast nd)" "r_line cd q rm line" "r_ID rm \<in> received (rmulticast nd)"
  shows "handle_line cd exec e line nd = Some (nd, [], None)"
  using handle_line_r [OF assms(1,2), of exec e] assms(3)
  by (auto simp: r_deliver_def AddMsgIfNotExist_def)

text \<open>A new message is relayed, if it comes from another node, and then handled.\<close>

lemma handle_line_new:
  assumes "b_routes (bmulticast nd)" "r_routes (rmulticast nd)" "members_ok M (bmulticast nd)" "calm M e"
    "r_line cd q rm line" "r_ID rm \<notin> received (rmulticast nd)"
    "valid (SelfNodeID nd)" "valid (r_ID rm)" "valid (r_Path rm)"
    "r_router (rmulticast nd) (r_Path rm) = Some f"
  defines "nd1 \<equiv> nd\<lparr>rmulticast := (rmulticast nd)\<lparr>received := insert (r_ID rm) (received (rmulticast nd))\<rparr>\<rparr>"
  shows "\<exists>x. r_line cd (SelfNodeID nd) rm x \<and> handle_line cd exec e line nd =
     (case exec_r cd exec e f rm nd1 of None \<Rightarrow> None
      | Some (nd2, es, err) \<Rightarrow>
          Some (nd2, (if q \<noteq> SelfNodeID nd then map (\<lambda>d. Write d x) (env_order e) else []) @ es, err))"
proof -
  obtain x where x: "B_Multicast cd (SelfNodeID nd) (env_ok e) (env_order e) RMulticastPath (enc_RMsg cd rm)
      (bmulticast nd) = Some (bmulticast nd, map (\<lambda>d. Write d x) (env_order e), None)"
      and rx: "r_line cd (SelfNodeID nd) rm x"
    using B_Multicast_r [OF assms(3), of "env_ok e" "env_order e" "SelfNodeID nd" rm] assms(4,7-9)
    by (auto simp: calm_def)
  have rm: "\<lparr>r_ID = r_ID rm, r_Path = r_Path rm, r_Body = r_Body rm\<rparr> = rm" by simp
  have nd1: "nd1\<lparr>bmulticast := bmulticast nd\<rparr> = nd1" by (simp add: nd1_def)
  have self: "SelfNodeID nd1 = SelfNodeID nd" "bmulticast nd1 = bmulticast nd" by (simp_all add: nd1_def)
  obtain y where y: "handle_line cd exec e line nd =
      r_deliver cd exec e \<lparr>b_SrcID = q, b_Path = RMulticastPath, b_Body = y\<rparr> nd" "dec_RMsg cd y = Inr rm"
    using handle_line_r [OF assms(1,5), of exec e] by blast
  have "r_deliver cd exec e \<lparr>b_SrcID = q, b_Path = RMulticastPath, b_Body = y\<rparr> nd =
     (case exec_r cd exec e f rm nd1 of None \<Rightarrow> None
      | Some (nd2, es, err) \<Rightarrow>
          Some (nd2, (if q \<noteq> SelfNodeID nd then map (\<lambda>d. Write d x) (env_order e) else []) @ es, err))"
    unfolding r_deliver_def AddMsgIfNotExist_def
    using y(2) assms(6,10)
    by (simp add: Run_def x rm nd1 self nd1_def [symmetric] Let_def del: nd1_def split: option.split)
  with y rx show ?thesis by auto
qed

section \<open>Handling a request, sending a message, collecting a vote\<close>

lemma exec_r_ask:
  assumes "members_ok M (bmulticast nd)" "calm M e" "dec_Ask cd (r_Body rm) = Inr ask" "a_SrcID ask \<in> M"
    "valid (SelfNodeID nd)" "valid (a_MsgID ask)"
  defines "seq \<equiv> next_proposal (totalOrder nd)"
  shows "\<exists>x. reply_line cd (SelfNodeID nd) (NewTOReplyProposalSeqMsg (SelfNodeID nd) (a_MsgID ask) seq) x
    \<and> exec_r cd exec e AskProposalSeq rm nd =
       Some (nd\<lparr>totalOrder := hold_message ask seq ((totalOrder nd)\<lparr>maxProposalSeqNumOfSelf := seq\<rparr>)\<rparr>,
             [Write (a_SrcID ask) x], None)"
proof -
  let ?rep = "NewTOReplyProposalSeqMsg (SelfNodeID nd) (a_MsgID ask) seq"
  have "\<exists>x. B_Unicast cd (SelfNodeID nd) (env_ok e) (a_SrcID ask) WaitProposalSeqPath (enc_Reply cd ?rep) (bmulticast nd)
        = Some (bmulticast nd, [Write (a_SrcID ask) x], None) \<and> reply_line cd (SelfNodeID nd) ?rep x"
    using assms(2,4-6) by (intro B_Unicast_reply [OF assms(1)])
      (auto simp: NewTOReplyProposalSeqMsg_def calm_def)
  then show ?thesis
    using assms(3) by (auto simp: exec_r_def handle_ask_sections seq_def Let_def)
qed

lemma node_multicast_calm:
  assumes "members_ok M (bmulticast nd)" "calm M e" "valid (SelfNodeID nd)" "valid (env_uuid1 e)" "valid (env_uuid2 e)"
    "node_multicast cd e path data nd = Some (nd', es, err)"
  shows "nd' = nd \<and> (es = [] \<or>
     (\<exists>body d x. es = map (\<lambda>d. Write d x) (env_order e)
        \<and> dec_Ask cd d = Inr (NewTOAskProposalSeqMsg cd (env_uuid1 e) (SelfNodeID nd) body)
        \<and> (\<exists>tm. dec_TOMsg cd body = Inr tm)
        \<and> r_line cd (SelfNodeID nd) \<lparr>r_ID = env_uuid2 e @ ''-'' @ digest cd d, r_Path = AskProposalSeqPath, r_Body = d\<rparr> x))"
proof (cases "\<exists>tomsg bytes. NewTOMsg path data = Inr tomsg \<and> enc_TOMsg cd tomsg = Inr bytes")
  case True
  then obtain tomsg bytes where m: "NewTOMsg path data = Inr tomsg" "enc_TOMsg cd tomsg = Inr bytes" by blast
  let ?ask = "NewTOAskProposalSeqMsg cd (env_uuid1 e) (SelfNodeID nd) bytes"
  have "valid (a_SrcID ?ask)" "valid (a_MsgID ?ask)"
    using assms(3,4) valid_append valid_digest by (auto simp: NewTOAskProposalSeqMsg_def)
  then obtain d where d: "enc_Ask cd ?ask = Inr d" "dec_Ask cd d = Inr ?ask"
    using Ask_roundtrip by blast
  obtain x where "R_Multicast cd (SelfNodeID nd) (env_ok e) (env_order e) (env_uuid2 e) AskProposalSeqPath (Inr d) (bmulticast nd)
        = Some (bmulticast nd, map (\<lambda>d. Write d x) (env_order e), None)"
      "r_line cd (SelfNodeID nd) \<lparr>r_ID = env_uuid2 e @ ''-'' @ digest cd d, r_Path = AskProposalSeqPath, r_Body = d\<rparr> x"
    using R_Multicast_calm [OF assms(1), of "env_ok e" "env_order e" "SelfNodeID nd" "env_uuid2 e" AskProposalSeqPath d]
      assms(2,3,5) valid_paths by (auto simp: calm_def)
  then show ?thesis
    using assms(6) m d TOMsg_decodes [OF m(2)] by (auto simp: node_multicast_def TO_Multicast_def)
next
  case False
  then show ?thesis
    using assms(6) by (auto simp: node_multicast_def TO_Multicast_def split: sum.splits)
qed

lemma node_collect_calm:
  assumes "members_ok M (bmulticast nd)" "calm M e" "valid (SelfNodeID nd)" "valid (env_uuid1 e)"
    "waitVotesChannel (totalOrder nd) = v # rest"
  defines "votes \<equiv> (case waitProposalCounter (totalOrder nd) (v_MsgID v) of None \<Rightarrow> [] | Some vs \<Rightarrow> vs) @ [v]"
  defines "t1 \<equiv> (totalOrder nd)\<lparr>waitVotesChannel := rest,
              waitProposalCounter := (waitProposalCounter (totalOrder nd))(v_MsgID v \<mapsto> votes)\<rparr>"
  assumes vv: "\<And>m. m \<in> set votes \<Longrightarrow> valid (v_ProcessID m) \<and> valid (v_MsgID m)"
  shows "if length votes < card M then node_collect cd e nd = Some (nd\<lparr>totalOrder := t1\<rparr>, [], None)
     else \<exists>m d x. m \<in> set votes \<and> (\<forall>v\<in>set votes. vote_key v \<le> vote_key m)
        \<and> node_collect cd e nd = Some (nd\<lparr>totalOrder := t1\<lparr>waitProposalCounter := (waitProposalCounter t1)(v_MsgID v := None)\<rparr>\<rparr>,
             map (\<lambda>d. Write d x) (env_order e), None)
        \<and> dec_Announce cd d = Inr (NewTOAnnounceAgreementSeqMsg (v_ProcessID m) (v_ProposalSeqNum m) (v_MsgID m))
        \<and> r_line cd (SelfNodeID nd) \<lparr>r_ID = env_uuid1 e @ ''-'' @ digest cd d, r_Path = AnnounceAgreementSeqPath, r_Body = d\<rparr> x"
proof (cases "length votes < card M")
  case True
  then show ?thesis
    using assms(5) members_okD(2) [OF assms(1)]
    by (simp add: node_collect_def collect_vote_def Let_def votes_def t1_def)
next
  case False
  have "votes \<noteq> []" by (simp add: votes_def)
  from MaxOfArrayProposalItem_Inr [OF this] obtain m
    where m: "MaxOfArrayProposalItem votes = Inr m" "m \<in> set votes" "\<forall>v\<in>set votes. vote_key v \<le> vote_key m" .
  let ?ann = "NewTOAnnounceAgreementSeqMsg (v_ProcessID m) (v_ProposalSeqNum m) (v_MsgID m)"
  obtain d where d: "enc_Announce cd ?ann = Inr d" "dec_Announce cd d = Inr ?ann"
    using Announce_roundtrip [of ?ann] vv [OF m(2)] by (auto simp: NewTOAnnounceAgreementSeqMsg_def)
  obtain x where "R_Multicast cd (SelfNodeID nd) (env_ok e) (env_order e) (env_uuid1 e) AnnounceAgreementSeqPath (Inr d) (bmulticast nd)
        = Some (bmulticast nd, map (\<lambda>d. Write d x) (env_order e), None)"
      "r_line cd (SelfNodeID nd) \<lparr>r_ID = env_uuid1 e @ ''-'' @ digest cd d, r_Path = AnnounceAgreementSeqPath, r_Body = d\<rparr> x"
    using R_Multicast_calm [OF assms(1), of "env_ok e" "env_order e" "SelfNodeID nd" "env_uuid1 e" AnnounceAgreementSeqPath d]
      assms(2-4) valid_paths by (auto simp: calm_def)
  then have "node_collect cd e nd = Some (nd\<lparr>totalOrder := t1\<lparr>waitProposalCounter := (waitProposalCounter t1)(v_MsgID v := None)\<rparr>\<rparr>,
             map (\<lambda>d. Write d x) (env_order e), None)"
    using False assms(5) members_okD(2) [OF assms(1)] m(1) d(1)
    by (simp add: node_collect_def collect_vote_def Let_def votes_def [symmetric] t1_def
        aggregateVotesAndMulticast_def del: append.simps length_append)
  with False m d show ?thesis
    using \<open>r_line cd (SelfNodeID nd) _ x\<close> by (simp only: if_False) blast
qed

end

end
