(* ===== verification/Deliver_Sim.thy ===== *)
theory Deliver_Sim
  imports Node_Steps
begin

text \<open>
  The correspondence between one node and the abstract ISIS machine, and the delivery loop
  as a sequence of the machine's delivery steps.
\<close>

section \<open>Ghost state\<close>

text \<open>
  What the proof knows of a run besides its state: the abstract machine, the reliable
  messages sent so far by their id, and the requests by the id of their message, each with
  the id of the reliable message that carries it.
\<close>

record 'b ghost =
  isis_of :: isis
  reg :: "string \<Rightarrow> 'b RMsg option"
  asks :: "string \<Rightarrow> (string \<times> 'b TOAskProposalSeqMsg) option"

abbreviation prop_of :: "'b ghost \<Rightarrow> string \<Rightarrow> string \<Rightarrow> nat option" where
  "prop_of G \<equiv> proposed (isis_of G)"

abbreviation dlv_of :: "'b ghost \<Rightarrow> string \<Rightarrow> string list" where
  "dlv_of G \<equiv> dlv (isis_of G)"

abbreviation known_of :: "'b ghost \<Rightarrow> string \<Rightarrow> string set" where
  "known_of G \<equiv> known (isis_of G)"

definition body_of :: "'b ghost \<Rightarrow> string \<Rightarrow> 'b" where
  "body_of G mid = a_Body (snd (the (asks G mid)))"

text \<open>A held item, in the terms of the machine.\<close>

definition item_ok :: "string set \<Rightarrow> 'b ghost \<Rightarrow> string \<Rightarrow> 'b hold_item \<Rightarrow> bool" where
  "item_ok M G p x \<longleftrightarrow>
     msgID x \<notin> set (dlv_of G p) \<and> prop_of G p (msgID x) \<noteq> None \<and>
     (\<exists>rid ask. asks G (msgID x) = Some (rid, ask) \<and> body x = a_Body ask \<and> a_SrcID ask \<in> M \<and>
        (if agreed x
         then msgID x \<in> known_of G p \<and> agr (isis_of G) (msgID x) = (unat (proposalSeqNum x), processID x)
         else msgID x \<notin> known_of G p \<and> prop_of G p (msgID x) = Some (unat (proposalSeqNum x))
              \<and> processID x = a_SrcID ask))"

definition hold_ok :: "string set \<Rightarrow> 'b ghost \<Rightarrow> string \<Rightarrow> ('b, 'h) totalording \<Rightarrow> bool" where
  "hold_ok M G p t \<longleftrightarrow>
     pq_heap (holdQueue t)
   \<and> (\<forall>mid a. holdQueueMap t mid = Some a \<longleftrightarrow> (\<exists>x. pq_view (holdQueue t) a = Some x \<and> msgID x = mid))
   \<and> (\<forall>a x. pq_view (holdQueue t) a = Some x \<longrightarrow> item_ok M G p x)
   \<and> (\<forall>mid. prop_of G p mid \<noteq> None \<longrightarrow> mid \<in> set (dlv_of G p) \<or> holdQueueMap t mid \<noteq> None)"

lemma hold_okD:
  assumes "hold_ok M G p t"
  shows "pq_heap (holdQueue t)"
    and "holdQueueMap t mid = Some a \<longleftrightarrow> (\<exists>x. pq_view (holdQueue t) a = Some x \<and> msgID x = mid)"
    and "pq_view (holdQueue t) a = Some x \<Longrightarrow> item_ok M G p x"
    and "prop_of G p mid \<noteq> None \<Longrightarrow> mid \<in> set (dlv_of G p) \<or> holdQueueMap t mid \<noteq> None"
  using assms unfolding hold_ok_def by blast+

lemma hold_okI:
  assumes "pq_heap (holdQueue t)"
    and "\<And>mid a. holdQueueMap t mid = Some a \<longleftrightarrow> (\<exists>x. pq_view (holdQueue t) a = Some x \<and> msgID x = mid)"
    and "\<And>a x. pq_view (holdQueue t) a = Some x \<Longrightarrow> item_ok M G p x"
    and "\<And>mid. prop_of G p mid \<noteq> None \<Longrightarrow> mid \<in> set (dlv_of G p) \<or> holdQueueMap t mid \<noteq> None"
  shows "hold_ok M G p t"
  unfolding hold_ok_def by (intro conjI allI impI) (fact assms)+

lemma hold_ok_queue:
  assumes "hold_ok M G p t" "holdQueue t' = holdQueue t" "holdQueueMap t' = holdQueueMap t"
  shows "hold_ok M G p t'"
  using assms(1) unfolding hold_ok_def assms(2,3) .

lemma hold_ok_msgID_inj:
  assumes "hold_ok M G p t" "pq_view (holdQueue t) a = Some x" "pq_view (holdQueue t) b = Some y"
    "msgID x = msgID y"
  shows "a = b"
  using assms hold_okD(2) [OF assms(1), of "msgID x"] by (metis option.inject)

section \<open>Delivering the head\<close>

lemma rank_le_agreed:
  assumes "rank_of x \<le> rank_of y" "agreed x"
  shows "if agreed y then (unat (proposalSeqNum x), processID x) \<le> (unat (proposalSeqNum y), processID y)
     else unat (proposalSeqNum x) < unat (proposalSeqNum y)"
  using assms
  by (auto simp: rank_of_def less_eq_rank_def less_eq_prod_def less_prod_def word_less_nat_alt
      word_le_nat_alt le_less word_unat_eq_iff)

lemma head_first_held:
  assumes h: "hold_ok M G p t" and a: "pq_Peek (holdQueue t) = Some a" "agreed (item_at (holdQueue t) a)"
  shows "first_held (isis_of G) p (msgID (item_at (holdQueue t) a))"
    and "msgID (item_at (holdQueue t) a) \<in> known_of G p"
    and "msgID (item_at (holdQueue t) a) \<notin> set (dlv_of G p)"
proof -
  let ?x = "item_at (holdQueue t) a"
  have xv: "pq_view (holdQueue t) a = Some (?x\<lparr>index := 0\<rparr>)"
    using pq_Peek_least(1) [OF hold_okD(1) [OF h] a(1)] .
  have x: "item_ok M G p (?x\<lparr>index := 0\<rparr>)" using hold_okD(3) [OF h xv] .
  then show k: "msgID ?x \<in> known_of G p" and "msgID ?x \<notin> set (dlv_of G p)"
    using a(2) by (auto simp: item_ok_def)
  have ax: "agr (isis_of G) (msgID ?x) = (unat (proposalSeqNum ?x), processID ?x)"
    using x a(2) by (auto simp: item_ok_def)
  show "first_held (isis_of G) p (msgID ?x)"
    unfolding first_held_def
  proof (intro allI impI)
    fix m s assume m: "prop_of G p m = Some s" "m \<notin> set (dlv_of G p)"
    then obtain b y where y: "pq_view (holdQueue t) b = Some y" "msgID y = m"
      using hold_okD(4) [OF h, of m] hold_okD(2) [OF h, of m] by auto
    have iy: "item_ok M G p y" using hold_okD(3) [OF h y(1)] .
    have le: "rank_of ?x \<le> rank_of y"
      using pq_Peek_least(2) [OF hold_okD(1) [OF h] a(1) y(1)] .
    show "if m \<in> known_of G p then agr (isis_of G) (msgID ?x) \<le> agr (isis_of G) m
        else fst (agr (isis_of G) (msgID ?x)) < s"
      using rank_le_agreed [OF le a(2)] iy y(2) ax m(1) by (auto simp: item_ok_def split: if_splits)
  qed
qed

definition deliver_ghost :: "string \<Rightarrow> string list \<Rightarrow> 'b ghost \<Rightarrow> 'b ghost" where
  "deliver_ghost p ds G = G\<lparr>isis_of := (isis_of G)\<lparr>dlv := (dlv_of G)(p := dlv_of G p @ ds)\<rparr>\<rparr>"

lemma deliver_ghost_simps [simp]:
  "dlv_of (deliver_ghost p ds G) = (dlv_of G)(p := dlv_of G p @ ds)"
  "prop_of (deliver_ghost p ds G) = prop_of G" "known_of (deliver_ghost p ds G) = known_of G"
  "agr (isis_of (deliver_ghost p ds G)) = agr (isis_of G)" "fin (isis_of (deliver_ghost p ds G)) = fin (isis_of G)"
  "asks (deliver_ghost p ds G) = asks G" "reg (deliver_ghost p ds G) = reg G"
  "deliver_ghost p [] G = G"
  "deliver_ghost p es (deliver_ghost p ds G) = deliver_ghost p (ds @ es) G"
  by (simp_all add: deliver_ghost_def agr_def fun_eq_iff)

lemma body_of_deliver [simp]: "body_of (deliver_ghost p ds G) = body_of G"
  by (simp add: body_of_def fun_eq_iff)

text \<open>Popping the head keeps the correspondence, with the message delivered.\<close>

lemma hold_ok_pop:
  assumes h: "hold_ok M G p t" and a: "pq_Peek (holdQueue t) = Some a"
    and pop: "pq_heap h'" "pq_view h' = (pq_view (holdQueue t))(a := None)"
  defines "mid \<equiv> msgID (item_at (holdQueue t) a)"
  shows "hold_ok M (deliver_ghost p [mid] G) p (t\<lparr>holdQueueMap := (holdQueueMap t)(mid := None), holdQueue := h'\<rparr>)"
proof -
  let ?x = "item_at (holdQueue t) a"
  have xv: "pq_view (holdQueue t) a = Some (?x\<lparr>index := 0\<rparr>)"
    using pq_Peek_least(1) [OF hold_okD(1) [OF h] a] .
  have only: "b = a" if "pq_view (holdQueue t) b = Some y" "msgID y = mid" for b y
    using hold_ok_msgID_inj [OF h that(1) xv] that(2) by (simp add: mid_def)
  have map: "((holdQueueMap t)(mid := None)) m = Some b \<longleftrightarrow> (\<exists>y. pq_view h' b = Some y \<and> msgID y = m)" for m b
    using only hold_okD(2) [OF h, of m b] xv by (auto simp: pop(2) mid_def)
  have items: "item_ok M (deliver_ghost p [mid] G) p y" if "pq_view h' b = Some y" for b y
  proof -
    have "b \<noteq> a" "pq_view (holdQueue t) b = Some y" using that by (auto simp: pop(2) split: if_splits)
    moreover from this have "msgID y \<noteq> mid" using only by blast
    ultimately show ?thesis using hold_okD(3) [OF h, of b y] by (auto simp: item_ok_def split: if_splits)
  qed
  have rest: "m \<in> set (dlv_of (deliver_ghost p [mid] G) p) \<or> ((holdQueueMap t)(mid := None)) m \<noteq> None"
    if "prop_of G p m \<noteq> None" for m
    using hold_okD(4) [OF h that] by auto
  show ?thesis
    unfolding hold_ok_def using pop(1) map items rest by simp
qed

section \<open>The loop\<close>

text \<open>Between handler runs, the head of the queue waits for its agreement.\<close>

definition head_open :: "'b hold_heap \<Rightarrow> bool" where
  "head_open h \<longleftrightarrow> (\<forall>a. pq_Peek h = Some a \<longrightarrow> \<not> agreed (item_at h a))"

lemma head_open_push:
  assumes h: "pq_heap h" "head_open h" and h': "pq_heap h'" "pq_view h' = (pq_view h)(a \<mapsto> x)"
    and x: "\<not> agreed x" "pq_view h a = None"
  shows "head_open h'"
  unfolding head_open_def
proof (intro allI impI notI)
  fix b assume b: "pq_Peek h' = Some b" and ag: "agreed (item_at h' b)"
  have bv: "pq_view h' b = Some ((item_at h' b)\<lparr>index := 0\<rparr>)" using pq_Peek_least(1) [OF h'(1) b] .
  then have "b \<noteq> a" using x(1) ag h'(2) by auto
  then have old: "pq_view h b = Some ((item_at h' b)\<lparr>index := 0\<rparr>)" using bv h'(2) by simp
  then obtain c where c: "pq_Peek h = Some c" by (cases "pq h") (auto simp: pq_Peek_def pq_view_def)
  have cv: "pq_view h c = Some ((item_at h c)\<lparr>index := 0\<rparr>)" using pq_Peek_least(1) [OF h(1) c] .
  then have "c \<noteq> a" using x(2) by auto
  then have "pq_view h' c = Some ((item_at h c)\<lparr>index := 0\<rparr>)" using cv h'(2) by simp
  from pq_Peek_least(2) [OF h'(1) b this] pq_Peek_least(2) [OF h(1) c old]
  have "rank_of (item_at h' b) = rank_of (item_at h c)" by simp
  then show False using ag h(2) c by (simp add: rank_of_def head_open_def)
qed

text \<open>Every body a node may hold is that of a message that can be decoded.\<close>

definition bodies_ok :: "'b codec \<Rightarrow> 'b ghost \<Rightarrow> bool" where
  "bodies_ok cd G \<longleftrightarrow> (\<forall>mid rid ask. asks G mid = Some (rid, ask) \<longrightarrow> (\<exists>tm. dec_TOMsg cd (a_Body ask) = Inr tm))"

lemma bodies_okD: "bodies_ok cd G \<Longrightarrow> asks G mid = Some (rid, ask) \<Longrightarrow> \<exists>tm. dec_TOMsg cd (a_Body ask) = Inr tm"
  unfolding bodies_ok_def by blast

lemma bodies_ok_cong: "asks G' = asks G \<Longrightarrow> bodies_ok cd G' = bodies_ok cd G"
  by (simp add: bodies_ok_def)

definition same_but_queue :: "('b, 'h) totalording \<Rightarrow> ('b, 'h) totalording \<Rightarrow> bool" where
  "same_but_queue t t' \<longleftrightarrow> t' = t\<lparr>holdQueueMap := holdQueueMap t', holdQueue := holdQueue t'\<rparr>"

lemma same_but_queue_trans: "same_but_queue t t' \<Longrightarrow> same_but_queue t' t'' \<Longrightarrow> same_but_queue t t''"
  by (cases t; cases t'; cases t'') (simp add: same_but_queue_def)

lemma deliver_loop_sim:
  fixes exec :: "'h \<Rightarrow> 'b TOMsg \<Rightarrow> 'p \<Rightarrow> ('p, 'b effect) call"
  assumes ex: "only_prints exec" and p: "p \<in> M" and al: "\<forall>q\<in>M. alive q"
  shows "hold_ok M G p t \<Longrightarrow> deliver_loop cd exec alive now t pr = Some ((t', pr'), es, err) \<Longrightarrow>
    \<exists>ds. (isis_step M)\<^sup>*\<^sup>* (isis_of G) (isis_of (deliver_ghost p ds G)) \<and> hold_ok M (deliver_ghost p ds G) p t'
      \<and> delivered es = ds \<and> (\<forall>d. writes_to d es = []) \<and> same_but_queue t t'
      \<and> replay cd exec (t_router t) (map (body_of G) ds) pr = Some (pr', printed es)
      \<and> (bodies_ok cd G \<longrightarrow> head_open (holdQueue t'))"
proof (induction "length (pq (holdQueue t))" arbitrary: G t pr es rule: less_induct)
  case less
  note h = less.prems(1) and run = less.prems(2) [unfolded deliver_loop.simps [of cd exec alive now t pr]]
  show ?case
  proof (cases "pq_Peek (holdQueue t)")
    case None
    then show ?thesis using h run by (intro exI [of _ "[]"]) (auto simp: same_but_queue_def head_open_def)
  next
    case (Some a)
    let ?x = "item_at (holdQueue t) a"
    have xv: "pq_view (holdQueue t) a = Some (?x\<lparr>index := 0\<rparr>)"
      using pq_Peek_least(1) [OF hold_okD(1) [OF h] Some] .
    have x: "item_ok M G p (?x\<lparr>index := 0\<rparr>)" using hold_okD(3) [OF h xv] .
    show ?thesis
    proof (cases "agreed ?x")
      case False
      then have "alive (processID ?x)" using x al by (auto simp: item_ok_def)
      then show ?thesis
        using h run Some False by (intro exI [of _ "[]"]) (auto simp: same_but_queue_def Let_def head_open_def)
    next
      case True
      let ?mid = "msgID ?x"
      obtain h' where pop: "hold_pop (holdQueue t) = Some (h', a)" "pq_heap h'"
          "pq_view h' = (pq_view (holdQueue t))(a := None)" "length (pq h') < length (pq (holdQueue t))"
        using hold_pop_correct [OF hold_okD(1) [OF h] Some] by blast
      define t1 where "t1 = t\<lparr>holdQueueMap := (holdQueueMap t)(?mid := None), holdQueue := h'\<rparr>"
      define G1 where "G1 = deliver_ghost p [?mid] G"
      have h1: "hold_ok M G1 p t1"
        unfolding G1_def t1_def using hold_ok_pop [OF h Some pop(2,3)] .
      have step: "isis_step M (isis_of G) (isis_of G1)"
        using isis_step.deliver [OF p head_first_held(2,3,1) [OF h Some True]]
        by (simp add: G1_def deliver_ghost_def)
      have bd: "body_of G ?mid = body ?x" using x by (auto simp: item_ok_def body_of_def)
      have tr1: "t_router t1 = t_router t" and s1: "same_but_queue t t1"
        by (simp_all add: t1_def same_but_queue_def)
      let ?d = "TODeliver (proposalSeqNum ?x) (processID ?x) ?mid"
      show ?thesis
      proof (cases "dec_TOMsg cd (body ?x)")
        case (Inl er)
        then have "t' = t1" "pr' = pr" "es = [?d]"
          using run Some True pop(1) by (auto simp: Let_def t1_def)
        moreover have "\<not> bodies_ok cd G" using x Inl by (auto simp: item_ok_def dest!: bodies_okD)
        ultimately show ?thesis
          using h1 step s1 Inl bd by (intro exI [of _ "[?mid]"]) (auto simp: G1_def)
      next
        case (Inr m)
        from run Some True pop(1) Inr obtain p1 es1 err1 es2
          where r: "Run exec (t_router t) (t_Path m) m pr = Some (p1, es1, err1)"
            and l: "deliver_loop cd exec alive now t1 p1 = Some ((t', pr'), es2, err)" "es = ?d # es1 @ es2"
          by (auto simp: Let_def t1_def split: option.splits)
        have pe: "\<forall>e\<in>set es1. \<exists>x. e = Print x" using Run_only_prints [OF ex r] .
        have "length (pq (holdQueue t1)) < length (pq (holdQueue t))" using pop(4) by (simp add: t1_def)
        from less.hyps [OF this h1 l(1)] obtain ds
          where IH: "(isis_step M)\<^sup>*\<^sup>* (isis_of G1) (isis_of (deliver_ghost p ds G1))"
            "hold_ok M (deliver_ghost p ds G1) p t'" "delivered es2 = ds" "\<forall>d. writes_to d es2 = []"
            "same_but_queue t1 t'" "replay cd exec (t_router t1) (map (body_of G1) ds) p1 = Some (pr', printed es2)"
            "bodies_ok cd G1 \<longrightarrow> head_open (holdQueue t')"
          by blast
        show ?thesis
        proof (intro exI [of _ "?mid # ds"] conjI)
          show "(isis_step M)\<^sup>*\<^sup>* (isis_of G) (isis_of (deliver_ghost p (?mid # ds) G))"
            using converse_rtranclp_into_rtranclp [OF step IH(1)] by (simp add: G1_def)
          show "hold_ok M (deliver_ghost p (?mid # ds) G) p t'" using IH(2) by (simp add: G1_def)
          show "same_but_queue t t'" using same_but_queue_trans [OF s1 IH(5)] .
          show "replay cd exec (t_router t) (map (body_of G) (?mid # ds)) pr = Some (pr', printed es)"
            using IH(6) bd Inr r tr1 l(2) by (simp add: G1_def)
          show "bodies_ok cd G \<longrightarrow> head_open (holdQueue t')"
            using IH(7) bodies_ok_cong [of G1 G cd] by (simp add: G1_def)
        qed (use IH l(2) prints_effects [OF pe] in auto)
      qed
    qed
  qed
qed

section \<open>A new request\<close>

definition ask_ghost ::
  "string \<Rightarrow> 'b TOAskProposalSeqMsg \<Rightarrow> nat \<Rightarrow> 'b ghost \<Rightarrow> 'b ghost" where
  "ask_ghost p ask n G = G\<lparr>isis_of := (isis_of G)
     \<lparr>proposed := (prop_of G)(p := (prop_of G p)(a_MsgID ask \<mapsto> n))\<rparr>\<rparr>"

lemma ask_ghost_simps [simp]:
  "prop_of (ask_ghost p ask n G) = (prop_of G)(p := (prop_of G p)(a_MsgID ask \<mapsto> n))"
  "dlv_of (ask_ghost p ask n G) = dlv_of G" "known_of (ask_ghost p ask n G) = known_of G"
  "agr (isis_of (ask_ghost p ask n G)) = agr (isis_of G)" "fin (isis_of (ask_ghost p ask n G)) = fin (isis_of G)"
  "asks (ask_ghost p ask n G) = asks G" "reg (ask_ghost p ask n G) = reg G"
  by (simp_all add: ask_ghost_def agr_def fun_eq_iff)

lemma hold_message_view:
  fixes t :: "('b, 'h) totalording" and ask :: "'b TOAskProposalSeqMsg" and seq :: uint64
  assumes "pq_heap (holdQueue t)"
  defines "a \<equiv> length (mem (holdQueue t))"
    and "x \<equiv> \<lparr>body = a_Body ask, proposalSeqNum = seq, processID = a_SrcID ask,
      agreed = False, msgID = a_MsgID ask, index = 0\<rparr>"
  shows "pq_heap (holdQueue (hold_message ask seq t))"
    "pq_view (holdQueue (hold_message ask seq t)) = (pq_view (holdQueue t))(a \<mapsto> x)"
    "pq_view (holdQueue t) a = None"
    "hold_message ask seq t = t\<lparr>holdQueueMap := (holdQueueMap t)(a_MsgID ask \<mapsto> a),
       holdQueue := holdQueue (hold_message ask seq t)\<rparr>"
proof -
  let ?h = "holdQueue t"
  let ?h1 = "?h\<lparr>mem := mem ?h @ [x]\<rparr>"
  note al = pq_alloc(1,2) [OF assms(1), of x] pq_alloc(3) [OF assms(1), folded a_def]
  have t: "holdQueue (hold_message ask seq t) = hold_push a ?h1"
    by (simp add: hold_message_def a_def x_def Let_def)
  have "pq_heap (hold_push a ?h1)" "pq_view (hold_push a ?h1) = (pq_view ?h1)(a \<mapsto> (item_at ?h1 a)\<lparr>index := 0\<rparr>)"
    using hold_push_correct [of ?h1 a] al by (simp_all add: a_def)
  then show "pq_heap (holdQueue (hold_message ask seq t))"
    "pq_view (holdQueue (hold_message ask seq t)) = (pq_view ?h)(a \<mapsto> x)"
    unfolding t using al(2) by (simp_all add: item_at_def x_def a_def)
  show "pq_view ?h a = None" using al(3) by (simp add: pq_view_def)
  show "hold_message ask seq t = t\<lparr>holdQueueMap := (holdQueueMap t)(a_MsgID ask \<mapsto> a),
       holdQueue := holdQueue (hold_message ask seq t)\<rparr>"
    by (simp add: hold_message_def a_def Let_def)
qed

lemma head_open_hold_message:
  assumes "pq_heap (holdQueue t)" "head_open (holdQueue t)"
  shows "head_open (holdQueue (hold_message ask seq t))"
  using head_open_push [OF assms hold_message_view(1,2) [OF assms(1)] _ hold_message_view(3) [OF assms(1)]] by simp

lemma hold_ok_ask:
  assumes h: "hold_ok M G p t" and inv: "agreement_inv M (isis_of G)" "order_inv M (isis_of G)"
    and p: "p \<in> M" and new: "prop_of G p (a_MsgID ask) = None"
    and ask: "asks G (a_MsgID ask) = Some (rid, ask)" "a_SrcID ask \<in> M"
  shows "hold_ok M (ask_ghost p ask (unat seq) G) p (hold_message ask seq t)"
proof -
  let ?mid = "a_MsgID ask" let ?h = "holdQueue t" let ?a = "length (mem ?h)"
  define x where "x = \<lparr>body = a_Body ask, proposalSeqNum = seq, processID = a_SrcID ask,
      agreed = False, msgID = ?mid, index = 0\<rparr>"
  define h' where "h' = holdQueue (hold_message ask seq t)"
  note hm = hold_message_view(1,2,4) [OF hold_okD(1) [OF h], of ask seq, folded x_def h'_def]
  have un: "?mid \<notin> known_of G p"
    using agreement_invD(4) [OF inv(1), of ?mid p] agreement_invD(2) [OF inv(1) _ p] new by fastforce
  then have ud: "?mid \<notin> set (dlv_of G p)"
    using order_invD(1) [OF inv(2) p] by auto
  have map0: "holdQueueMap t ?mid = None"
  proof (rule ccontr)
    assume "holdQueueMap t ?mid \<noteq> None"
    then obtain a y where "pq_view ?h a = Some y" "msgID y = ?mid" using hold_okD(2) [OF h, of ?mid] by auto
    then show False using hold_okD(3) [OF h, of a y] new by (simp add: item_ok_def)
  qed
  note q = hm(1,2) and t' = hm(3) and av = hold_message_view(3) [OF hold_okD(1) [OF h]]
  have other: "msgID y \<noteq> ?mid" if "pq_view ?h b = Some y" for b y
    using that map0 hold_okD(2) [OF h, of ?mid b] by auto
  have "((holdQueueMap t)(?mid \<mapsto> ?a)) m = Some b \<longleftrightarrow> (\<exists>y. ((pq_view ?h)(?a \<mapsto> x)) b = Some y \<and> msgID y = m)" for m b
    using hold_okD(2) [OF h, of m b] other [of b] av by (auto simp: x_def)
  moreover have "item_ok M (ask_ghost p ask (unat seq) G) p y" if "((pq_view ?h)(?a \<mapsto> x)) b = Some y" for b y
  proof (cases "b = ?a")
    case True
    then show ?thesis using that un ud ask by (auto simp: item_ok_def x_def)
  next
    case False
    then have v: "pq_view ?h b = Some y" using that by simp
    show ?thesis
      using hold_okD(3) [OF h v] other [OF v] by (auto simp: item_ok_def split: if_splits)
  qed
  moreover have "m \<in> set (dlv_of G p) \<or> ((holdQueueMap t)(?mid \<mapsto> ?a)) m \<noteq> None"
    if "prop_of (ask_ghost p ask (unat seq) G) p m \<noteq> None" for m
    using that hold_okD(4) [OF h, of m] by (auto split: if_splits)
  ultimately show ?thesis
    unfolding hold_ok_def by (subst (1 2 3 4) t') (simp add: q h'_def [symmetric])
qed

section \<open>An announcement\<close>

definition learn_ghost :: "string \<Rightarrow> string set \<Rightarrow> 'b ghost \<Rightarrow> 'b ghost" where
  "learn_ghost p ks G = G\<lparr>isis_of := (isis_of G)\<lparr>known := (known_of G)(p := ks \<union> known_of G p)\<rparr>\<rparr>"

lemma learn_ghost_simps [simp]:
  "prop_of (learn_ghost p ks G) = prop_of G" "dlv_of (learn_ghost p ks G) = dlv_of G"
  "known_of (learn_ghost p ks G) = (known_of G)(p := ks \<union> known_of G p)"
  "agr (isis_of (learn_ghost p ks G)) = agr (isis_of G)" "fin (isis_of (learn_ghost p ks G)) = fin (isis_of G)"
  "asks (learn_ghost p ks G) = asks G" "reg (learn_ghost p ks G) = reg G"
  "body_of (learn_ghost p ks G) = body_of G" "learn_ghost p {} G = G"
  by (simp_all add: learn_ghost_def agr_def fun_eq_iff body_of_def)

lemma hold_ok_update:
  assumes h: "hold_ok M G p t" and m: "holdQueueMap t mid = Some a"
    and f: "agr (isis_of G) mid = (unat seq, pid)"
  shows "hold_ok M (learn_ghost p {mid} G) p (t\<lparr>holdQueue := pq_Update a pid seq (holdQueue t)\<rparr>)"
proof -
  let ?h = "holdQueue t"
  obtain x where x: "pq_view ?h a = Some x" "msgID x = mid" using m hold_okD(2) [OF h, of mid a] by blast
  then have a: "a \<in> set (pq ?h)" "msgID (item_at ?h a) = mid" "body (item_at ?h a) = body x"
    by (auto simp: pq_view_def split: if_splits)
  define y where "y = (item_at ?h a)\<lparr>agreed := True, processID := pid, proposalSeqNum := seq, index := 0\<rparr>"
  have q: "pq_heap (pq_Update a pid seq ?h)" "pq_view (pq_Update a pid seq ?h) = (pq_view ?h)(a \<mapsto> y)"
    using pq_Update_correct [OF hold_okD(1) [OF h] a(1), of pid seq] by (simp_all add: y_def)
  have other: "msgID z \<noteq> mid" if "pq_view ?h b = Some z" "b \<noteq> a" for b z
    using hold_ok_msgID_inj [OF h x(1) that(1)] that(2) x(2) by auto
  have "holdQueueMap t m = Some b \<longleftrightarrow> (\<exists>z. ((pq_view ?h)(a \<mapsto> y)) b = Some z \<and> msgID z = m)" for m b
    using hold_okD(2) [OF h, of m b] x a(2) by (cases "b = a") (auto simp: y_def)
  moreover have "item_ok M (learn_ghost p {mid} G) p z" if "((pq_view ?h)(a \<mapsto> y)) b = Some z" for b z
  proof (cases "b = a")
    case True
    then show ?thesis using that hold_okD(3) [OF h x(1)] x(2) a f by (auto simp: item_ok_def y_def)
  next
    case False
    then have v: "pq_view ?h b = Some z" using that by simp
    show ?thesis using hold_okD(3) [OF h v] other [OF v False] by (auto simp: item_ok_def split: if_splits)
  qed
  ultimately show ?thesis
    using q hold_okD(4) [OF h] by (intro hold_okI) simp_all
qed

lemma handle_announce_sim:
  fixes exec :: "'h \<Rightarrow> 'b TOMsg \<Rightarrow> 'p \<Rightarrow> ('p, 'b effect) call"
  assumes ex: "only_prints exec" and p: "p \<in> M" and al: "\<forall>q\<in>M. alive q"
    and h: "hold_ok M G p t" and f: "fin (isis_of G) (n_MsgID ann) = Some (unat (n_AgreementSeq ann), n_ProcessID ann)"
    and d: "dec_Announce cd (r_Body rm) = Inr ann"
    and run: "handle_announce cd exec alive now rm (t, pr) = Some ((t', pr'), es, err)"
  shows "\<exists>ks ds. ks \<subseteq> {n_MsgID ann}
      \<and> (isis_step M)\<^sup>*\<^sup>* (isis_of G) (isis_of (deliver_ghost p ds (learn_ghost p ks G)))
      \<and> hold_ok M (deliver_ghost p ds (learn_ghost p ks G)) p t'
      \<and> delivered es = ds \<and> (\<forall>d. writes_to d es = [])
      \<and> same_but_queue (t\<lparr>maxAgreementSeqNumOfGroup := MaxUint64 (maxAgreementSeqNumOfGroup t) (n_AgreementSeq ann)\<rparr>) t'
      \<and> replay cd exec (t_router t) (map (body_of G) ds) pr = Some (pr', printed es)
      \<and> (bodies_ok cd G \<longrightarrow> head_open (holdQueue t) \<longrightarrow> head_open (holdQueue t'))
      \<and> (n_MsgID ann \<in> ks \<or> holdQueueMap t (n_MsgID ann) = None)"
proof -
  let ?mid = "n_MsgID ann"
  let ?t = "t\<lparr>maxAgreementSeqNumOfGroup := MaxUint64 (maxAgreementSeqNumOfGroup t) (n_AgreementSeq ann)\<rparr>"
  have h1: "hold_ok M G p ?t" by (rule hold_ok_queue [OF h]) simp_all
  show ?thesis
  proof (cases "holdQueueMap t ?mid")
    case None
    then show ?thesis
      using run d h1 by (intro exI [of _ "{}"] exI [of _ "[]"]) (auto simp: handle_announce_def same_but_queue_def)
  next
    case (Some a)
    let ?t2 = "?t\<lparr>holdQueue := pq_Update a (n_ProcessID ann) (n_AgreementSeq ann) (holdQueue t)\<rparr>"
    let ?G = "learn_ghost p {?mid} G"
    have h2: "hold_ok M ?G p ?t2"
      using hold_ok_update [OF h1, of ?mid a "n_AgreementSeq ann" "n_ProcessID ann"] Some f by (simp add: agr_def)
    have r: "deliver_loop cd exec alive now ?t2 pr = Some ((t', pr'), es, err)"
      using run d Some by (simp add: handle_announce_def)
    have "isis_step M (isis_of G) (isis_of ?G)"
      using isis_step.learn [OF p, of "isis_of G" ?mid] f by (simp add: learn_ghost_def)
    moreover obtain ds where
      "(isis_step M)\<^sup>*\<^sup>* (isis_of ?G) (isis_of (deliver_ghost p ds ?G))" "hold_ok M (deliver_ghost p ds ?G) p t'"
      "delivered es = ds" "\<forall>d. writes_to d es = []" "same_but_queue ?t2 t'"
      "replay cd exec (t_router t) (map (body_of G) ds) pr = Some (pr', printed es)"
      "bodies_ok cd G \<longrightarrow> head_open (holdQueue t')"
      using bodies_ok_cong [of ?G G cd] deliver_loop_sim [OF ex p al h2 r] by auto
    ultimately show ?thesis
      by (intro exI [of _ "{?mid}"] exI [of _ ds])
         (auto simp: same_but_queue_def intro: converse_rtranclp_into_rtranclp)
  qed
qed

end
