(* ===== verification/Cluster_Inv.thy ===== *)
theory Cluster_Inv
  imports Deliver_Sim
begin

text \<open>
  The invariant that ties a running group to the abstract ISIS machine, and the facts used
  to preserve it: what a step of one node leaves true of the others.
\<close>

section \<open>Votes\<close>

definition line_vote :: "'b codec \<Rightarrow> 'b \<Rightarrow> 'b ProposalItem list" where
  "line_vote cd line =
     (let bm = fst (dec_BMsg cd line) in
      if b_Path bm = WaitProposalSeqPath
      then (case dec_Reply cd (b_Body bm) of Inl _ \<Rightarrow> [] | Inr rep \<Rightarrow> [vote_of rep])
      else [])"

definition counter_list :: "('b, 'h) totalording \<Rightarrow> string \<Rightarrow> 'b ProposalItem list" where
  "counter_list t mid = (case waitProposalCounter t mid of None \<Rightarrow> [] | Some vs \<Rightarrow> vs)"

definition vcount :: "string \<Rightarrow> string \<Rightarrow> 'b ProposalItem list \<Rightarrow> nat" where
  "vcount q mid vs = length (filter (\<lambda>v. v_ProcessID v = q \<and> v_MsgID v = mid) vs)"

lemma vcount_simps [simp]:
  "vcount q mid [] = 0"
  "vcount q mid (v # vs) = (if v_ProcessID v = q \<and> v_MsgID v = mid then 1 else 0) + vcount q mid vs"
  "vcount q mid (vs @ ws) = vcount q mid vs + vcount q mid ws"
  by (simp_all add: vcount_def)

lemma vcount_0: "vcount q mid vs = 0 \<longleftrightarrow> (\<forall>v\<in>set vs. \<not> (v_ProcessID v = q \<and> v_MsgID v = mid))"
  by (auto simp: vcount_def filter_empty_conv)

lemma vcount_pos: "v \<in> set vs \<Longrightarrow> 1 \<le> vcount (v_ProcessID v) (v_MsgID v) vs"
  using vcount_0 [of "v_ProcessID v" "v_MsgID v" vs] by fastforce

lemma line_vote_r: "r_line cd q rm line \<Longrightarrow> line_vote cd line = []"
  by (auto simp: line_vote_def r_line_def)

lemma line_vote_reply: "reply_line cd q rep line \<Longrightarrow> line_vote cd line = [vote_of rep]"
  by (auto simp: line_vote_def reply_line_def)

text \<open>The votes of \<open>q\<close> for a message of \<open>c\<close>: on their way, received and counted.\<close>

definition votes_at :: "'b codec \<Rightarrow> ('b, 'h, 'p) system \<Rightarrow> string \<Rightarrow> string \<Rightarrow> string \<Rightarrow> 'b ProposalItem list" where
  "votes_at cd s c q mid =
     concat (map (line_vote cd) (chan s q c)) @ waitVotesChannel (totalOrder (nodes s c))
     @ counter_list (totalOrder (nodes s c)) mid"

section \<open>The invariant\<close>

definition vote_ok :: "string set \<Rightarrow> 'b ghost \<Rightarrow> string \<Rightarrow> 'b ProposalItem \<Rightarrow> bool" where
  "vote_ok M G c v \<longleftrightarrow>
     v_ProcessID v \<in> M \<and> prop_of G (v_ProcessID v) (v_MsgID v) = Some (unat (v_ProposalSeqNum v))
     \<and> (\<exists>rid ask. asks G (v_MsgID v) = Some (rid, ask) \<and> a_SrcID ask = c)"

definition line_ok :: "'b codec \<Rightarrow> string set \<Rightarrow> 'b ghost \<Rightarrow> string \<Rightarrow> string \<Rightarrow> 'b \<Rightarrow> bool" where
  "line_ok cd M G q c line \<longleftrightarrow>
     (\<exists>rm. r_line cd q rm line \<and> reg G (r_ID rm) = Some rm)
   \<or> (\<exists>rep. reply_line cd q rep line \<and> p_ProcessID rep = q \<and> vote_ok M G c (vote_of rep))"

definition rmsg_ok :: "'b codec \<Rightarrow> 'b ghost \<Rightarrow> string \<Rightarrow> 'b RMsg \<Rightarrow> bool" where
  "rmsg_ok cd G rid rm \<longleftrightarrow>
     r_Path rm = AskProposalSeqPath \<and>
       (\<exists>ask. dec_Ask cd (r_Body rm) = Inr ask \<and> asks G (a_MsgID ask) = Some (rid, ask))
   \<or> r_Path rm = AnnounceAgreementSeqPath \<and>
       (\<exists>ann. dec_Announce cd (r_Body rm) = Inr ann
          \<and> fin (isis_of G) (n_MsgID ann) = Some (unat (n_AgreementSeq ann), n_ProcessID ann))"

definition ask_ok :: "'b codec \<Rightarrow> (string \<Rightarrow> bool) \<Rightarrow> string set \<Rightarrow> string set \<Rightarrow> 'b ghost \<Rightarrow> string \<Rightarrow> string \<Rightarrow>
    'b TOAskProposalSeqMsg \<Rightarrow> bool" where
  "ask_ok cd valid M us G mid rid ask \<longleftrightarrow>
     a_MsgID ask = mid \<and> valid mid \<and> take 36 mid \<in> us \<and> a_SrcID ask \<in> M
   \<and> (\<exists>rm. reg G rid = Some rm \<and> r_Path rm = AskProposalSeqPath \<and> dec_Ask cd (r_Body rm) = Inr ask)"

definition ghost_ok :: "'b codec \<Rightarrow> (string \<Rightarrow> bool) \<Rightarrow> string set \<Rightarrow> string set \<Rightarrow> 'b ghost \<Rightarrow> bool" where
  "ghost_ok cd valid M us G \<longleftrightarrow>
     isis_reach M (isis_of G)
   \<and> (\<forall>rid rm. reg G rid = Some rm \<longrightarrow> r_ID rm = rid \<and> valid rid \<and> take 36 rid \<in> us \<and> rmsg_ok cd G rid rm)
   \<and> (\<forall>mid rid ask. asks G mid = Some (rid, ask) \<longrightarrow> ask_ok cd valid M us G mid rid ask)
   \<and> (\<forall>p mid. prop_of G p mid \<noteq> None \<longrightarrow> asks G mid \<noteq> None)"

lemma ghost_okD:
  assumes "ghost_ok cd valid M us G"
  shows "isis_reach M (isis_of G)"
    and "reg G rid = Some rm \<Longrightarrow> r_ID rm = rid \<and> valid rid \<and> take 36 rid \<in> us \<and> rmsg_ok cd G rid rm"
    and "asks G mid = Some (rid, ask) \<Longrightarrow> ask_ok cd valid M us G mid rid ask"
    and "prop_of G p mid \<noteq> None \<Longrightarrow> asks G mid \<noteq> None"
    and "agreement_inv M (isis_of G)" and "order_inv M (isis_of G)"
  using assms isis_reach_inv unfolding ghost_ok_def by blast+

lemma ghost_okI:
  assumes "isis_reach M (isis_of G)"
    and "\<And>rid rm. reg G rid = Some rm \<Longrightarrow> r_ID rm = rid \<and> valid rid \<and> take 36 rid \<in> us \<and> rmsg_ok cd G rid rm"
    and "\<And>mid rid ask. asks G mid = Some (rid, ask) \<Longrightarrow> ask_ok cd valid M us G mid rid ask"
    and "\<And>p mid. prop_of G p mid \<noteq> None \<Longrightarrow> asks G mid \<noteq> None"
  shows "ghost_ok cd valid M us G"
  using assms unfolding ghost_ok_def by (intro conjI allI impI; (rule assms(1,3,4); assumption | blast))

lemma rmsg_ok_cong:
  "asks G' = asks G \<Longrightarrow> fin (isis_of G') = fin (isis_of G) \<Longrightarrow> rmsg_ok cd G' = rmsg_ok cd G"
  by (simp add: rmsg_ok_def fun_eq_iff)

lemma ask_ok_cong: "reg G' = reg G \<Longrightarrow> ask_ok cd valid M us G' = ask_ok cd valid M us G"
  by (simp add: ask_ok_def fun_eq_iff)

definition wired :: "string set \<Rightarrow> 'h router \<Rightarrow> string \<Rightarrow> ('b, 'h, 'p) node \<Rightarrow> bool" where
  "wired M tr p nd \<longleftrightarrow>
     SelfNodeID nd = p \<and> members_ok M (bmulticast nd) \<and> b_routes (bmulticast nd)
   \<and> r_routes (rmulticast nd) \<and> t_router (totalOrder nd) = tr"

definition node_inv :: "string set \<Rightarrow> 'b ghost \<Rightarrow> string \<Rightarrow> ('b, 'h, 'p) node \<Rightarrow> bool" where
  "node_inv M G p nd \<longleftrightarrow>
     hold_ok M G p (totalOrder nd)
   \<and> (\<forall>mid k. prop_of G p mid = Some k \<longrightarrow> k \<le> unat (maxProposalSeqNumOfSelf (totalOrder nd)))
   \<and> (\<forall>mid\<in>known_of G p. fst (agr (isis_of G) mid) \<le> unat (maxAgreementSeqNumOfGroup (totalOrder nd)))
   \<and> (\<forall>rid\<in>received (rmulticast nd). reg G rid \<noteq> None)
   \<and> (\<forall>mid rid ask. asks G mid = Some (rid, ask) \<longrightarrow>
        (prop_of G p mid \<noteq> None \<longleftrightarrow> rid \<in> received (rmulticast nd)))
   \<and> (\<forall>v\<in>set (waitVotesChannel (totalOrder nd)). vote_ok M G p v)
   \<and> (\<forall>mid. \<forall>v\<in>set (counter_list (totalOrder nd) mid). vote_ok M G p v \<and> v_MsgID v = mid)"

lemma node_invD:
  assumes "node_inv M G p nd"
  shows "hold_ok M G p (totalOrder nd)"
    and "prop_of G p mid = Some k \<Longrightarrow> k \<le> unat (maxProposalSeqNumOfSelf (totalOrder nd))"
    and "mid \<in> known_of G p \<Longrightarrow> fst (agr (isis_of G) mid) \<le> unat (maxAgreementSeqNumOfGroup (totalOrder nd))"
    and "rid \<in> received (rmulticast nd) \<Longrightarrow> reg G rid \<noteq> None"
    and "asks G mid = Some (rid, ask) \<Longrightarrow> prop_of G p mid \<noteq> None \<longleftrightarrow> rid \<in> received (rmulticast nd)"
    and "v \<in> set (waitVotesChannel (totalOrder nd)) \<Longrightarrow> vote_ok M G p v"
    and "v \<in> set (counter_list (totalOrder nd) mid) \<Longrightarrow> vote_ok M G p v \<and> v_MsgID v = mid"
  using assms unfolding node_inv_def by blast+

lemma node_invI:
  assumes "hold_ok M G p (totalOrder nd)"
    and "\<And>mid k. prop_of G p mid = Some k \<Longrightarrow> k \<le> unat (maxProposalSeqNumOfSelf (totalOrder nd))"
    and "\<And>mid. mid \<in> known_of G p \<Longrightarrow> fst (agr (isis_of G) mid) \<le> unat (maxAgreementSeqNumOfGroup (totalOrder nd))"
    and "\<And>rid. rid \<in> received (rmulticast nd) \<Longrightarrow> reg G rid \<noteq> None"
    and "\<And>mid rid ask. asks G mid = Some (rid, ask) \<Longrightarrow> prop_of G p mid \<noteq> None \<longleftrightarrow> rid \<in> received (rmulticast nd)"
    and "\<And>v. v \<in> set (waitVotesChannel (totalOrder nd)) \<Longrightarrow> vote_ok M G p v"
    and "\<And>v mid. v \<in> set (counter_list (totalOrder nd) mid) \<Longrightarrow> vote_ok M G p v \<and> v_MsgID v = mid"
  shows "node_inv M G p nd"
  unfolding node_inv_def
  by (intro conjI allI ballI impI; (rule assms assms(7) [THEN conjunct1] assms(7) [THEN conjunct2]; assumption))

text \<open>The counters are bounded by the number of steps, so they never wrap.\<close>

definition bounded :: "nat \<Rightarrow> ('b, 'h, 'p) node \<Rightarrow> bool" where
  "bounded n nd \<longleftrightarrow> unat (maxProposalSeqNumOfSelf (totalOrder nd)) \<le> n
     \<and> unat (maxAgreementSeqNumOfGroup (totalOrder nd)) \<le> n"

definition log_ok ::
  "'b codec \<Rightarrow> ('h \<Rightarrow> 'b TOMsg \<Rightarrow> 'p \<Rightarrow> ('p, 'b effect) call) \<Rightarrow> 'h router \<Rightarrow> 'p \<Rightarrow> 'b ghost \<Rightarrow> string \<Rightarrow>
     'p \<Rightarrow> 'b effect list \<Rightarrow> bool" where
  "log_ok cd exec tr p0 G p pr es \<longleftrightarrow>
     delivered es = dlv_of G p
   \<and> replay cd exec tr (map (body_of G) (dlv_of G p)) p0 = Some (pr, printed es)"

definition tokens_ok :: "'b codec \<Rightarrow> string set \<Rightarrow> ('b, 'h, 'p) system \<Rightarrow> 'b ghost \<Rightarrow> bool" where
  "tokens_ok cd M s G \<longleftrightarrow>
     (\<forall>q\<in>M. \<forall>mid rid ask. asks G mid = Some (rid, ask) \<longrightarrow>
        vcount q mid (votes_at cd s (a_SrcID ask) q mid)
          = (if prop_of G q mid \<noteq> None \<and> fin (isis_of G) mid = None then 1 else 0))"

text \<open>
  What makes the group progress. An agreement was announced; a node that got the
  announcement knows the agreement, and delivered what it could; the votes of all members
  for one message are never left waiting; and every message of the reliable layer has been
  received by each member or is on its way to it. \<open>requested\<close> are the messages whose requests
  were written.
\<close>

definition announced :: "'b codec \<Rightarrow> 'b ghost \<Rightarrow> string \<Rightarrow> bool" where
  "announced cd G mid \<longleftrightarrow>
     (\<exists>rid rm ann. reg G rid = Some rm \<and> r_Path rm = AnnounceAgreementSeqPath
        \<and> dec_Announce cd (r_Body rm) = Inr ann \<and> n_MsgID ann = mid)"

definition node_live :: "'b codec \<Rightarrow> string set \<Rightarrow> 'b ghost \<Rightarrow> string \<Rightarrow> ('b, 'h, 'p) node \<Rightarrow> bool" where
  "node_live cd M G p nd \<longleftrightarrow>
     (\<forall>rid rm ann. rid \<in> received (rmulticast nd) \<longrightarrow> reg G rid = Some rm \<longrightarrow> r_Path rm = AnnounceAgreementSeqPath
        \<longrightarrow> dec_Announce cd (r_Body rm) = Inr ann \<longrightarrow> n_MsgID ann \<in> known_of G p)
   \<and> head_open (holdQueue (totalOrder nd))
   \<and> (\<forall>mid. length (counter_list (totalOrder nd) mid) < card M)"

definition arrives :: "'b codec \<Rightarrow> string set \<Rightarrow> ('b, 'h, 'p) system \<Rightarrow> string \<Rightarrow> 'b RMsg \<Rightarrow> bool" where
  "arrives cd M s c rm \<longleftrightarrow>
     r_ID rm \<in> received (rmulticast (nodes s c)) \<or> (\<exists>q\<in>M. \<exists>line\<in>set (chan s q c). r_line cd q rm line)"

definition line_ask :: "'b codec \<Rightarrow> 'b \<Rightarrow> string option" where
  "line_ask cd line =
     (let bm = fst (dec_BMsg cd line) in
      if b_Path bm = RMulticastPath
      then (case dec_RMsg cd (b_Body bm) of
              Inl _ \<Rightarrow> None
            | Inr rm \<Rightarrow>
                if r_Path rm = AskProposalSeqPath
                then (case dec_Ask cd (r_Body rm) of Inl _ \<Rightarrow> None | Inr ask \<Rightarrow> Some (a_MsgID ask))
                else None)
      else None)"

definition requested :: "'b codec \<Rightarrow> string set \<Rightarrow> ('b, 'h, 'p) system \<Rightarrow> string set" where
  "requested cd M s =
     {mid. \<exists>p\<in>M. \<exists>c\<in>M. \<exists>line\<in>set (writes_to c (log s p)). line_ask cd line = Some mid}"

definition live_ok :: "'b codec \<Rightarrow> string set \<Rightarrow> ('b, 'h, 'p) system \<Rightarrow> 'b ghost \<Rightarrow> bool" where
  "live_ok cd M s G \<longleftrightarrow>
     bodies_ok cd G
   \<and> (\<forall>mid. fin (isis_of G) mid \<noteq> None \<longrightarrow> announced cd G mid)
   \<and> (\<forall>p\<in>M. node_live cd M G p (nodes s p))
   \<and> (\<forall>rid rm. reg G rid = Some rm \<longrightarrow> (\<forall>c\<in>M. arrives cd M s c rm))
   \<and> (\<forall>p\<in>M. \<forall>c\<in>M. \<forall>line\<in>set (writes_to c (log s p)). line_ok cd M G p c line)
   \<and> dom (asks G) \<subseteq> requested cd M s
   \<and> finite (dom (reg G)) \<and> finite (dom (asks G))"

definition sys_inv ::
  "'b codec \<Rightarrow> (string \<Rightarrow> bool) \<Rightarrow> ('h \<Rightarrow> 'b TOMsg \<Rightarrow> 'p \<Rightarrow> ('p, 'b effect) call) \<Rightarrow> string set \<Rightarrow> 'h router \<Rightarrow>
     'p \<Rightarrow> nat \<Rightarrow> ('b, 'h, 'p) system \<Rightarrow> 'b ghost \<Rightarrow> bool" where
  "sys_inv cd valid exec M tr p0 n s G \<longleftrightarrow>
     ghost_ok cd valid M (used s) G
   \<and> (\<forall>p\<in>M. wired M tr p (nodes s p) \<and> node_inv M G p (nodes s p) \<and> bounded n (nodes s p)
        \<and> log_ok cd exec tr p0 G p (processor (nodes s p)) (log s p))
   \<and> (\<forall>q\<in>M. \<forall>c\<in>M. \<forall>line\<in>set (chan s q c). line_ok cd M G q c line)
   \<and> tokens_ok cd M s G \<and> live_ok cd M s G"

section \<open>Extending the ghost state\<close>

text \<open>\<open>P\<close> are the nodes whose part of the machine changes.\<close>

definition ext :: "string set \<Rightarrow> 'b ghost \<Rightarrow> 'b ghost \<Rightarrow> bool" where
  "ext P G G' \<longleftrightarrow>
     (\<forall>q. q \<notin> P \<longrightarrow> prop_of G' q = prop_of G q \<and> known_of G' q = known_of G q \<and> dlv_of G' q = dlv_of G q)
   \<and> (\<forall>q. prop_of G q \<subseteq>\<^sub>m prop_of G' q) \<and> fin (isis_of G) \<subseteq>\<^sub>m fin (isis_of G')
   \<and> reg G \<subseteq>\<^sub>m reg G'
   \<and> asks G \<subseteq>\<^sub>m asks G'
   \<and> (\<forall>mid rid ask. asks G mid = None \<longrightarrow> asks G' mid = Some (rid, ask) \<longrightarrow> reg G rid = None)"

lemma map_leD: "m \<subseteq>\<^sub>m m' \<Longrightarrow> m a = Some b \<Longrightarrow> m' a = Some b"
  by (auto simp: map_le_def dom_def)

lemma extD:
  assumes "ext P G G'"
  shows "q \<notin> P \<Longrightarrow> prop_of G' q = prop_of G q" "q \<notin> P \<Longrightarrow> known_of G' q = known_of G q"
    "q \<notin> P \<Longrightarrow> dlv_of G' q = dlv_of G q"
    and "prop_of G q mid = Some k \<Longrightarrow> prop_of G' q mid = Some k"
    and "fin (isis_of G) mid = Some x \<Longrightarrow> fin (isis_of G') mid = Some x"
    and "reg G rid = Some rm \<Longrightarrow> reg G' rid = Some rm"
    and "asks G mid = Some y \<Longrightarrow> asks G' mid = Some y"
    and "asks G mid = None \<Longrightarrow> asks G' mid = Some (rid, ask) \<Longrightarrow> reg G rid = None"
proof -
  note a = assms [unfolded ext_def]
  show "q \<notin> P \<Longrightarrow> prop_of G' q = prop_of G q" "q \<notin> P \<Longrightarrow> known_of G' q = known_of G q"
    "q \<notin> P \<Longrightarrow> dlv_of G' q = dlv_of G q" using a by blast+
  have b: "prop_of G q \<subseteq>\<^sub>m prop_of G' q" "fin (isis_of G) \<subseteq>\<^sub>m fin (isis_of G')" "reg G \<subseteq>\<^sub>m reg G'"
    "asks G \<subseteq>\<^sub>m asks G'" using a by blast+
  show "prop_of G q mid = Some k \<Longrightarrow> prop_of G' q mid = Some k" by (rule map_leD [OF b(1)])
  show "fin (isis_of G) mid = Some x \<Longrightarrow> fin (isis_of G') mid = Some x" by (rule map_leD [OF b(2)])
  show "reg G rid = Some rm \<Longrightarrow> reg G' rid = Some rm" by (rule map_leD [OF b(3)])
  show "asks G mid = Some y \<Longrightarrow> asks G' mid = Some y" by (rule map_leD [OF b(4)])
  show "asks G mid = None \<Longrightarrow> asks G' mid = Some (rid, ask) \<Longrightarrow> reg G rid = None" using a by blast
qed

lemma ext_agr:
  assumes "ext P G G'" "agreement_inv M (isis_of G)" "mid \<in> known_of G q"
  shows "agr (isis_of G') mid = agr (isis_of G) mid"
  using agreement_invD(4) [OF assms(2,3)] extD(5) [OF assms(1), of mid] by (auto simp: agr_def)

lemma vote_ok_ext: "ext P G G' \<Longrightarrow> vote_ok M G c v \<Longrightarrow> vote_ok M G' c v"
  unfolding vote_ok_def using extD(4,7) by metis

lemma line_ok_ext: "ext P G G' \<Longrightarrow> line_ok cd M G q c line \<Longrightarrow> line_ok cd M G' q c line"
  unfolding line_ok_def using extD(6) vote_ok_ext by metis

lemma hold_ok_ext:
  assumes e: "ext P G G'" and i: "agreement_inv M (isis_of G)" and q: "q \<notin> P" and h: "hold_ok M G q t"
  shows "hold_ok M G' q t"
proof (rule hold_okI)
  note D = hold_okD [OF h] and E = extD(1-3) [OF e q]
  show "pq_heap (holdQueue t)" by (rule D(1))
  show "(holdQueueMap t mid = Some a) = (\<exists>x. pq_view (holdQueue t) a = Some x \<and> msgID x = mid)" for mid a
    by (rule D(2))
  show "mid \<in> set (dlv_of G' q) \<or> holdQueueMap t mid \<noteq> None" if "prop_of G' q mid \<noteq> None" for mid
    using D(4) [of mid] that E by simp
  fix a x assume "pq_view (holdQueue t) a = Some x"
  then have x: "item_ok M G q x" by (rule D(3))
  then obtain rid ask where "asks G (msgID x) = Some (rid, ask)" by (auto simp: item_ok_def)
  with extD(7) [OF e this] x ext_agr [OF e i, of "msgID x" q]
  show "item_ok M G' q x" unfolding item_ok_def E by (cases "agreed x") simp_all
qed

lemma node_inv_ext:
  assumes e: "ext P G G'" and g: "ghost_ok cd valid M us G" and q: "q \<notin> P" and h: "node_inv M G q nd"
  shows "node_inv M G' q nd"
proof (rule node_invI)
  note D = node_invD [OF h] and E = extD(1-3) [OF e q] and i = ghost_okD(5) [OF g]
  show "hold_ok M G' q (totalOrder nd)" using hold_ok_ext [OF e i q D(1)] .
  show "k \<le> unat (maxProposalSeqNumOfSelf (totalOrder nd))" if "prop_of G' q mid = Some k" for mid k
    using D(2) that E by simp
  show "fst (agr (isis_of G') mid) \<le> unat (maxAgreementSeqNumOfGroup (totalOrder nd))"
    if "mid \<in> known_of G' q" for mid
    using that D(3) [of mid] ext_agr [OF e i, of mid q] E by simp
  show "reg G' rid \<noteq> None" if "rid \<in> received (rmulticast nd)" for rid
    using D(4) [OF that] extD(6) [OF e, of rid] by auto
  show "prop_of G' q mid \<noteq> None \<longleftrightarrow> rid \<in> received (rmulticast nd)" if "asks G' mid = Some (rid, ask)" for mid rid ask
  proof (cases "asks G mid")
    case None
    then have "reg G rid = None" using extD(8) [OF e] that by blast
    then show ?thesis using D(4) [of rid] ghost_okD(4) [OF g, of q mid] None E by auto
  next
    case (Some y)
    then have "asks G mid = Some (rid, ask)" using extD(7) [OF e Some] that by simp
    then show ?thesis using D(5) E by simp
  qed
  show "vote_ok M G' q v" if "v \<in> set (waitVotesChannel (totalOrder nd))" for v
    using vote_ok_ext [OF e D(6) [OF that]] .
  show "vote_ok M G' q v \<and> v_MsgID v = mid" if "v \<in> set (counter_list (totalOrder nd) mid)" for v mid
    using vote_ok_ext [OF e] D(7) [OF that] by blast
qed

lemma log_ok_ext:
  assumes e: "ext P G G'" and g: "ghost_ok cd valid M us G" and q: "q \<notin> P" "q \<in> M"
    and h: "log_ok cd exec tr p0 G q pr es"
  shows "log_ok cd exec tr p0 G' q pr es"
proof -
  have "body_of G' mid = body_of G mid" if "mid \<in> set (dlv_of G q)" for mid
  proof -
    have "mid \<in> known_of G q" using that order_invD(1) [OF ghost_okD(6) [OF g] q(2)] by auto
    then have "prop_of G q mid \<noteq> None"
      using agreement_invD(4) [OF ghost_okD(5) [OF g]] agreement_invD(2) [OF ghost_okD(5) [OF g] _ q(2)] by blast
    then obtain y where "asks G mid = Some y" using ghost_okD(4) [OF g] by blast
    then show ?thesis using extD(7) [OF e] by (simp add: body_of_def)
  qed
  then have "map (body_of G') (dlv_of G q) = map (body_of G) (dlv_of G q)" by simp
  then show ?thesis using h extD(3) [OF e q(1)] by (simp add: log_ok_def del: map_eq_conv)
qed

section \<open>Progress\<close>

lemma live_okD:
  assumes "live_ok cd M s G"
  shows "bodies_ok cd G" and "fin (isis_of G) mid \<noteq> None \<Longrightarrow> announced cd G mid"
    and "p \<in> M \<Longrightarrow> node_live cd M G p (nodes s p)"
    and "reg G rid = Some rm \<Longrightarrow> c \<in> M \<Longrightarrow> arrives cd M s c rm"
    and "p \<in> M \<Longrightarrow> c \<in> M \<Longrightarrow> line \<in> set (writes_to c (log s p)) \<Longrightarrow> line_ok cd M G p c line"
    and "dom (asks G) \<subseteq> requested cd M s" and "finite (dom (reg G))" "finite (dom (asks G))"
  using assms unfolding live_ok_def by blast+

lemma announced_ext: "ext P G G' \<Longrightarrow> announced cd G mid \<Longrightarrow> announced cd G' mid"
  unfolding announced_def using extD(6) by metis

lemma node_live_ext:
  assumes "ext P G G'" "q \<notin> P" "node_inv M G q nd" "node_live cd M G q nd"
  shows "node_live cd M G' q nd"
proof -
  have "reg G' rid = reg G rid" if "rid \<in> received (rmulticast nd)" for rid
    using node_invD(4) [OF assms(3) that] extD(6) [OF assms(1)] by (metis not_Some_eq)
  then show ?thesis using assms(4) extD(2) [OF assms(1,2)] unfolding node_live_def by simp
qed

lemma node_live_counter: "node_live cd M G p nd \<Longrightarrow> length (counter_list (totalOrder nd) mid) < card M"
  and node_live_head: "node_live cd M G p nd \<Longrightarrow> head_open (holdQueue (totalOrder nd))"
  by (auto simp: node_live_def)

text \<open>A run of a handler keeps the group alive.\<close>

lemma live_commit:
  assumes live: "live_ok cd M s G" and p: "p \<in> M"
    and nodes: "\<And>q. q \<in> M \<Longrightarrow> node_inv M G q (nodes s q)"
    and s1: "nodes s1 = nodes s" "log s1 = log s"
    and e: "ext P G G'" "P \<subseteq> {p}"
    and fin: "\<And>mid. fin (isis_of G') mid \<noteq> None \<Longrightarrow> fin (isis_of G) mid \<noteq> None \<or> announced cd G' mid"
    and nd: "node_live cd M G' p nd" "received (rmulticast (nodes s p)) \<subseteq> received (rmulticast nd)"
    and bd: "bodies_ok cd G'" and fd: "finite (dom (reg G'))" "finite (dom (asks G'))"
    and ls: "\<And>c line. c \<in> M \<Longrightarrow> line \<in> set (writes_to c es) \<Longrightarrow> line_ok cd M G' p c line"
    and new: "\<And>rid rm c. reg G' rid = Some rm \<Longrightarrow> reg G rid = None \<Longrightarrow> c \<in> M \<Longrightarrow>
        \<exists>line\<in>set (writes_to c es). r_line cd p rm line"
    and asked: "\<And>mid. mid \<in> dom (asks G') \<Longrightarrow> mid \<notin> dom (asks G) \<Longrightarrow>
        \<exists>c\<in>M. \<exists>line\<in>set (writes_to c es). line_ask cd line = Some mid"
    and taken: "\<And>q rm line c. q \<in> M \<Longrightarrow> line \<in> set (chan s q c) \<Longrightarrow> r_line cd q rm line \<Longrightarrow>
        line \<in> set (chan s1 q c) \<or> c = p \<and> r_ID rm \<in> received (rmulticast nd)"
  shows "live_ok cd M (commit p us nd es s1) G'"
proof -
  let ?s = "commit p us nd es s1"
  note L = live_okD [OF live]
  have nds: "nodes ?s q = (if q = p then nd else nodes s q)" for q by (simp add: commit_def s1)
  have log: "log ?s q = (if q = p then log s p @ es else log s q)" for q by (simp add: commit_def s1)
  have ch: "set (chan ?s q c) = set (chan s1 q c) \<union> (if q = p then set (writes_to c es) else {})" for q c
    by (simp add: commit_def)
  have "node_live cd M G' q (nodes ?s q)" if "q \<in> M" for q
    using nd(1) node_live_ext [OF e(1) _ nodes [OF that] L(3) [OF that]] e(2) nds by (cases "q = p") auto
  moreover have "arrives cd M ?s c rm" if r: "reg G' rid = Some rm" and c: "c \<in> M" for rid rm c
  proof (cases "reg G rid")
    case None
    then show ?thesis using new [OF r None c] p ch by (auto simp: arrives_def)
  next
    case (Some rm')
    then have "rm' = rm" using extD(6) [OF e(1) Some] r by simp
    with L(4) [OF Some c] consider "r_ID rm \<in> received (rmulticast (nodes s c))"
      | q line where "q \<in> M" "line \<in> set (chan s q c)" "r_line cd q rm line" by (auto simp: arrives_def)
    then show ?thesis
    proof cases
      case 1
      then show ?thesis using nd(2) nds by (cases "c = p") (auto simp: arrives_def)
    next
      case 2
      from taken [OF this] 2 show ?thesis unfolding arrives_def ch nds by auto
    qed
  qed
  moreover have "line_ok cd M G' q c line" if "q \<in> M" "c \<in> M" "line \<in> set (writes_to c (log ?s q))" for q c line
    using that L(5) [OF that(1,2)] line_ok_ext [OF e(1)] ls [OF that(2)] log by (auto split: if_splits)
  moreover have "dom (asks G') \<subseteq> requested cd M ?s"
  proof
    fix mid assume "mid \<in> dom (asks G')"
    then consider "mid \<in> dom (asks G)" | "\<exists>c\<in>M. \<exists>line\<in>set (writes_to c es). line_ask cd line = Some mid"
      using asked by blast
    then show "mid \<in> requested cd M ?s"
    proof cases
      case 1
      then have "mid \<in> requested cd M s" using L(6) by blast
      then obtain q c line where "q \<in> M" "c \<in> M" "line \<in> set (writes_to c (log s q))" "line_ask cd line = Some mid"
        by (auto simp: requested_def)
      moreover from this have "line \<in> set (writes_to c (log ?s q))" using log [of q] by auto
      ultimately show ?thesis unfolding requested_def by blast
    next
      case 2
      then obtain c line where "c \<in> M" "line \<in> set (writes_to c es)" "line_ask cd line = Some mid" by blast
      moreover from this have "line \<in> set (writes_to c (log ?s p))" using log [of p] by simp
      ultimately show ?thesis unfolding requested_def using p by blast
    qed
  qed
  moreover have "announced cd G' mid" if "fin (isis_of G') mid \<noteq> None" for mid
    using fin [OF that] L(2) announced_ext [OF e(1)] by blast
  ultimately show ?thesis using bd fd unfolding live_ok_def by blast
qed

end
