(* ===== verification/Work_Left.thy ===== *)
theory Work_Left
  imports Cluster_Inv
begin

text \<open>
  How much a group still has to do when no more messages are multicast: a bound on the turns
  it takes before it is at rest. Each line in flight, each waiting vote, each message that a
  member has yet to receive and each agreement yet to come stands for the turns it causes.
\<close>

section \<open>Lines that a turn writes\<close>

lemma writes_to_multicast:
  assumes "calm M e" "z \<in> set (writes_to c (map (\<lambda>d. Write d x) (env_order e)))"
  shows "z = x"
proof -
  have "distinct (env_order e)" using assms(1) unfolding calm_def by blast
  then show ?thesis using assms(2) writes_to_all [of "env_order e" c x] by (cases "c \<in> set (env_order e)") auto
qed

lemma take_line_simps [simp]:
  "nodes (take_line q p s) = nodes s" "used (take_line q p s) = used s" "log (take_line q p s) = log s"
  by (simp_all add: take_line_def)

lemma writes_to_members:
  assumes "calm M e" "c \<in> M"
  shows "x \<in> set (writes_to c (map (\<lambda>d. Write d x) (env_order e)))"
  using assms writes_to_all [of "env_order e" c x] by (simp add: calm_def)

text \<open>What a relay writes: nothing, or one line of the reliable layer to each member.\<close>

definition relay :: "bool \<Rightarrow> env \<Rightarrow> 'b \<Rightarrow> 'b effect list" where
  "relay b e x = (if b then map (\<lambda>d. Write d x) (env_order e) else [])"

lemma relay_simps [simp]: "delivered (relay b e x) = []" "printed (relay b e x) = []"
  by (simp_all add: relay_def)

lemma relay_writes: "calm M e \<Longrightarrow> line \<in> set (writes_to c (relay b e x)) \<Longrightarrow> line = x"
  using writes_to_multicast [of M e line c x] by (cases b) (simp_all add: relay_def)

lemma relay_votes:
  "calm M e \<Longrightarrow> r_line cd p rm x \<Longrightarrow> concat (map (line_vote cd) (writes_to c (relay b e x))) = []"
  using relay_writes [of M e _ c b x] line_vote_r [of cd p rm x] by auto


section \<open>The measure\<close>

definition line_work :: "'b codec \<Rightarrow> 'b \<Rightarrow> nat" where
  "line_work cd line = (if line_vote cd line = [] then 1 else 2)"

definition lines_work :: "'b codec \<Rightarrow> string set \<Rightarrow> ('b, 'h, 'p) system \<Rightarrow> nat" where
  "lines_work cd M s = (\<Sum>q\<in>M. \<Sum>c\<in>M. sum_list (map (line_work cd) (chan s q c)))"

definition votes_work :: "string set \<Rightarrow> ('b, 'h, 'p) system \<Rightarrow> nat" where
  "votes_work M s = (\<Sum>p\<in>M. length (waitVotesChannel (totalOrder (nodes s p))))"

text \<open>Receiving a message: its relay and, for a request, the reply and its vote.\<close>

definition rmsg_work :: "string set \<Rightarrow> 'b RMsg \<Rightarrow> nat" where
  "rmsg_work M rm = card M + (if r_Path rm = AskProposalSeqPath then 2 else 0)"

definition receive_work :: "string set \<Rightarrow> ('b, 'h, 'p) system \<Rightarrow> 'b ghost \<Rightarrow> nat" where
  "receive_work M s G =
     (\<Sum>rid\<in>dom (reg G). \<Sum>p\<in>M. if rid \<in> received (rmulticast (nodes s p)) then 0 else rmsg_work M (the (reg G rid)))"

text \<open>An agreement yet to come: its announcement is written to all, and relayed by all.\<close>

definition agree_work :: "string set \<Rightarrow> 'b ghost \<Rightarrow> nat" where
  "agree_work M G = card {mid \<in> dom (asks G). fin (isis_of G) mid = None} * (card M + card M * card M)"

definition work :: "'b codec \<Rightarrow> string set \<Rightarrow> ('b, 'h, 'p) system \<Rightarrow> 'b ghost \<Rightarrow> nat" where
  "work cd M s G = lines_work cd M s + votes_work M s + receive_work M s G + agree_work M G"

text \<open>The turns that one message causes, at most.\<close>

definition message_work :: "string set \<Rightarrow> nat" where
  "message_work M = 2 * card M * card M + 4 * card M"

section \<open>Lines\<close>

lemma lines_work_commit:
  assumes "finite M" "p \<in> M"
  shows "lines_work cd M (commit p us nd es s)
    = lines_work cd M s + (\<Sum>c\<in>M. sum_list (map (line_work cd) (writes_to c es)))"
proof -
  let ?w = "\<lambda>q c. sum_list (map (line_work cd) (chan s q c))"
  let ?e = "\<Sum>c\<in>M. sum_list (map (line_work cd) (writes_to c es))"
  have "(\<Sum>c\<in>M. sum_list (map (line_work cd) (chan (commit p us nd es s) q c)))
      = (\<Sum>c\<in>M. ?w q c) + (if q = p then ?e else 0)" for q
    by (simp add: commit_def sum.distrib)
  then show ?thesis using assms by (simp add: lines_work_def sum.distrib)
qed

lemma lines_work_take:
  assumes "finite M" "q \<in> M" "p \<in> M" "chan s q p = line # rest"
  shows "lines_work cd M s = lines_work cd M (take_line q p s) + line_work cd line"
proof -
  let ?w = "\<lambda>a c. sum_list (map (line_work cd) (chan (take_line q p s) a c))"
  have "sum_list (map (line_work cd) (chan s a c)) = ?w a c + (if a = q then (if c = p then line_work cd line else 0) else 0)" for a c
    using assms(4) by (simp add: take_line_def)
  moreover have "(\<Sum>c\<in>M. if a = q then (if c = p then line_work cd line else 0) else 0) = (if a = q then line_work cd line else 0)" for a
    using assms(1,3) by simp
  ultimately show ?thesis using assms(1,2) by (simp add: lines_work_def sum.distrib)
qed

lemma line_work_r: "r_line cd q rm line \<Longrightarrow> line_work cd line = 1"
  and line_work_reply: "reply_line cd q rep line \<Longrightarrow> line_work cd line = 2"
  by (simp_all add: line_work_def line_vote_r line_vote_reply)

lemma multicast_work:
  assumes "calm M e" "finite M" "r_line cd p rm x"
  shows "(\<Sum>c\<in>M. sum_list (map (line_work cd) (writes_to c (map (\<lambda>d. Write d x) (env_order e))))) = card M"
  using assms(1,2) writes_to_all [of "env_order e" _ x] by (simp add: calm_def line_work_r [OF assms(3)])

lemma relay_work:
  assumes "calm M e" "finite M" "r_line cd p rm x"
  shows "(\<Sum>c\<in>M. sum_list (map (line_work cd) (writes_to c (relay b e x @ es))))
    \<le> card M + (\<Sum>c\<in>M. sum_list (map (line_work cd) (writes_to c es)))"
  using multicast_work [OF assms] by (simp add: relay_def sum.distrib)

lemma reply_work:
  assumes "finite M" "d \<in> M" "reply_line cd p rep y"
  shows "(\<Sum>c\<in>M. sum_list (map (line_work cd) (writes_to c [Write d y]))) = 2"
proof -
  have "sum_list (map (line_work cd) (writes_to c [Write d y])) = (if c = d then 2 else 0)" for c
    by (simp add: line_work_reply [OF assms(3)])
  then show ?thesis using assms(1,2) by simp
qed

section \<open>Votes, receipts and agreements\<close>

lemma votes_work_commit:
  assumes "finite M" "p \<in> M" "nodes s1 = nodes s"
  shows "votes_work M (commit p us nd es s1) + length (waitVotesChannel (totalOrder (nodes s p)))
    = votes_work M s + length (waitVotesChannel (totalOrder nd))"
  using assms by (simp add: votes_work_def commit_def sum.remove [OF assms(1,2)])

lemma receive_work_same:
  assumes "received (rmulticast nd) = received (rmulticast (nodes s p))" "nodes s1 = nodes s" "reg G' = reg G"
  shows "receive_work M (commit p us nd es s1) G' = receive_work M s G"
  unfolding receive_work_def assms(3) by (intro sum.cong refl) (simp add: commit_def assms(1,2))

lemma receive_work_insert:
  assumes fin: "finite M" "finite (dom (reg G))" and p: "p \<in> M" and s1: "nodes s1 = nodes s" and reg: "reg G' = reg G"
    and rm: "reg G rid = Some rm" "rid \<notin> received (rmulticast (nodes s p))"
      "received (rmulticast nd) = insert rid (received (rmulticast (nodes s p)))"
  shows "receive_work M s G = receive_work M (commit p us nd es s1) G' + rmsg_work M rm"
proof -
  let ?s = "commit p us nd es s1"
  let ?u = "\<lambda>s r c. if r \<in> received (rmulticast (nodes s c)) then 0 else rmsg_work M (the (reg G r))"
  have "?u s r c = ?u ?s r c + (if r = rid then (if c = p then rmsg_work M rm else 0) else 0)" for r c
    using rm by (simp add: commit_def s1)
  moreover have "(\<Sum>c\<in>M. if r = rid then (if c = p then rmsg_work M rm else 0) else 0) = (if r = rid then rmsg_work M rm else 0)" for r
    using fin(1) p by simp
  ultimately have "(\<Sum>c\<in>M. ?u s r c) = (\<Sum>c\<in>M. ?u ?s r c) + (if r = rid then rmsg_work M rm else 0)" for r
    by (simp only: sum.distrib)
  then show ?thesis using fin(2) rm(1) unfolding receive_work_def reg by (simp only: sum.distrib) auto
qed

lemma receive_work_new:
  assumes fin: "finite (dom (reg G))" and s1: "nodes s1 = nodes s"
    and nd: "received (rmulticast nd) = received (rmulticast (nodes s p))"
    and reg: "reg G' = (reg G)(rid \<mapsto> rm)" "reg G rid = None"
    and no: "\<And>c. c \<in> M \<Longrightarrow> rid \<notin> received (rmulticast (nodes s c))"
  shows "receive_work M (commit p us nd es s1) G' = receive_work M s G + card M * rmsg_work M rm"
proof -
  let ?s = "commit p us nd es s1"
  have d: "dom (reg G') = insert rid (dom (reg G))" "rid \<notin> dom (reg G)" using reg by auto
  have rc: "received (rmulticast (nodes ?s c)) = received (rmulticast (nodes s c))" for c
    by (simp add: commit_def s1 nd)
  have "(\<Sum>c\<in>M. if rid \<in> received (rmulticast (nodes ?s c)) then 0 else rmsg_work M (the (reg G' rid))) = card M * rmsg_work M rm"
    using no by (simp add: rc reg(1))
  moreover have "(\<Sum>r\<in>dom (reg G). \<Sum>c\<in>M. if r \<in> received (rmulticast (nodes ?s c)) then 0 else rmsg_work M (the (reg G' r)))
      = receive_work M s G"
    unfolding receive_work_def rc using d(2) by (intro sum.cong refl) (auto simp: reg(1))
  ultimately show ?thesis
    unfolding receive_work_def d(1) using fin d(2) by simp
qed

lemma agree_work_cong: "asks G' = asks G \<Longrightarrow> fin (isis_of G') = fin (isis_of G) \<Longrightarrow> agree_work M G' = agree_work M G"
  by (simp add: agree_work_def)

lemma agree_work_asked:
  assumes "finite (dom (asks G))" "asks G' = (asks G)(mid \<mapsto> y)" "asks G mid = None"
    "fin (isis_of G') = fin (isis_of G)" "fin (isis_of G) mid = None"
  shows "agree_work M G' = agree_work M G + (card M + card M * card M)"
proof -
  have "{m \<in> dom (asks G'). fin (isis_of G') m = None} = insert mid {m \<in> dom (asks G). fin (isis_of G) m = None}"
    using assms(2,4,5) by auto
  moreover have "mid \<notin> dom (asks G)" using assms(3) by auto
  ultimately show ?thesis using assms(1) by (simp add: agree_work_def)
qed

lemma agree_work_agreed:
  assumes "finite (dom (asks G))" "asks G' = asks G" "asks G mid = Some y"
    "fin (isis_of G') = (fin (isis_of G))(mid \<mapsto> z)" "fin (isis_of G) mid = None"
  shows "agree_work M G = agree_work M G' + (card M + card M * card M)"
proof -
  have "{m \<in> dom (asks G). fin (isis_of G) m = None} = insert mid {m \<in> dom (asks G'). fin (isis_of G') m = None}"
    using assms by auto
  moreover have "mid \<notin> {m \<in> dom (asks G'). fin (isis_of G') m = None}" using assms(4) by simp
  moreover have "finite {m \<in> dom (asks G'). fin (isis_of G') m = None}" using assms(1,2) by simp
  ultimately show ?thesis by (simp add: agree_work_def)
qed

section \<open>Turns spend work\<close>

definition spends :: "'b codec \<Rightarrow> string set \<Rightarrow> ('b, 'h, 'p) system \<Rightarrow> 'b ghost \<Rightarrow> ('b, 'h, 'p) system \<Rightarrow> 'b ghost \<Rightarrow> bool" where
  "spends cd M s G s' G' \<longleftrightarrow> work cd M s' G' < work cd M s G \<and> dom (asks G') = dom (asks G)"

definition affords :: "'b codec \<Rightarrow> string set \<Rightarrow> ('b, 'h, 'p) system \<Rightarrow> 'b ghost \<Rightarrow> ('b, 'h, 'p) system \<Rightarrow> 'b ghost \<Rightarrow> bool" where
  "affords cd M s G s' G' \<longleftrightarrow>
     work cd M s' G' + card (dom (asks G)) * message_work M \<le> work cd M s G + card (dom (asks G')) * message_work M"

lemma spends_affords: "spends cd M s G s' G' \<Longrightarrow> affords cd M s G s' G'"
  by (simp add: spends_def affords_def)

lemma idle_work:
  assumes "finite M" "p \<in> M" "nodes s1 = nodes s"
  shows "work cd M (commit p us (nodes s p) [] s1) G + lines_work cd M s = work cd M s G + lines_work cd M s1"
  using votes_work_commit [OF assms, of us "nodes s p" "[]"] receive_work_same [OF refl assms(3) refl, of M p us "[]" G]
  by (simp add: work_def lines_work_commit [OF assms(1,2)])

end
