(* ===== verification/Cluster_Sim.thy ===== *)
theory Cluster_Sim
  imports Work_Left
begin

text \<open>
  Every step of a failure-free group is a sequence of steps of the abstract ISIS machine:
  the invariant of \<open>Cluster_Inv\<close> holds in every state of a run of less than \<open>2 ^ 64\<close> steps.
\<close>

section \<open>Committing a handler run\<close>

lemma sys_inv_commit:
  assumes inv: "sys_inv cd valid exec M tr p0 n s G" and p: "p \<in> M"
    and s1: "nodes s1 = nodes s" "used s1 = used s" "log s1 = log s" "\<And>q c. set (chan s1 q c) \<subseteq> set (chan s q c)"
    and e: "ext P G G'" and P: "P \<subseteq> {p}"
    and g: "ghost_ok cd valid M (used s \<union> us) G'"
    and nd: "wired M tr p nd" "node_inv M G' p nd" "bounded (Suc n) nd"
    and lg: "log_ok cd exec tr p0 G' p (processor nd) (log s p @ es)"
    and ls: "\<And>c line. c \<in> M \<Longrightarrow> line \<in> set (writes_to c es) \<Longrightarrow> line_ok cd M G' p c line"
    and tk: "tokens_ok cd M (commit p us nd es s1) G'"
    and lv: "live_ok cd M (commit p us nd es s1) G'"
  shows "sys_inv cd valid exec M tr p0 (Suc n) (commit p us nd es s1) G'"
proof -
  let ?s = "commit p us nd es s1"
  have g0: "ghost_ok cd valid M (used s) G" using inv by (simp add: sys_inv_def)
  have "wired M tr q (nodes ?s q) \<and> node_inv M G' q (nodes ?s q) \<and> bounded (Suc n) (nodes ?s q)
        \<and> log_ok cd exec tr p0 G' q (processor (nodes ?s q)) (log ?s q)" if q: "q \<in> M" for q
  proof (cases "q = p")
    case True
    then show ?thesis using nd lg s1(3) by (simp add: commit_def)
  next
    case False
    then have qP: "q \<notin> P" using P by auto
    have I: "wired M tr q (nodes s q)" "node_inv M G q (nodes s q)" "bounded n (nodes s q)"
      "log_ok cd exec tr p0 G q (processor (nodes s q)) (log s q)"
      using inv q by (simp_all add: sys_inv_def)
    then have "bounded (Suc n) (nodes s q)" by (simp add: bounded_def)
    then show ?thesis
      using I(1) node_inv_ext [OF e g0 qP I(2)] log_ok_ext [OF e g0 qP q I(4)] False s1
      by (simp add: commit_def)
  qed
  moreover have "line_ok cd M G' q c line" if "q \<in> M" "c \<in> M" "line \<in> set (chan ?s q c)" for q c line
  proof (cases "line \<in> set (chan s1 q c)")
    case True
    then have "line \<in> set (chan s q c)" using s1(4) by blast
    then have "line_ok cd M G q c line" using inv that(1,2) unfolding sys_inv_def by blast
    then show ?thesis by (rule line_ok_ext [OF e])
  next
    case False
    then have "q = p" "line \<in> set (writes_to c es)"
      using that(3) by (auto simp: commit_def split: if_splits)
    then show ?thesis using ls that(2) by simp
  qed
  ultimately show ?thesis
    using g tk lv s1(2) unfolding sys_inv_def by (simp add: commit_def)
qed

lemma sys_invD:
  assumes "sys_inv cd valid exec M tr p0 n s G"
  shows "ghost_ok cd valid M (used s) G"
    and "p \<in> M \<Longrightarrow> wired M tr p (nodes s p)" "p \<in> M \<Longrightarrow> node_inv M G p (nodes s p)"
    and "p \<in> M \<Longrightarrow> bounded n (nodes s p)"
    and "p \<in> M \<Longrightarrow> log_ok cd exec tr p0 G p (processor (nodes s p)) (log s p)"
    and "q \<in> M \<Longrightarrow> c \<in> M \<Longrightarrow> line \<in> set (chan s q c) \<Longrightarrow> line_ok cd M G q c line"
    and "tokens_ok cd M s G" and "live_ok cd M s G"
  using assms unfolding sys_inv_def by blast+

lemma tokens_okD:
  "tokens_ok cd M s G \<Longrightarrow> q \<in> M \<Longrightarrow> asks G mid = Some (rid, ask) \<Longrightarrow>
     vcount q mid (votes_at cd s (a_SrcID ask) q mid)
       = (if prop_of G q mid \<noteq> None \<and> fin (isis_of G) mid = None then 1 else 0)"
  unfolding tokens_ok_def by blast

text \<open>A vote stands for a message that was asked for.\<close>

lemma vote_ok_asked: "vote_ok M G c v \<Longrightarrow> \<exists>rid ask. asks G (v_MsgID v) = Some (rid, ask)"
  by (auto simp: vote_ok_def)

lemma line_vote_ok:
  assumes "line_ok cd M G q c line" "v \<in> set (line_vote cd line)"
  shows "vote_ok M G c v" "v_ProcessID v = q"
  using assms by (auto simp: line_ok_def line_vote_r line_vote_reply vote_of_def)

lemma votes_at_ok:
  assumes inv: "sys_inv cd valid exec M tr p0 n s G" and qc: "q \<in> M" "c \<in> M"
    and v: "v \<in> set (votes_at cd s c q mid)"
  shows "vote_ok M G c v"
proof -
  have nd: "node_inv M G c (nodes s c)" using sys_invD(3) [OF inv qc(2)] .
  from v consider (line) line where "line \<in> set (chan s q c)" "v \<in> set (line_vote cd line)"
    | (wait) "v \<in> set (waitVotesChannel (totalOrder (nodes s c)))"
    | (counter) "v \<in> set (counter_list (totalOrder (nodes s c)) mid)"
    by (auto simp: votes_at_def)
  then show ?thesis
  proof cases
    case line
    show ?thesis by (rule line_vote_ok(1) [OF sys_invD(6) [OF inv qc line(1)] line(2)])
  qed (use node_invD(6,7) [OF nd] in blast)+
qed

text \<open>Lines of the reliable layer carry no votes.\<close>

lemma votes_commit_r:
  assumes "\<forall>c. \<forall>line\<in>set (writes_to c es). line_vote cd line = []"
    and "waitVotesChannel (totalOrder nd) = waitVotesChannel (totalOrder (nodes s p))"
    and "counter_list (totalOrder nd) = counter_list (totalOrder (nodes s p))"
  shows "votes_at cd (commit p us nd es s) c q mid = votes_at cd s c q mid"
proof -
  have "concat (map (line_vote cd) (writes_to c es)) = []" for c using assms(1) by simp
  then show ?thesis using assms(2,3) by (simp add: votes_at_def commit_def)
qed

lemma ext_refl [simp]: "ext P G G"
  by (auto simp: ext_def)

lemma take_line_subset: "set (chan (take_line q p s) a b) \<subseteq> set (chan s a b)"
  by (cases "chan s q p") (auto simp: take_line_def)

lemma take_line_rest:
  assumes "chan s q p = line # rest" "l \<in> set (chan s a c)"
  shows "l \<in> set (chan (take_line q p s) a c) \<or> a = q \<and> c = p \<and> l = line"
  using assms by (cases "a = q \<and> c = p") (auto simp: take_line_def)

lemma r_line_unique: "r_line cd q rm line \<Longrightarrow> r_line cd q' rm' line \<Longrightarrow> rm = rm'"
  by (auto simp: r_line_def)

lemma reply_not_r: "reply_line cd q rep line \<Longrightarrow> \<not> r_line cd q' rm line"
  by (auto simp: r_line_def reply_line_def)

text \<open>The line that was taken was received.\<close>

lemma taken_received:
  assumes "chan s q p = line # rest" "r_line cd q rm line" "r_ID rm \<in> rs"
    and "l \<in> set (chan s a c)" "r_line cd a rm' l"
  shows "l \<in> set (chan (take_line q p s) a c) \<or> c = p \<and> r_ID rm' \<in> rs"
  using take_line_rest [OF assms(1,4)] r_line_unique [OF assms(2)] assms(3,5) by blast

lemma line_ask_r:
  "r_line cd q rm line \<Longrightarrow> r_Path rm = AskProposalSeqPath \<Longrightarrow> dec_Ask cd (r_Body rm) = Inr ask \<Longrightarrow>
     line_ask cd line = Some (a_MsgID ask)"
  by (auto simp: line_ask_def r_line_def)

section \<open>Fresh uuids\<close>

lemma take_36_append: "length u = 36 \<Longrightarrow> take 36 (u @ x) = u"
  by simp

lemma ghost_ok_used: "ghost_ok cd valid M us G \<Longrightarrow> us \<subseteq> us' \<Longrightarrow> ghost_ok cd valid M us' G"
  unfolding ghost_ok_def ask_ok_def by blast

lemma tokens_same:
  assumes "tokens_ok cd M s G" "\<And>c q mid. votes_at cd s' c q mid = votes_at cd s c q mid"
  shows "tokens_ok cd M s' G"
  using assms unfolding tokens_ok_def by simp

lemma log_ok_quiet:
  "log_ok cd exec tr p0 G p pr es \<Longrightarrow> delivered es' = [] \<Longrightarrow> printed es' = [] \<Longrightarrow> log_ok cd exec tr p0 G p pr (es @ es')"
  by (simp add: log_ok_def)

lemma bounded_Suc: "bounded n nd \<Longrightarrow> bounded (Suc n) nd"
  by (simp add: bounded_def)

lemma tokens_vcount:
  assumes "tokens_ok cd M s G" "\<And>c q mid. vcount q mid (votes_at cd s' c q mid) = vcount q mid (votes_at cd s c q mid)"
  shows "tokens_ok cd M s' G"
  using assms unfolding tokens_ok_def by simp

lemma votes_take_r:
  assumes "chan s q p = line # rest" "line_vote cd line = []"
  shows "votes_at cd (take_line q p s) c q' mid = votes_at cd s c q' mid"
  using assms by (simp add: votes_at_def take_line_def)

lemma vcount_commit:
  assumes "waitVotesChannel (totalOrder nd) = waitVotesChannel (totalOrder (nodes s p))"
    and "counter_list (totalOrder nd) = counter_list (totalOrder (nodes s p))"
  shows "vcount q m (votes_at cd (commit p us nd es s) c q m) = vcount q m (votes_at cd s c q m)
     + (if q = p then vcount q m (concat (map (line_vote cd) (writes_to c es))) else 0)"
  using assms by (simp add: votes_at_def commit_def)

lemma unat_next: "unat (x :: uint64) < 2 ^ 64 - 1 \<Longrightarrow> unat (x + 1) = unat x + 1"
  by (simp add: unat_word_ariths)

lemma counter_list_hold_message [simp]:
  "counter_list (hold_message ask seq t) = counter_list t"
  "waitVotesChannel (hold_message ask seq t) = waitVotesChannel t"
  "maxProposalSeqNumOfSelf (hold_message ask seq t) = maxProposalSeqNumOfSelf t"
  "maxAgreementSeqNumOfGroup (hold_message ask seq t) = maxAgreementSeqNumOfGroup t"
  "t_router (hold_message ask seq t) = t_router t"
  by (simp_all add: hold_message_def Let_def counter_list_def fun_eq_iff)

lemma counter_list_same: "waitProposalCounter t' = waitProposalCounter t \<Longrightarrow> counter_list t' = counter_list t"
  by (simp add: counter_list_def fun_eq_iff)

text \<open>Votes of different members: when no member is counted twice.\<close>

lemma voters_distinct:
  assumes "\<And>v. v \<in> set vs \<Longrightarrow> v_MsgID v = mid" "\<And>v. v \<in> set vs \<Longrightarrow> vcount (v_ProcessID v) mid vs \<le> 1"
  shows "distinct (map v_ProcessID vs)"
  using assms
proof (induction vs)
  case (Cons v vs)
  have "vcount (v_ProcessID v) mid vs = 0" using Cons.prems(1) [of v] Cons.prems(2) [of v] by simp
  then have "v_ProcessID v \<notin> v_ProcessID ` set vs" using Cons.prems(1) by (auto simp: vcount_0)
  moreover have "vcount (v_ProcessID w) mid vs \<le> 1" if "w \<in> set vs" for w
    using Cons.prems(2) [of w] that by (simp split: if_splits)
  ultimately show ?case using Cons.IH Cons.prems(1) by simp
qed simp

lemma all_voted:
  assumes "finite M" "\<And>v. v \<in> set vs \<Longrightarrow> v_ProcessID v \<in> M" "distinct (map v_ProcessID vs)" "card M \<le> length vs" "q \<in> M"
  shows "\<exists>v\<in>set vs. v_ProcessID v = q"
proof -
  have "card (set (map v_ProcessID vs)) = length vs" using distinct_card [OF assms(3)] by simp
  moreover have sub: "set (map v_ProcessID vs) \<subseteq> M" using assms(2) by auto
  ultimately have "set (map v_ProcessID vs) = M"
    using card_seteq [OF assms(1) sub] assms(4) by simp
  then show ?thesis using assms(5) by auto
qed

section \<open>The steps\<close>

locale cluster = message_codec cd valid for cd :: "'b codec" and valid +
  fixes exec :: "'h \<Rightarrow> 'b TOMsg \<Rightarrow> 'p \<Rightarrow> ('p, 'b effect) call"
    and M :: "string set" and tr :: "'h router" and p0 :: 'p
  assumes prints: "only_prints exec" and finite_M: "finite M" and valid_names: "p \<in> M \<Longrightarrow> valid p"
begin

abbreviation cluster_inv :: "nat \<Rightarrow> ('b, 'h, 'p) system \<Rightarrow> 'b ghost \<Rightarrow> bool" where
  "cluster_inv \<equiv> sys_inv cd valid exec M tr p0"

text \<open>A handler run that changes nothing and sends nothing.\<close>

lemma idle_inv:
  assumes inv: "cluster_inv n s G" and p: "p \<in> M"
    and s1: "nodes s1 = nodes s" "used s1 = used s" "log s1 = log s" "\<And>q c. set (chan s1 q c) \<subseteq> set (chan s q c)"
    and tk: "\<And>c q mid. votes_at cd (commit p us (nodes s p) [] s1) c q mid = votes_at cd s c q mid"
    and taken: "\<And>q rm line c. line \<in> set (chan s q c) \<Longrightarrow> r_line cd q rm line \<Longrightarrow>
        line \<in> set (chan s1 q c) \<or> c = p \<and> r_ID rm \<in> received (rmulticast (nodes s p))"
  shows "cluster_inv (Suc n) (commit p us (nodes s p) [] s1) G"
proof (rule sys_inv_commit [OF inv p s1, where P = "{}"])
  note I = sys_invD [OF inv]
  show "ghost_ok cd valid M (used s \<union> us) G" using ghost_ok_used [OF I(1)] by simp
  show "log_ok cd exec tr p0 G p (processor (nodes s p)) (log s p @ [])" using I(5) [OF p] by simp
  show "tokens_ok cd M (commit p us (nodes s p) [] s1) G" using tokens_same [OF I(7) tk] .
  show "live_ok cd M (commit p us (nodes s p) [] s1) G"
    using live_okD(1,3,7,8) [OF I(8)] p taken by (intro live_commit [OF I(8) p I(3) s1(1,3) ext_refl [of "{}"]]) auto
qed (use sys_invD [OF inv] p bounded_Suc [OF sys_invD(4) [OF inv p]] in auto)

lemma multicast_inv:
  assumes inv: "cluster_inv n s G" and p: "p \<in> M" and e: "calm M e"
    and u: "fresh valid s (env_uuid1 e)" "fresh valid s (env_uuid2 e)"
    and run: "node_multicast cd e path data (nodes s p) = Some (nd, es, err)"
  shows "\<exists>G'. cluster_inv (Suc n) (commit p {env_uuid1 e, env_uuid2 e} nd es s) G'
    \<and> affords cd M s G (commit p {env_uuid1 e, env_uuid2 e} nd es s) G'"
proof -
  note I = sys_invD [OF inv]
  let ?us = "{env_uuid1 e, env_uuid2 e}"
  have w: "SelfNodeID (nodes s p) = p" "members_ok M (bmulticast (nodes s p))"
    using I(2) [OF p] by (simp_all add: wired_def)
  have u': "valid (env_uuid1 e)" "valid (env_uuid2 e)" "length (env_uuid1 e) = 36" "length (env_uuid2 e) = 36"
    "env_uuid1 e \<notin> used s" "env_uuid2 e \<notin> used s" using u by (simp_all add: fresh_def)
  have "nd = nodes s p \<and> (es = [] \<or>
     (\<exists>body d x. es = map (\<lambda>d. Write d x) (env_order e)
        \<and> dec_Ask cd d = Inr (NewTOAskProposalSeqMsg cd (env_uuid1 e) (SelfNodeID (nodes s p)) body)
        \<and> (\<exists>tm. dec_TOMsg cd body = Inr tm)
        \<and> r_line cd (SelfNodeID (nodes s p))
            \<lparr>r_ID = env_uuid2 e @ ''-'' @ digest cd d, r_Path = AskProposalSeqPath, r_Body = d\<rparr> x))"
    using valid_names [OF p] w(1) u' by (intro node_multicast_calm [OF w(2) e _ _ _ run]) simp_all
  then have nd: "nd = nodes s p" and "es = [] \<or>
     (\<exists>body d x. es = map (\<lambda>d. Write d x) (env_order e)
        \<and> dec_Ask cd d = Inr (NewTOAskProposalSeqMsg cd (env_uuid1 e) p body)
        \<and> (\<exists>tm. dec_TOMsg cd body = Inr tm)
        \<and> r_line cd p \<lparr>r_ID = env_uuid2 e @ ''-'' @ digest cd d, r_Path = AskProposalSeqPath, r_Body = d\<rparr> x)"
    unfolding w(1) by blast+
  then consider (none) "es = []" | (send) body d x where "es = map (\<lambda>d. Write d x) (env_order e)"
      "dec_Ask cd d = Inr (NewTOAskProposalSeqMsg cd (env_uuid1 e) p body)"
      "r_line cd p \<lparr>r_ID = env_uuid2 e @ ''-'' @ digest cd d, r_Path = AskProposalSeqPath, r_Body = d\<rparr> x"
      "\<exists>tm. dec_TOMsg cd body = Inr tm"
    by blast
  then show ?thesis
  proof cases
    case none
    have "cluster_inv (Suc n) (commit p ?us (nodes s p) [] s) G"
      by (rule idle_inv [OF inv p]) (auto simp: votes_at_def commit_def)
    moreover have "affords cd M s G (commit p ?us (nodes s p) [] s) G"
      using idle_work [OF finite_M p refl [of "nodes s"], of cd ?us G] by (simp add: affords_def)
    ultimately show ?thesis using nd none by blast
  next
    case send
    define ask where "ask = NewTOAskProposalSeqMsg cd (env_uuid1 e) p body"
    define rm where "rm = \<lparr>r_ID = env_uuid2 e @ ''-'' @ digest cd d, r_Path = AskProposalSeqPath, r_Body = d\<rparr>"
    define rid where "rid = r_ID rm"
    define mid where "mid = a_MsgID ask"
    define G' where "G' = G\<lparr>reg := (reg G)(rid \<mapsto> rm), asks := (asks G)(mid \<mapsto> (rid, ask))\<rparr>"
    have ids: "take 36 rid = env_uuid2 e" "take 36 mid = env_uuid1 e" "valid rid" "valid mid" "a_SrcID ask = p"
      using u' valid_append valid_digest valid_dash
      by (simp_all add: rid_def rm_def mid_def ask_def NewTOAskProposalSeqMsg_def)
         (metis append_Cons append_Nil)
    have new: "reg G rid = None" "asks G mid = None"
      using ghost_okD(2) [OF I(1), of rid] ghost_okD(3) [OF I(1), of mid] ids(1,2) u'(5,6)
      by (cases "reg G rid"; cases "asks G mid"; auto simp: ask_ok_def)+
    have ext: "ext {} G G'" using new by (auto simp: ext_def G'_def map_le_def)
    have rm: "r_Path rm = AskProposalSeqPath" "dec_Ask cd (r_Body rm) = Inr ask"
      using send(2) by (simp_all add: rm_def ask_def)
    have "ask_ok cd valid M (used s \<union> ?us) G' m r a" if "asks G' m = Some (r, a)" for m r a
    proof (cases "m = mid")
      case True
      then show ?thesis
        using that ids p rm by (auto simp: G'_def ask_ok_def mid_def)
    next
      case False
      then have "ask_ok cd valid M (used s) G m r a" using that ghost_okD(3) [OF I(1)] by (simp add: G'_def)
      then show ?thesis using new by (auto simp: ask_ok_def G'_def)
    qed
    moreover have "r_ID r' = r \<and> valid r \<and> take 36 r \<in> used s \<union> ?us \<and> rmsg_ok cd G' r r'"
      if "reg G' r = Some r'" for r r'
    proof (cases "r = rid")
      case True
      then show ?thesis using that ids rm by (auto simp: G'_def rid_def rmsg_ok_def mid_def)
    next
      case False
      then have "r_ID r' = r \<and> valid r \<and> take 36 r \<in> used s \<and> rmsg_ok cd G r r'"
        using that ghost_okD(2) [OF I(1)] by (simp add: G'_def)
      then show ?thesis using new by (auto simp: rmsg_ok_def G'_def)
    qed
    moreover have "isis_of G' = isis_of G" by (simp add: G'_def)
    ultimately have g: "ghost_ok cd valid M (used s \<union> ?us) G'"
      using ghost_okD(1,4) [OF I(1)] unfolding ghost_ok_def by (auto simp: G'_def)
    have wx: "line = x" if "line \<in> set (writes_to c es)" for c line
      by (rule writes_to_multicast [OF e that [unfolded send(1)]])
    have "\<forall>c. \<forall>line\<in>set (writes_to c es). line_vote cd line = []"
      using line_vote_r [OF send(3)] by (auto dest!: wx)
    note va = votes_commit_r [OF this, where nd = nd and s = s and p = p and us = ?us, unfolded nd, OF refl refl, folded nd]
    have "tokens_ok cd M (commit p ?us nd es s) G'"
      unfolding tokens_ok_def va
    proof (intro ballI allI impI)
      fix q m r a assume q: "q \<in> M" and a: "asks G' m = Some (r, a)"
      show "vcount q m (votes_at cd s (a_SrcID a) q m) = (if prop_of G' q m \<noteq> None \<and> fin (isis_of G') m = None then 1 else 0)"
      proof (cases "m = mid")
        case True
        then have "a_SrcID a = p" using a ids by (simp add: G'_def)
        then have "vcount q m (votes_at cd s (a_SrcID a) q m) = 0"
          using votes_at_ok [OF inv q p] vote_ok_asked new(2) True by (fastforce simp: vcount_0)
        moreover have "prop_of G q m = None" using ghost_okD(4) [OF I(1), of q m] new(2) True by metis
        ultimately show ?thesis by (simp add: G'_def)
      next
        case False
        then show ?thesis using tokens_okD [OF I(7) q, of m r a] a by (simp add: G'_def)
      qed
    qed
    moreover have "line_ok cd M G' p c line" if "line \<in> set (writes_to c es)" for c line
    proof -
      have "line = x" using wx [OF that] .
      then show ?thesis
        using send(3) rm_def by (auto simp: line_ok_def G'_def rid_def intro!: exI [of _ rm])
    qed
    moreover have "log_ok cd exec tr p0 G' p (processor nd) (log s p @ es)"
      using log_ok_ext [OF ext I(1) _ p I(5) [OF p]] send(1) nd by (intro log_ok_quiet) simp_all
    moreover have "live_ok cd M (commit p ?us nd es s) G'"
    proof (rule live_commit [OF I(8) p I(3) refl refl ext])
      note L = live_okD [OF I(8)]
      have rx: "r_line cd p rm x" using send(3) by (simp add: rm_def)
      have wm: "x \<in> set (writes_to c es)" if "c \<in> M" for c
        unfolding send(1) by (rule writes_to_members [OF e that])
      show "node_live cd M G' p nd" unfolding nd using node_live_ext [OF ext _ I(3) [OF p] L(3) [OF p]] by simp
      show "bodies_ok cd G'"
        using L(1) send(4) by (auto simp: bodies_ok_def G'_def ask_def NewTOAskProposalSeqMsg_def)
      show "\<exists>line\<in>set (writes_to c es). r_line cd p rm' line"
        if "reg G' i = Some rm'" "reg G i = None" "c \<in> M" for i rm' c
        using that wm rx by (auto simp: G'_def split: if_splits)
      show "\<exists>c\<in>M. \<exists>line\<in>set (writes_to c es). line_ask cd line = Some m"
        if "m \<in> dom (asks G')" "m \<notin> dom (asks G)" for m
        using that wm [OF p] p line_ask_r [OF rx rm] by (auto simp: G'_def mid_def split: if_splits)
    qed (use calculation nd live_okD(7,8) [OF I(8)] in \<open>auto simp: G'_def\<close>)
    ultimately have "cluster_inv (Suc n) (commit p ?us nd es s) G'"
      using I(2) [OF p] node_inv_ext [OF ext I(1) _ I(3) [OF p]] bounded_Suc [OF I(4) [OF p]] nd
      by (intro sys_inv_commit [OF inv p refl refl refl _ ext _ g]) auto
    moreover have "affords cd M s G (commit p ?us nd es s) G'"
    proof -
      note F = live_okD(7,8) [OF I(8)]
      have no: "rid \<notin> received (rmulticast (nodes s c))" if "c \<in> M" for c
        using node_invD(4) [OF I(3) [OF that], of rid] new(1) by blast
      have "lines_work cd M (commit p ?us nd es s) = lines_work cd M s + card M"
        using lines_work_commit [OF finite_M p, of cd ?us nd es s] multicast_work [OF e finite_M send(3)] send(1) by simp
      moreover have "votes_work M (commit p ?us nd es s) = votes_work M s"
        using votes_work_commit [OF finite_M p refl [of "nodes s"], of ?us nd es] nd by simp
      moreover have "receive_work M (commit p ?us nd es s) G' = receive_work M s G + card M * (card M + 2)"
        using receive_work_new [OF F(1) refl [of "nodes s"], of nd p G' rid rm M ?us es] new(1) no nd rm(1)
        by (simp add: G'_def rmsg_work_def)
      moreover have "fin (isis_of G) mid = None"
        using agreement_invD(2) [OF ghost_okD(5) [OF I(1)] _ p, of mid] ghost_okD(4) [OF I(1), of p mid] new(2) by fastforce
      then have "agree_work M G' = agree_work M G + (card M + card M * card M)"
        using agree_work_asked [OF F(2), of G' mid "(rid, ask)" M] new(2) by (simp add: G'_def)
      moreover have "card (dom (asks G')) = Suc (card (dom (asks G)))"
        using F(2) new(2) by (simp add: G'_def card_insert_if domIff)
      ultimately show ?thesis by (simp add: affords_def work_def message_work_def algebra_simps)
    qed
    ultimately show ?thesis by blast
  qed
qed

lemma receive_reply_inv:
  assumes inv: "cluster_inv n s G" and p: "p \<in> M" and q: "q \<in> M"
    and ch: "chan s q p = line # rest"
    and rep: "reply_line cd q rep line" "p_ProcessID rep = q" "vote_ok M G p (vote_of rep)"
    and run: "handle_line cd exec e line (nodes s p) = Some (nd, es, err)"
  shows "cluster_inv (Suc n) (commit p {} nd es (take_line q p s)) G
    \<and> spends cd M s G (commit p {} nd es (take_line q p s)) G"
proof -
  note I = sys_invD [OF inv]
  let ?t = "totalOrder (nodes s p)"
  have "b_routes (bmulticast (nodes s p))" using I(2) [OF p] by (simp add: wired_def)
  then have nd: "nd = (nodes s p)\<lparr>totalOrder := ?t\<lparr>waitVotesChannel := waitVotesChannel ?t @ [vote_of rep]\<rparr>\<rparr>"
      and es: "es = []"
    using handle_line_reply [OF _ rep(1), of "nodes s p" exec e] run by (auto split: if_splits)
  have v: "v_ProcessID (vote_of rep) = q" using rep(2) by (simp add: vote_of_def)
  let ?s = "commit p {} nd es (take_line q p s)"
  have ni: "node_inv M G p nd"
  proof (rule node_invI)
    note D = node_invD [OF I(3) [OF p]]
    show "hold_ok M G p (totalOrder nd)" by (rule hold_ok_queue [OF D(1)]) (simp_all add: nd)
    show "vote_ok M G p v \<and> v_MsgID v = mid" if "v \<in> set (counter_list (totalOrder nd) mid)" for v mid
      using that D(7) [of v mid] by (simp add: nd counter_list_def)
    show "vote_ok M G p v" if "v \<in> set (waitVotesChannel (totalOrder nd))" for v
      using that D(6) [of v] rep(3) by (auto simp: nd)
  qed (use node_invD [OF I(3) [OF p]] in \<open>simp_all add: nd\<close>)
  have "vcount q' mid (votes_at cd ?s c q' mid) = vcount q' mid (votes_at cd s c q' mid)" for c q' mid
    using ch v line_vote_reply [OF rep(1)]
    by (cases "c = p"; cases "q' = q"; auto simp: votes_at_def commit_def take_line_def es nd counter_list_def)
  then have "tokens_ok cd M ?s G" by (rule tokens_vcount [OF I(7)])
  moreover have "log_ok cd exec tr p0 G p (processor nd) (log s p @ es)" using I(5) [OF p] by (simp add: nd es)
  moreover have "bounded (Suc n) nd" "wired M tr p nd"
    using I(4) [OF p] I(2) [OF p] by (simp_all add: nd bounded_def wired_def)
  moreover have "live_ok cd M ?s G"
  proof (rule live_commit [OF I(8) p I(3) _ _ ext_refl [of "{}"]])
    show "node_live cd M G p nd"
      using live_okD(3) [OF I(8) p] by (simp add: node_live_def nd counter_list_def)
    show "l \<in> set (chan (take_line q p s) a c) \<or> c = p \<and> r_ID rm \<in> received (rmulticast nd)"
      if "l \<in> set (chan s a c)" "r_line cd a rm l" for a rm l c
      using take_line_rest [OF ch that(1)] reply_not_r [OF rep(1)] that(2) by blast
  qed (use live_okD(1,7,8) [OF I(8)] in \<open>auto simp: nd es\<close>)
  ultimately have "cluster_inv (Suc n) ?s G"
    using I(1) ni take_line_subset
    by (intro sys_inv_commit [OF inv p _ _ _ _ ext_refl [of "{}"]]) (simp_all add: es)
  moreover have "spends cd M s G ?s G"
    using lines_work_commit [OF finite_M p, of cd "{}" nd es "take_line q p s"] lines_work_take [OF finite_M q p ch, of cd]
      line_work_reply [OF rep(1)] votes_work_commit [OF finite_M p, of "take_line q p s" s "{}" nd es]
      receive_work_same [of nd s p "take_line q p s" G G M "{}" es]
    by (simp add: spends_def work_def es nd)
  ultimately show ?thesis ..
qed

lemma receive_old_inv:
  assumes inv: "cluster_inv n s G" and p: "p \<in> M" and q: "q \<in> M"
    and ch: "chan s q p = line # rest"
    and rm: "r_line cd q rm line" "r_ID rm \<in> received (rmulticast (nodes s p))"
    and run: "handle_line cd exec e line (nodes s p) = Some (nd, es, err)"
  shows "cluster_inv (Suc n) (commit p {} nd es (take_line q p s)) G
    \<and> spends cd M s G (commit p {} nd es (take_line q p s)) G"
proof
  have "b_routes (bmulticast (nodes s p))" using sys_invD(2) [OF inv p] by (simp add: wired_def)
  from handle_line_old [OF this rm, of exec e] run have nd: "nd = nodes s p" "es = []" by auto
  show "spends cd M s G (commit p {} nd es (take_line q p s)) G"
    using idle_work [OF finite_M p, of "take_line q p s" s cd "{}" G] lines_work_take [OF finite_M q p ch, of cd]
      line_work_r [OF rm(1)] by (simp add: spends_def nd)
  show "cluster_inv (Suc n) (commit p {} nd es (take_line q p s)) G"
    unfolding nd
  proof (rule idle_inv [OF inv p _ _ _ take_line_subset])
    show "votes_at cd (commit p {} (nodes s p) [] (take_line q p s)) c q' mid = votes_at cd s c q' mid" for c q' mid
      using votes_commit_r [of "[]" cd "nodes s p" "take_line q p s" p "{}" c q' mid]
        votes_take_r [OF ch line_vote_r [OF rm(1)]] by simp
  qed (use taken_received [OF ch rm] in simp_all)
qed

text \<open>A new message of the reliable layer: its relay, and the handler of its path.\<close>

lemma receive_new:
  assumes inv: "cluster_inv n s G" and p: "p \<in> M" and e: "calm M e"
    and rm: "r_line cd q rm line" "reg G (r_ID rm) = Some rm" "r_ID rm \<notin> received (rmulticast (nodes s p))"
    and f: "[AskProposalSeqPath \<mapsto> AskProposalSeq, AnnounceAgreementSeqPath \<mapsto> AnnounceAgreementSeq] (r_Path rm) = Some f"
    and run: "handle_line cd exec e line (nodes s p) = Some (nd, es, err)"
  defines "nd1 \<equiv> (nodes s p)\<lparr>rmulticast := (rmulticast (nodes s p))
      \<lparr>received := insert (r_ID rm) (received (rmulticast (nodes s p)))\<rparr>\<rparr>"
  obtains x es' where "r_line cd p rm x" "exec_r cd exec e f rm nd1 = Some (nd, es', err)"
    "es = relay (q \<noteq> p) e x @ es'"
proof -
  have w: "SelfNodeID (nodes s p) = p" "members_ok M (bmulticast (nodes s p))" "b_routes (bmulticast (nodes s p))"
    "r_routes (rmulticast (nodes s p))" using sys_invD(2) [OF inv p] by (simp_all add: wired_def)
  have "valid (r_ID rm)" using ghost_okD(2) [OF sys_invD(1) [OF inv] rm(2)] by simp
  moreover have "valid (r_Path rm)" using f valid_paths by (auto split: if_splits)
  moreover have "r_router (rmulticast (nodes s p)) (r_Path rm) = Some f" using w(4) f by (simp add: r_routes_def)
  ultimately obtain x where x: "r_line cd p rm x" "handle_line cd exec e line (nodes s p) =
     (case exec_r cd exec e f rm nd1 of None \<Rightarrow> None
      | Some (nd2, es, err) \<Rightarrow> Some (nd2, (if q \<noteq> p then map (\<lambda>d. Write d x) (env_order e) else []) @ es, err))"
    using handle_line_new [OF w(3,4,2) e rm(1,3), of f exec] valid_names [OF p] unfolding w(1) nd1_def by blast
  then show thesis
    using run that by (auto simp: relay_def split: option.splits)
qed

lemma receive_ask_inv:
  assumes inv: "cluster_inv n s G" and p: "p \<in> M" and q: "q \<in> M" and e: "calm M e" and n: "Suc n < 2 ^ 64"
    and ch: "chan s q p = line # rest"
    and rm: "r_line cd q rm line" "reg G (r_ID rm) = Some rm" "r_ID rm \<notin> received (rmulticast (nodes s p))"
    and ask: "r_Path rm = AskProposalSeqPath" "dec_Ask cd (r_Body rm) = Inr ask"
      "asks G (a_MsgID ask) = Some (r_ID rm, ask)"
    and run: "handle_line cd exec e line (nodes s p) = Some (nd, es, err)"
  shows "\<exists>G'. cluster_inv (Suc n) (commit p {} nd es (take_line q p s)) G'
    \<and> spends cd M s G (commit p {} nd es (take_line q p s)) G'"
proof -
  note I = sys_invD [OF inv] and D = node_invD [OF sys_invD(3) [OF inv p]]
  note gI = ghost_okD [OF sys_invD(1) [OF inv]]
  define nd1 where "nd1 = (nodes s p)\<lparr>rmulticast := (rmulticast (nodes s p))
      \<lparr>received := insert (r_ID rm) (received (rmulticast (nodes s p)))\<rparr>\<rparr>"
  define t where "t = totalOrder (nodes s p)"
  define seq where "seq = next_proposal t"
  define mid where "mid = a_MsgID ask"
  define G' where "G' = ask_ghost p ask (unat seq) G"
  let ?t = "t\<lparr>maxProposalSeqNumOfSelf := seq\<rparr>"
  let ?rep = "NewTOReplyProposalSeqMsg p mid seq"
  obtain x es1 where x: "r_line cd p rm x" and h: "exec_r cd exec e AskProposalSeq rm nd1 = Some (nd, es1, err)"
    and es1: "es = relay (q \<noteq> p) e x @ es1"
    using receive_new [OF inv p e rm, of AskProposalSeq] run ask(1) unfolding nd1_def [symmetric] by auto
  have ak: "a_SrcID ask \<in> M" "valid mid" using gI(3) [OF ask(3)] by (simp_all add: ask_ok_def mid_def)
  have nd1: "SelfNodeID nd1 = p" "members_ok M (bmulticast nd1)" "totalOrder nd1 = t"
    using I(2) [OF p] by (simp_all add: nd1_def wired_def t_def)
  obtain y where y: "reply_line cd p ?rep y"
    "nd = nd1\<lparr>totalOrder := hold_message ask seq ?t\<rparr>" "es1 = [Write (a_SrcID ask) y]"
    using exec_r_ask [where exec = exec, OF nd1(2) e ask(2) ak(1)] h valid_names [OF p] ak(2)
    unfolding nd1 seq_def mid_def by auto
  have new: "prop_of G p mid = None" using D(5) [OF ask(3)] rm(3) by (auto simp: mid_def)
  have bd: "unat (maxProposalSeqNumOfSelf t) \<le> n" "unat (maxAgreementSeqNumOfGroup t) \<le> n"
    using I(4) [OF p] by (simp_all add: bounded_def t_def)
  then have seq: "unat seq = max (unat (maxAgreementSeqNumOfGroup t)) (unat (maxProposalSeqNumOfSelf t)) + 1"
    using n unat_next [of "MaxUint64 (maxAgreementSeqNumOfGroup t) (maxProposalSeqNumOfSelf t)"]
    by (simp add: seq_def next_proposal_def unat_MaxUint64)
  have "isis_step M (isis_of G) (isis_of G')"
    unfolding G'_def ask_ghost_def mid_def [symmetric] using isis_step.propose [OF p new, of "unat seq"] D(2,3) seq
    by (fastforce simp: t_def [symmetric])
  then have ir: "isis_reach M (isis_of G')" using isis_reach.step gI(1) by blast
  have ext: "ext {p} G G'"
    using new by (auto simp: ext_def G'_def mid_def map_le_def)
  have G'_simps: "fin (isis_of G') = fin (isis_of G)" "reg G' = reg G" "asks G' = asks G"
    "known_of G' = known_of G" "dlv_of G' = dlv_of G" "agr (isis_of G') = agr (isis_of G)"
    by (simp_all add: G'_def)
  have pr: "prop_of G' q' m = (if q' = p \<and> m = mid then Some (unat seq) else prop_of G q' m)" for q' m
    by (simp add: G'_def mid_def)
  have g: "ghost_ok cd valid M (used s \<union> {}) G'"
  proof (rule ghost_okI [OF ir])
    have c: "rmsg_ok cd G' = rmsg_ok cd G" "ask_ok cd valid M (used s) G' = ask_ok cd valid M (used s) G"
      by (intro rmsg_ok_cong ask_ok_cong; simp add: G'_simps)+
    show "r_ID r = i \<and> valid i \<and> take 36 i \<in> used s \<union> {} \<and> rmsg_ok cd G' i r" if "reg G' i = Some r" for i r
      using gI(2) [of i r] that by (simp add: c G'_simps)
    show "ask_ok cd valid M (used s \<union> {}) G' m i a" if "asks G' m = Some (i, a)" for m i a
      using gI(3) [of m i a] that by (simp add: c G'_simps)
    show "asks G' m \<noteq> None" if "prop_of G' q' m \<noteq> None" for q' m
      using gI(4) [of q' m] that ask(3) by (cases "m = mid") (simp_all add: pr G'_simps mid_def)
  qed
  have nd: "totalOrder nd = hold_message ask seq ?t" "bmulticast nd = bmulticast (nodes s p)"
    "received (rmulticast nd) = insert (r_ID rm) (received (rmulticast (nodes s p)))"
    "r_router (rmulticast nd) = r_router (rmulticast (nodes s p))" "SelfNodeID nd = p" "processor nd = processor (nodes s p)"
    using nd1(1) by (simp_all add: y(2) nd1_def)
  have cl: "counter_list ?t = counter_list t" by (rule counter_list_same) simp
  have ni: "node_inv M G' p nd"
  proof (rule node_invI)
    have "hold_ok M G p ?t" by (rule hold_ok_queue [OF D(1)]) (simp_all add: t_def)
    then show "hold_ok M G' p (totalOrder nd)"
      unfolding nd G'_def using gI(5,6) new ask(3) ak(1) p by (intro hold_ok_ask) (simp_all add: mid_def)
    show "k \<le> unat (maxProposalSeqNumOfSelf (totalOrder nd))" if "prop_of G' p m = Some k" for m k
      using that D(2) [of m k] seq by (auto simp: nd pr t_def split: if_splits)
    show "fst (agr (isis_of G') m) \<le> unat (maxAgreementSeqNumOfGroup (totalOrder nd))" if "m \<in> known_of G' p" for m
      using that D(3) [of m] by (simp add: nd G'_simps t_def)
    show "reg G' rid \<noteq> None" if "rid \<in> received (rmulticast nd)" for rid
      using that D(4) [of rid] rm(2) by (auto simp: nd G'_simps)
    show "prop_of G' p m \<noteq> None \<longleftrightarrow> rid \<in> received (rmulticast nd)" if a: "asks G' m = Some (rid, a)" for m rid a
    proof -
      have "m = mid" if "rid = r_ID rm"
        using gI(3) [of m rid a] a that rm(2) ask(2) by (auto simp: G'_simps ask_ok_def mid_def)
      moreover have "rid = r_ID rm" if "m = mid" using that a ask(3) by (simp add: G'_simps mid_def)
      ultimately show ?thesis using D(5) [of m rid a] a by (auto simp: nd pr G'_simps)
    qed
    show "vote_ok M G' p v" if "v \<in> set (waitVotesChannel (totalOrder nd))" for v
      using vote_ok_ext [OF ext D(6) [of v]] that by (simp add: nd t_def)
    show "vote_ok M G' p v \<and> v_MsgID v = m" if "v \<in> set (counter_list (totalOrder nd) m)" for v m
      using vote_ok_ext [OF ext, of M p v] D(7) [of v m] that by (simp add: nd cl [unfolded t_def] t_def)
  qed
  have rv: "vote_ok M G' (a_SrcID ask) (vote_of ?rep)"
    using p ask(3) by (simp add: vote_ok_def vote_of_def NewTOReplyProposalSeqMsg_def pr G'_simps mid_def)
  have ls: "line_ok cd M G' p c l" if "l \<in> set (writes_to c es)" for c l
  proof -
    from that consider "l \<in> set (writes_to c (relay (q \<noteq> p) e x))" | "l = y" "c = a_SrcID ask"
      by (auto simp: es1 y(3) split: if_splits)
    then show ?thesis
    proof cases
      case 1
      then have "l = x" by (rule relay_writes [OF e])
      then show ?thesis using x rm(2) by (auto simp: line_ok_def G'_simps)
    next
      case 2
      have "p_ProcessID ?rep = p" by (simp add: NewTOReplyProposalSeqMsg_def)
      then show ?thesis using y(1) rv 2 unfolding line_ok_def by blast
    qed
  qed
  let ?s = "commit p {} nd es (take_line q p s)"
  have wv: "concat (map (line_vote cd) (writes_to c es)) = (if c = a_SrcID ask then [vote_of ?rep] else [])" for c
    using relay_votes [OF e x, of c "q \<noteq> p"] line_vote_reply [OF y(1)] by (simp add: es1 y(3))
  have vc: "vcount q' m (votes_at cd ?s c q' m) = vcount q' m (votes_at cd s c q' m)
      + (if q' = p \<and> c = a_SrcID ask \<and> m = mid then 1 else 0)" for q' m c
  proof -
    have "vcount q' m (votes_at cd ?s c q' m) = vcount q' m (votes_at cd (take_line q p s) c q' m)
        + (if q' = p then vcount q' m (concat (map (line_vote cd) (writes_to c es))) else 0)"
      by (intro vcount_commit) (simp_all add: nd cl [unfolded t_def] t_def)
    then show ?thesis
      unfolding wv votes_take_r [of s q p line rest cd c q' m, OF ch line_vote_r [OF rm(1)]]
      by (auto simp: vote_of_def NewTOReplyProposalSeqMsg_def)
  qed
  have fin0: "fin (isis_of G) mid = None"
    using agreement_invD(2) [OF gI(5) _ p, of mid] new by (metis not_Some_eq surj_pair)
  have "tokens_ok cd M ?s G'"
    unfolding tokens_ok_def vc
  proof (intro ballI allI impI)
    fix q' m r a assume q': "q' \<in> M" and a: "asks G' m = Some (r, a)"
    have a0: "asks G m = Some (r, a)" using a by (simp add: G'_simps)
    have "a = ask" if "m = mid" using a0 that ask(3) by (simp add: mid_def)
    then show "vcount q' m (votes_at cd s (a_SrcID a) q' m) + (if q' = p \<and> a_SrcID a = a_SrcID ask \<and> m = mid then 1 else 0)
        = (if prop_of G' q' m \<noteq> None \<and> fin (isis_of G') m = None then 1 else 0)"
      using tokens_okD [OF I(7) q' a0] new fin0 by (auto simp: pr G'_simps)
  qed
  moreover have "log_ok cd exec tr p0 G' p (processor nd) (log s p @ es)"
  proof -
    have "body_of G' = body_of G" by (simp add: body_of_def G'_simps fun_eq_iff)
    then have "log_ok cd exec tr p0 G' p (processor nd) (log s p)"
      using I(5) [OF p] by (simp add: log_ok_def G'_simps nd)
    then show ?thesis by (rule log_ok_quiet) (simp_all add: es1 y(3))
  qed
  moreover have "wired M tr p nd" using I(2) [OF p] by (simp add: wired_def nd r_routes_def t_def)
  moreover have "bounded (Suc n) nd" using bd seq by (simp add: bounded_def nd)
  moreover have "live_ok cd M ?s G'"
  proof (rule live_commit [OF I(8) p I(3) _ _ ext])
    note L = live_okD [OF I(8)]
    have "head_open (holdQueue (totalOrder nd))"
      using head_open_hold_message [of ?t ask seq] node_live_head [OF L(3) [OF p]] hold_okD(1) [OF D(1)]
      by (simp add: nd t_def)
    then show "node_live cd M G' p nd"
      using L(3) [OF p] rm(2) ask(1) by (auto simp: node_live_def nd G'_simps cl) (auto simp: t_def)
    show "bodies_ok cd G'" using L(1) bodies_ok_cong [of G' G cd] by (simp add: G'_simps)
    show "l \<in> set (chan (take_line q p s) a c) \<or> c = p \<and> r_ID rm' \<in> received (rmulticast nd)"
      if "l \<in> set (chan s a c)" "r_line cd a rm' l" for a rm' l c
      using taken_received [OF ch rm(1) _ that, of "received (rmulticast nd)"] by (simp add: nd)
  qed (use ls live_okD(7,8) [OF I(8)] in \<open>auto simp: G'_simps nd\<close>)
  ultimately have "cluster_inv (Suc n) ?s G'"
    using ni g ls take_line_subset by (intro sys_inv_commit [OF inv p _ _ _ _ ext]) simp_all
  moreover have "spends cd M s G ?s G'"
  proof -
    have "lines_work cd M ?s \<le> lines_work cd M (take_line q p s) + (card M + 2)"
      using lines_work_commit [OF finite_M p, of cd "{}" nd es "take_line q p s"]
        relay_work [OF e finite_M x, of "q \<noteq> p" es1] reply_work [OF finite_M ak(1) y(1)] by (simp add: es1 y(3))
    moreover have "lines_work cd M s = lines_work cd M (take_line q p s) + 1"
      using lines_work_take [OF finite_M q p ch, of cd] line_work_r [OF rm(1)] by simp
    moreover have "votes_work M ?s = votes_work M s"
      using votes_work_commit [OF finite_M p, of "take_line q p s" s "{}" nd es] by (simp add: nd t_def)
    moreover have "receive_work M s G = receive_work M ?s G' + (card M + 2)"
      using receive_work_insert [OF finite_M live_okD(7) [OF I(8)] p _ G'_simps(2) rm(2,3) nd(3), of "take_line q p s" "{}" es]
        ask(1) by (simp add: rmsg_work_def)
    moreover have "agree_work M G' = agree_work M G" by (intro agree_work_cong) (simp_all add: G'_simps)
    ultimately show ?thesis by (simp add: spends_def work_def G'_simps)
  qed
  ultimately show ?thesis by blast
qed

lemma receive_announce_inv:
  assumes inv: "cluster_inv n s G" and p: "p \<in> M" and q: "q \<in> M" and e: "calm M e"
    and ch: "chan s q p = line # rest"
    and rm: "r_line cd q rm line" "reg G (r_ID rm) = Some rm" "r_ID rm \<notin> received (rmulticast (nodes s p))"
    and ann: "r_Path rm = AnnounceAgreementSeqPath" "dec_Announce cd (r_Body rm) = Inr ann"
      "fin (isis_of G) (n_MsgID ann) = Some (unat (n_AgreementSeq ann), n_ProcessID ann)"
    and run: "handle_line cd exec e line (nodes s p) = Some (nd, es, err)"
  shows "\<exists>G'. cluster_inv (Suc n) (commit p {} nd es (take_line q p s)) G'
    \<and> spends cd M s G (commit p {} nd es (take_line q p s)) G'"
proof -
  note I = sys_invD [OF inv] and D = node_invD [OF sys_invD(3) [OF inv p]]
  note gI = ghost_okD [OF sys_invD(1) [OF inv]]
  define nd1 where "nd1 = (nodes s p)\<lparr>rmulticast := (rmulticast (nodes s p))
      \<lparr>received := insert (r_ID rm) (received (rmulticast (nodes s p)))\<rparr>\<rparr>"
  define t where "t = totalOrder (nodes s p)"
  define t0 where "t0 = t\<lparr>maxAgreementSeqNumOfGroup := MaxUint64 (maxAgreementSeqNumOfGroup t) (n_AgreementSeq ann)\<rparr>"
  let ?al = "\<lambda>pid. IsNodeAlived pid (bmulticast nd1)"
  obtain x es1 where x: "r_line cd p rm x" and h: "exec_r cd exec e AnnounceAgreementSeq rm nd1 = Some (nd, es1, err)"
    and es1: "es = relay (q \<noteq> p) e x @ es1"
    using receive_new [OF inv p e rm, of AnnounceAgreementSeq] run ann(1) unfolding nd1_def [symmetric] by auto
  have w: "members_ok M (bmulticast nd1)" "totalOrder nd1 = t" "processor nd1 = processor (nodes s p)"
    using I(2) [OF p] by (simp_all add: nd1_def wired_def t_def)
  obtain t' pr' where ha: "handle_announce cd exec ?al (env_now e) rm (t, processor (nodes s p)) = Some ((t', pr'), es1, err)"
    and nd': "nd = nd1\<lparr>totalOrder := t', processor := pr'\<rparr>"
    using h w(2,3) by (auto simp: exec_r_def split: option.splits)
  have al: "\<forall>q\<in>M. ?al q" using members_okD(3) [OF w(1)] by blast
  obtain ks ds where ks: "ks \<subseteq> {n_MsgID ann}"
    and st: "(isis_step M)\<^sup>*\<^sup>* (isis_of G) (isis_of (deliver_ghost p ds (learn_ghost p ks G)))"
    and ho: "hold_ok M (deliver_ghost p ds (learn_ghost p ks G)) p t'"
    and ds: "delivered es1 = ds" "\<forall>d. writes_to d es1 = []" and sb: "same_but_queue t0 t'"
    and rp: "replay cd exec (t_router t) (map (body_of G) ds) (processor (nodes s p)) = Some (pr', printed es1)"
    and hq: "bodies_ok cd G \<longrightarrow> head_open (holdQueue t) \<longrightarrow> head_open (holdQueue t')"
    and kn: "n_MsgID ann \<in> ks \<or> holdQueueMap t (n_MsgID ann) = None"
    using handle_announce_sim [OF prints p al D(1) [folded t_def] ann(3,2) ha] unfolding t0_def by blast
  define G' where "G' = deliver_ghost p ds (learn_ghost p ks G)"
  have G'_simps: "fin (isis_of G') = fin (isis_of G)" "reg G' = reg G" "asks G' = asks G" "prop_of G' = prop_of G"
    "known_of G' = (known_of G)(p := ks \<union> known_of G p)" "dlv_of G' = (dlv_of G)(p := dlv_of G p @ ds)"
    "agr (isis_of G') = agr (isis_of G)" "body_of G' = body_of G"
    by (simp_all add: G'_def)
  have t': "maxProposalSeqNumOfSelf t' = maxProposalSeqNumOfSelf t" "waitVotesChannel t' = waitVotesChannel t"
    "maxAgreementSeqNumOfGroup t' = MaxUint64 (maxAgreementSeqNumOfGroup t) (n_AgreementSeq ann)"
    "t_router t' = t_router t" "waitProposalCounter t' = waitProposalCounter t"
    by (subst sb [unfolded same_but_queue_def], simp add: t0_def)+
  have cl: "counter_list t' = counter_list t" by (rule counter_list_same [OF t'(5)])
  have "isis_reach M S'" if "(isis_step M)\<^sup>*\<^sup>* (isis_of G) S'" for S'
    using that gI(1) by (induction rule: rtranclp_induct) (auto intro: isis_reach.step)
  then have ir: "isis_reach M (isis_of G')" using st by (simp add: G'_def)
  have ext: "ext {p} G G'" by (auto simp: ext_def G'_simps)
  have g: "ghost_ok cd valid M (used s \<union> {}) G'"
  proof (rule ghost_okI [OF ir])
    have c: "rmsg_ok cd G' = rmsg_ok cd G" "ask_ok cd valid M (used s) G' = ask_ok cd valid M (used s) G"
      by (intro rmsg_ok_cong ask_ok_cong; simp add: G'_simps)+
    show "r_ID r = i \<and> valid i \<and> take 36 i \<in> used s \<union> {} \<and> rmsg_ok cd G' i r" if "reg G' i = Some r" for i r
      using gI(2) [of i r] that by (simp add: c G'_simps)
    show "ask_ok cd valid M (used s \<union> {}) G' m i a" if "asks G' m = Some (i, a)" for m i a
      using gI(3) [of m i a] that by (simp add: c G'_simps)
    show "asks G' m \<noteq> None" if "prop_of G' q' m \<noteq> None" for q' m
      using gI(4) [of q' m] that by (simp add: G'_simps)
  qed
  have nd: "totalOrder nd = t'" "bmulticast nd = bmulticast (nodes s p)"
    "received (rmulticast nd) = insert (r_ID rm) (received (rmulticast (nodes s p)))"
    "r_router (rmulticast nd) = r_router (rmulticast (nodes s p))" "SelfNodeID nd = SelfNodeID (nodes s p)" "processor nd = pr'"
    by (simp_all add: nd' nd1_def)
  have bd: "unat (maxProposalSeqNumOfSelf t) \<le> n" "unat (maxAgreementSeqNumOfGroup t) \<le> n"
    using I(4) [OF p] by (simp_all add: bounded_def t_def)
  have "unat (n_AgreementSeq ann) \<le> n"
  proof -
    have "n_ProcessID ann \<in> M" "prop_of G (n_ProcessID ann) (n_MsgID ann) = Some (unat (n_AgreementSeq ann))"
      using agreement_invD(1) [OF gI(5) ann(3)] by simp_all
    then show ?thesis
      using node_invD(2) [OF I(3)] I(4) by (fastforce simp: bounded_def)
  qed
  then have bnd: "bounded (Suc n) nd" using bd by (simp add: bounded_def nd t' unat_MaxUint64)
  have ni: "node_inv M G' p nd"
  proof (rule node_invI)
    show "hold_ok M G' p (totalOrder nd)" using ho by (simp add: nd G'_def)
    show "k \<le> unat (maxProposalSeqNumOfSelf (totalOrder nd))" if "prop_of G' p m = Some k" for m k
      using that D(2) [of m k] by (simp add: nd t' G'_simps t_def)
    show "fst (agr (isis_of G') m) \<le> unat (maxAgreementSeqNumOfGroup (totalOrder nd))" if "m \<in> known_of G' p" for m
    proof (cases "m \<in> known_of G p")
      case True
      then show ?thesis using D(3) [OF True] by (simp add: nd t' G'_simps t_def unat_MaxUint64)
    next
      case False
      then have "m = n_MsgID ann" using that ks by (auto simp: G'_simps)
      then show ?thesis using ann(3) by (simp add: nd t' G'_simps agr_def unat_MaxUint64)
    qed
    show "reg G' rid \<noteq> None" if "rid \<in> received (rmulticast nd)" for rid
      using that D(4) [of rid] rm(2) by (auto simp: nd G'_simps)
    show "prop_of G' p m \<noteq> None \<longleftrightarrow> rid \<in> received (rmulticast nd)" if a: "asks G' m = Some (rid, a)" for m rid a
    proof -
      have "asks G m = Some (rid, a)" using a by (simp add: G'_simps)
      moreover from this have "rid \<noteq> r_ID rm"
        using gI(3) [of m rid a] rm(2) ann(1) by (auto simp: ask_ok_def)
      ultimately show ?thesis using D(5) [of m rid a] by (simp add: nd G'_simps)
    qed
    show "vote_ok M G' p v" if "v \<in> set (waitVotesChannel (totalOrder nd))" for v
      using vote_ok_ext [OF ext D(6) [of v]] that by (simp add: nd t' t_def)
    show "vote_ok M G' p v \<and> v_MsgID v = m" if "v \<in> set (counter_list (totalOrder nd) m)" for v m
      using vote_ok_ext [OF ext, of M p v] D(7) [of v m] that by (simp add: nd cl [unfolded t_def])
  qed
  let ?s = "commit p {} nd es (take_line q p s)"
  have lx: "l = x" if "l \<in> set (writes_to c es)" for c l
    using that ds(2) by (intro relay_writes [OF e, of l c "q \<noteq> p"]) (simp add: es1)
  have va: "votes_at cd ?s c q' m = votes_at cd s c q' m" for c q' m
  proof -
    have "votes_at cd ?s c q' m = votes_at cd (take_line q p s) c q' m"
    proof (rule votes_commit_r)
      show "\<forall>c. \<forall>line\<in>set (writes_to c es). line_vote cd line = []"
        using lx line_vote_r [OF x] by blast
    qed (simp_all add: nd t' cl [unfolded t_def] t_def)
    then show ?thesis using votes_take_r [OF ch line_vote_r [OF rm(1)]] by simp
  qed
  have "tokens_ok cd M s G'" using I(7) by (simp add: tokens_ok_def G'_simps)
  then have "tokens_ok cd M ?s G'" using tokens_same va by blast
  moreover have "log_ok cd exec tr p0 G' p (processor nd) (log s p @ es)"
    using I(5) [OF p] rp ds(1) I(2) [OF p]
    by (simp add: log_ok_def G'_simps nd es1 replay_append wired_def t_def)
  moreover have "line_ok cd M G' p c l" if "l \<in> set (writes_to c es)" for c l
    using lx [OF that] x rm(2) by (auto simp: line_ok_def G'_simps)
  moreover have "wired M tr p nd" using I(2) [OF p] by (simp add: wired_def nd r_routes_def t' t_def)
  moreover have "live_ok cd M ?s G'"
  proof (rule live_commit [OF I(8) p I(3) _ _ ext])
    note L = live_okD [OF I(8)]
    have "prop_of G p (n_MsgID ann) \<noteq> None" using agreement_invD(2) [OF gI(5) ann(3) p] by blast
    then have "n_MsgID ann \<in> known_of G' p"
      using kn hold_okD(4) [OF D(1), of "n_MsgID ann"] order_invD(1) [OF gI(6) p] by (auto simp: G'_simps t_def)
    moreover have "head_open (holdQueue t')" using hq L(1) node_live_head [OF L(3) [OF p]] by (simp add: t_def)
    ultimately show "node_live cd M G' p nd"
      using L(3) [OF p] rm(2) ann(2) by (auto simp: node_live_def nd G'_simps cl t_def)
    show "bodies_ok cd G'" using L(1) bodies_ok_cong [of G' G cd] by (simp add: G'_simps)
    show "l \<in> set (chan (take_line q p s) a c) \<or> c = p \<and> r_ID rm' \<in> received (rmulticast nd)"
      if "l \<in> set (chan s a c)" "r_line cd a rm' l" for a rm' l c
      using taken_received [OF ch rm(1) _ that, of "received (rmulticast nd)"] by (simp add: nd)
  qed (use calculation live_okD(7,8) [OF I(8)] in \<open>auto simp: G'_simps nd\<close>)
  ultimately have "cluster_inv (Suc n) ?s G'"
    using ni g bnd take_line_subset by (intro sys_inv_commit [OF inv p _ _ _ _ ext]) simp_all
  moreover have "spends cd M s G ?s G'"
  proof -
    have "lines_work cd M ?s \<le> lines_work cd M (take_line q p s) + card M"
      using lines_work_commit [OF finite_M p, of cd "{}" nd es "take_line q p s"]
        relay_work [OF e finite_M x, of "q \<noteq> p" es1] ds(2) by (simp add: es1)
    moreover have "lines_work cd M s = lines_work cd M (take_line q p s) + 1"
      using lines_work_take [OF finite_M q p ch, of cd] line_work_r [OF rm(1)] by simp
    moreover have "votes_work M ?s = votes_work M s"
      using votes_work_commit [OF finite_M p, of "take_line q p s" s "{}" nd es] by (simp add: nd t' t_def)
    moreover have "receive_work M s G = receive_work M ?s G' + card M"
      using receive_work_insert [OF finite_M live_okD(7) [OF I(8)] p _ G'_simps(2) rm(2,3) nd(3), of "take_line q p s" "{}" es]
        ann(1) by (simp add: rmsg_work_def)
    moreover have "agree_work M G' = agree_work M G" by (intro agree_work_cong) (simp_all add: G'_simps)
    ultimately show ?thesis by (simp add: spends_def work_def G'_simps)
  qed
  ultimately show ?thesis by blast
qed

lemma receive_inv:
  assumes inv: "cluster_inv n s G" and p: "p \<in> M" and q: "q \<in> M" and e: "calm M e" and n: "Suc n < 2 ^ 64"
    and ch: "chan s q p = line # rest"
    and run: "handle_line cd exec e line (nodes s p) = Some (nd, es, err)"
  shows "\<exists>G'. cluster_inv (Suc n) (commit p {} nd es (take_line q p s)) G'
    \<and> spends cd M s G (commit p {} nd es (take_line q p s)) G'"
proof -
  have "line_ok cd M G q p line" using sys_invD(6) [OF inv q p] ch by simp
  then consider (reply) rep where "reply_line cd q rep line" "p_ProcessID rep = q" "vote_ok M G p (vote_of rep)"
    | (rm) rm where "r_line cd q rm line" "reg G (r_ID rm) = Some rm" by (auto simp: line_ok_def)
  then show ?thesis
  proof cases
    case reply
    then show ?thesis using receive_reply_inv [OF inv p q ch _ _ _ run] by blast
  next
    case rm
    have "rmsg_ok cd G (r_ID rm) rm" using ghost_okD(2) [OF sys_invD(1) [OF inv] rm(2)] by simp
    then show ?thesis
      using receive_old_inv [OF inv p q ch rm(1) _ run] receive_ask_inv [OF inv p q e n ch rm _ _ _ _ run]
        receive_announce_inv [OF inv p q e ch rm _ _ _ _ run] unfolding rmsg_ok_def by blast
  qed
qed

text \<open>A turn of the vote collector that only counts.\<close>

lemma collect_count_inv:
  assumes inv: "cluster_inv n s G" and p: "p \<in> M"
    and w: "waitVotesChannel (totalOrder (nodes s p)) = v # rest"
    and t1: "waitVotesChannel t1 = rest" "counter_list t1 = (counter_list (totalOrder (nodes s p)))
        (v_MsgID v := counter_list (totalOrder (nodes s p)) (v_MsgID v) @ [v])"
      "t1 = (totalOrder (nodes s p))\<lparr>waitVotesChannel := wv, waitProposalCounter := wc\<rparr>"
    and few: "length (counter_list (totalOrder (nodes s p)) (v_MsgID v) @ [v]) < card M"
  shows "cluster_inv (Suc n) (commit p us ((nodes s p)\<lparr>totalOrder := t1\<rparr>) [] s) G
    \<and> spends cd M s G (commit p us ((nodes s p)\<lparr>totalOrder := t1\<rparr>) [] s) G"
proof -
  note I = sys_invD [OF inv] and D = node_invD [OF sys_invD(3) [OF inv p]]
  let ?nd = "(nodes s p)\<lparr>totalOrder := t1\<rparr>"
  have ni: "node_inv M G p ?nd"
  proof (rule node_invI)
    show "hold_ok M G p (totalOrder ?nd)" by (rule hold_ok_queue [OF D(1)]) (simp_all add: t1(3))
    show "vote_ok M G p u" if "u \<in> set (waitVotesChannel (totalOrder ?nd))" for u
      using that D(6) [of u] w by (simp add: t1(1))
    show "vote_ok M G p u \<and> v_MsgID u = m" if "u \<in> set (counter_list (totalOrder ?nd) m)" for u m
      using that D(6) [of v] D(7) [of u m] w by (auto simp: t1(2) split: if_splits)
  qed (use D in \<open>simp_all add: t1(3)\<close>)
  have "vcount q m (votes_at cd (commit p us ?nd [] s) c q m) = vcount q m (votes_at cd s c q m)" for c q m
    using w by (cases "c = p"; auto simp: votes_at_def commit_def t1(1,2))
  then have "tokens_ok cd M (commit p us ?nd [] s) G" by (rule tokens_vcount [OF I(7)])
  moreover have "bounded (Suc n) ?nd" "wired M tr p ?nd"
    using I(4) [OF p] I(2) [OF p] by (simp_all add: t1(3) bounded_def wired_def)
  moreover have "live_ok cd M (commit p us ?nd [] s) G"
  proof (rule live_commit [OF I(8) p I(3) refl refl ext_refl [of "{}"]])
    show "node_live cd M G p ?nd"
      using live_okD(3) [OF I(8) p] few unfolding node_live_def by (auto simp: t1(2)) (simp add: t1(3))+
  qed (use live_okD(1,7,8) [OF I(8)] in auto)
  ultimately have "cluster_inv (Suc n) (commit p us ?nd [] s) G"
    using ghost_ok_used [OF I(1)] ni I(5) [OF p]
    by (intro sys_inv_commit [OF inv p _ _ _ _ ext_refl [of "{}"]]) simp_all
  moreover have "spends cd M s G (commit p us ?nd [] s) G"
    using lines_work_commit [OF finite_M p, of cd us ?nd "[]" s] votes_work_commit [OF finite_M p refl [of "nodes s"], of us ?nd "[]"]
      receive_work_same [of ?nd s p s G G M us "[]"] w by (simp add: spends_def work_def t1(1))
  ultimately show ?thesis ..
qed

text \<open>The turn that completes the votes for a message.\<close>

lemma collect_agree_inv:
  assumes inv: "cluster_inv n s G" and p: "p \<in> M" and e: "calm M e" and u: "fresh valid s (env_uuid1 e)"
    and w: "waitVotesChannel (totalOrder (nodes s p)) = v # rest"
    and t1: "waitVotesChannel t1 = rest" "counter_list t1 = (counter_list (totalOrder (nodes s p)))(v_MsgID v := [])"
      "t1 = (totalOrder (nodes s p))\<lparr>waitVotesChannel := wv, waitProposalCounter := wc\<rparr>"
    and votes: "votes = counter_list (totalOrder (nodes s p)) (v_MsgID v) @ [v]" "card M \<le> length votes"
    and m: "m \<in> set votes" "\<forall>v\<in>set votes. vote_key v \<le> vote_key m"
    and x: "dec_Announce cd d = Inr (NewTOAnnounceAgreementSeqMsg (v_ProcessID m) (v_ProposalSeqNum m) (v_MsgID m))"
      "r_line cd p \<lparr>r_ID = env_uuid1 e @ ''-'' @ digest cd d, r_Path = AnnounceAgreementSeqPath, r_Body = d\<rparr> x"
  shows "\<exists>G'. cluster_inv (Suc n) (commit p {env_uuid1 e} ((nodes s p)\<lparr>totalOrder := t1\<rparr>)
      (map (\<lambda>d. Write d x) (env_order e)) s) G'
    \<and> spends cd M s G (commit p {env_uuid1 e} ((nodes s p)\<lparr>totalOrder := t1\<rparr>)
      (map (\<lambda>d. Write d x) (env_order e)) s) G'"
proof -
  note I = sys_invD [OF inv] and D = node_invD [OF sys_invD(3) [OF inv p]]
  note gI = ghost_okD [OF sys_invD(1) [OF inv]]
  let ?nd = "(nodes s p)\<lparr>totalOrder := t1\<rparr>" and ?es = "map (\<lambda>d. Write d x) (env_order e)"
  define mid where "mid = v_MsgID v"
  define rm where "rm = \<lparr>r_ID = env_uuid1 e @ ''-'' @ digest cd d, r_Path = AnnounceAgreementSeqPath, r_Body = d\<rparr>"
  define rid where "rid = r_ID rm"
  have vo: "vote_ok M G p z \<and> v_MsgID z = mid" if "z \<in> set votes" for z
    using that D(6) [of v] D(7) [of z mid] w by (auto simp: votes mid_def)
  from this [OF m(1)] obtain r0 ask where ask: "asks G mid = Some (r0, ask)" "a_SrcID ask = p"
    by (auto simp: vote_ok_def)
  define A where "A q = vcount q mid (concat (map (line_vote cd) (chan s q p))) + vcount q mid rest" for q
  have sum: "A q + vcount q mid votes = (if prop_of G q mid \<noteq> None \<and> fin (isis_of G) mid = None then 1 else 0)" if "q \<in> M" for q
    using tokens_okD [OF I(7) that ask(1)] w by (simp add: ask(2) votes_at_def A_def votes(1) mid_def)
  have le1: "vcount q mid votes \<le> 1" if "q \<in> M" for q using sum [OF that] by (simp split: if_splits)
  have fin0: "fin (isis_of G) mid = None"
  proof (rule ccontr)
    assume "fin (isis_of G) mid \<noteq> None"
    then have "vcount (v_ProcessID m) mid votes = 0" using sum [of "v_ProcessID m"] vo [OF m(1)] by (auto simp: vote_ok_def)
    then show False using vcount_pos [OF m(1)] vo [OF m(1)] by simp
  qed
  have "distinct (map v_ProcessID votes)"
    using vo le1 by (intro voters_distinct [of _ mid]) (auto simp: vote_ok_def)
  then have voted: "\<exists>z\<in>set votes. v_ProcessID z = q" if "q \<in> M" for q
    using vo votes(2) that finite_M by (intro all_voted) (auto simp: vote_ok_def)
  have A0: "A q = 0" if "q \<in> M" for q
  proof -
    from voted [OF that] obtain z where z: "z \<in> set votes" "v_ProcessID z = q" by blast
    then have "1 \<le> vcount q mid votes" using vcount_pos [OF z(1)] vo [OF z(1)] by simp
    then show ?thesis using sum [OF that] by (simp split: if_splits)
  qed
  let ?key = "(unat (v_ProposalSeqNum m), v_ProcessID m)"
  define G' where "G' = G\<lparr>isis_of := (isis_of G)\<lparr>fin := (fin (isis_of G))(mid \<mapsto> ?key)\<rparr>, reg := (reg G)(rid \<mapsto> rm)\<rparr>"
  have "isis_step M (isis_of G) ((isis_of G)\<lparr>fin := (fin (isis_of G))(mid \<mapsto> ?key)\<rparr>)"
  proof (rule isis_step.agree [OF fin0])
    show "v_ProcessID m \<in> M" "prop_of G (v_ProcessID m) mid = Some (unat (v_ProposalSeqNum m))"
      using vo [OF m(1)] by (auto simp: vote_ok_def)
    fix q assume "q \<in> M"
    then obtain z where z: "z \<in> set votes" "v_ProcessID z = q" using voted by blast
    have "prop_of G q mid = Some (unat (v_ProposalSeqNum z))" using vo [OF z(1)] z(2) by (auto simp: vote_ok_def)
    moreover have "(unat (v_ProposalSeqNum z), q) \<le> ?key" using m(2) z by (auto simp: vote_key_def)
    ultimately show "\<exists>s'. prop_of G q mid = Some s' \<and> (s', q) \<le> ?key" by blast
  qed
  then have ir: "isis_reach M (isis_of G')" using isis_reach.step gI(1) by (simp add: G'_def)
  have u': "valid (env_uuid1 e)" "length (env_uuid1 e) = 36" "env_uuid1 e \<notin> used s" using u by (simp_all add: fresh_def)
  have ids: "take 36 rid = env_uuid1 e" "valid rid"
    using u' valid_append [OF u'(1) valid_append [OF valid_dash valid_digest]] by (simp_all add: rid_def rm_def)
  have new: "reg G rid = None" using gI(2) [of rid] ids(1) u'(3) by (cases "reg G rid") auto
  have ext: "ext {} G G'" using new fin0 by (auto simp: ext_def G'_def map_le_def)
  have g: "ghost_ok cd valid M (used s \<union> {env_uuid1 e}) G'"
  proof (rule ghost_okI [OF ir])
    show "r_ID r = i \<and> valid i \<and> take 36 i \<in> used s \<union> {env_uuid1 e} \<and> rmsg_ok cd G' i r" if "reg G' i = Some r" for i r
    proof (cases "i = rid")
      case True
      then show ?thesis
        using that ids x(1) vo [OF m(1)]
        by (auto simp: G'_def rid_def rmsg_ok_def rm_def NewTOAnnounceAgreementSeqMsg_def)
    next
      case False
      then have "r_ID r = i \<and> valid i \<and> take 36 i \<in> used s \<and> rmsg_ok cd G i r"
        using that gI(2) [of i r] by (simp add: G'_def)
      then show ?thesis using fin0 by (auto simp: rmsg_ok_def G'_def)
    qed
    show "ask_ok cd valid M (used s \<union> {env_uuid1 e}) G' m' i a" if "asks G' m' = Some (i, a)" for m' i a
      using gI(3) [of m' i a] that new by (auto simp: ask_ok_def G'_def)
    show "asks G' m' \<noteq> None" if "prop_of G' q' m' \<noteq> None" for q' m'
      using gI(4) [of q' m'] that by (simp add: G'_def)
  qed
  have nG: "node_inv M G p ?nd"
  proof (rule node_invI)
    show "hold_ok M G p (totalOrder ?nd)" by (rule hold_ok_queue [OF D(1)]) (simp_all add: t1(3))
    show "vote_ok M G p z" if "z \<in> set (waitVotesChannel (totalOrder ?nd))" for z
      using that D(6) [of z] w by (simp add: t1(1))
    show "vote_ok M G p z \<and> v_MsgID z = m'" if "z \<in> set (counter_list (totalOrder ?nd) m')" for z m'
      using that D(7) [of z m'] by (auto simp: t1(2) split: if_splits)
  qed (use D in \<open>simp_all add: t1(3)\<close>)
  have ni: "node_inv M G' p ?nd" using node_inv_ext [OF ext I(1) _ nG] by simp
  have lx: "l = x" if "l \<in> set (writes_to c ?es)" for c l using that by (rule writes_to_multicast [OF e])
  have lv: "concat (map (line_vote cd) (writes_to c ?es)) = []" for c
    using lx [of _ c] line_vote_r [OF x(2)] by auto
  let ?s = "commit p {env_uuid1 e} ?nd ?es s"
  have "tokens_ok cd M ?s G'"
    unfolding tokens_ok_def
  proof (intro ballI allI impI)
    fix q m' r a assume q: "q \<in> M" and a: "asks G' m' = Some (r, a)"
    have a0: "asks G m' = Some (r, a)" using a by (simp add: G'_def)
    show "vcount q m' (votes_at cd ?s (a_SrcID a) q m') = (if prop_of G' q m' \<noteq> None \<and> fin (isis_of G') m' = None then 1 else 0)"
    proof (cases "m' = mid")
      case True
      then have "a_SrcID a = p" using a0 ask by simp
      then have "vcount q m' (votes_at cd ?s (a_SrcID a) q m') = A q"
        using True by (auto simp: votes_at_def commit_def t1(1,2) A_def mid_def lv)
      then show ?thesis using A0 [OF q] True by (simp add: G'_def)
    next
      case False
      then have "vcount q m' (votes_at cd ?s (a_SrcID a) q m') = vcount q m' (votes_at cd s (a_SrcID a) q m')"
        using w by (cases "a_SrcID a = p"; auto simp: votes_at_def commit_def t1(1,2) mid_def lv)
      then show ?thesis using tokens_okD [OF I(7) q a0] False by (simp add: G'_def)
    qed
  qed
  moreover have "log_ok cd exec tr p0 G' p (processor ?nd) (log s p @ ?es)"
    using log_ok_ext [OF ext I(1) _ p I(5) [OF p]] by (intro log_ok_quiet) simp_all
  moreover have "line_ok cd M G' p c l" if "l \<in> set (writes_to c ?es)" for c l
    using lx [OF that] x(2) [folded rm_def] by (auto simp: line_ok_def G'_def rid_def intro!: exI [of _ rm])
  moreover have "bounded (Suc n) ?nd" "wired M tr p ?nd"
    using I(4) [OF p] I(2) [OF p] by (simp_all add: t1(3) bounded_def wired_def)
  moreover have "live_ok cd M ?s G'"
  proof (rule live_commit [OF I(8) p I(3) refl refl ext])
    note L = live_okD [OF I(8)]
    have "0 < card M" using p finite_M by (auto simp: card_gt_0_iff)
    then have "node_live cd M G p ?nd"
      using L(3) [OF p] unfolding node_live_def by (auto simp: t1(2)) (simp add: t1(3))+
    moreover have "node_inv M G p ?nd" using nG .
    ultimately show "node_live cd M G' p ?nd" using node_live_ext [OF ext] by simp
    show "fin (isis_of G) m' \<noteq> None \<or> announced cd G' m'" if "fin (isis_of G') m' \<noteq> None" for m'
      using that x(1) vo [OF m(1)] by (cases "m' = mid")
        (auto simp: announced_def G'_def rm_def NewTOAnnounceAgreementSeqMsg_def intro!: exI [of _ rid] exI [of _ rm])
    show "\<exists>line\<in>set (writes_to c ?es). r_line cd p r line"
      if "reg G' i = Some r" "reg G i = None" "c \<in> M" for i r c
      using that writes_to_members [OF e that(3), of x] x(2) by (auto simp: G'_def rm_def split: if_splits)
    show "bodies_ok cd G'" using L(1) bodies_ok_cong [of G' G cd] by (simp add: G'_def)
  qed (use calculation live_okD(7,8) [OF I(8)] in \<open>auto simp: G'_def\<close>)
  ultimately have "cluster_inv (Suc n) ?s G'"
    using ni g by (intro sys_inv_commit [OF inv p _ _ _ _ ext]) simp_all
  moreover have "spends cd M s G ?s G'"
  proof -
    note F = live_okD(7,8) [OF I(8)]
    have no: "rid \<notin> received (rmulticast (nodes s c))" if "c \<in> M" for c
      using node_invD(4) [OF I(3) [OF that], of rid] new by blast
    have "lines_work cd M ?s = lines_work cd M s + card M"
      using lines_work_commit [OF finite_M p, of cd "{env_uuid1 e}" ?nd ?es s] multicast_work [OF e finite_M x(2)] by simp
    moreover have "votes_work M ?s + 1 = votes_work M s"
      using votes_work_commit [OF finite_M p refl [of "nodes s"], of "{env_uuid1 e}" ?nd ?es] w by (simp add: t1(1))
    moreover have "receive_work M ?s G' = receive_work M s G + card M * card M"
      using receive_work_new [OF F(1) refl [of "nodes s"], of ?nd p G' rid rm M "{env_uuid1 e}" ?es] new no
      by (simp add: G'_def rmsg_work_def rm_def)
    moreover have "agree_work M G = agree_work M G' + (card M + card M * card M)"
      using agree_work_agreed [OF F(2) _ ask(1) _ fin0, of G' ?key] by (simp add: G'_def)
    ultimately show ?thesis by (simp add: spends_def work_def) (simp add: G'_def)
  qed
  ultimately show ?thesis by blast
qed

lemma collect_inv:
  assumes inv: "cluster_inv n s G" and p: "p \<in> M" and e: "calm M e" and u: "fresh valid s (env_uuid1 e)"
    and run: "node_collect cd e (nodes s p) = Some (nd, es, err)"
  shows "\<exists>G'. cluster_inv (Suc n) (commit p {env_uuid1 e} nd es s) G'
    \<and> spends cd M s G (commit p {env_uuid1 e} nd es s) G'"
proof -
  note I = sys_invD [OF inv] and D = node_invD [OF sys_invD(3) [OF inv p]]
  let ?t = "totalOrder (nodes s p)"
  have w: "SelfNodeID (nodes s p) = p" "members_ok M (bmulticast (nodes s p))"
    using I(2) [OF p] by (simp_all add: wired_def)
  from run obtain v rest where q: "waitVotesChannel ?t = v # rest"
    by (cases "waitVotesChannel ?t") (auto simp: node_collect_def collect_vote_def)
  define votes where "votes = counter_list ?t (v_MsgID v) @ [v]"
  define t1 where "t1 = ?t\<lparr>waitVotesChannel := rest, waitProposalCounter := (waitProposalCounter ?t)(v_MsgID v \<mapsto> votes)\<rparr>"
  define t2 where "t2 = t1\<lparr>waitProposalCounter := (waitProposalCounter t1)(v_MsgID v := None)\<rparr>"
  have vv: "valid (v_ProcessID z) \<and> valid (v_MsgID z)" if "z \<in> set votes" for z
  proof -
    have "vote_ok M G p z" using that D(6) [of v] D(7) [of z "v_MsgID v"] q by (auto simp: votes_def)
    then show ?thesis
      using valid_names ghost_okD(3) [OF I(1), of "v_MsgID z"] by (auto simp: vote_ok_def ask_ok_def)
  qed
  have u': "valid (env_uuid1 e)" using u by (simp add: fresh_def)
  have self: "valid (SelfNodeID (nodes s p))" using valid_names [OF p] w(1) by simp
  note N = node_collect_calm [OF w(2) e self u' q, folded counter_list_def, folded votes_def, OF vv, folded t1_def]
  show ?thesis
  proof (cases "length votes < card M")
    case True
    with N have "node_collect cd e (nodes s p) = Some ((nodes s p)\<lparr>totalOrder := t1\<rparr>, [], None)" by simp
    then have nd: "nd = (nodes s p)\<lparr>totalOrder := t1\<rparr>" "es = []" using run by simp_all
    have "cluster_inv (Suc n) (commit p {env_uuid1 e} ((nodes s p)\<lparr>totalOrder := t1\<rparr>) [] s) G
      \<and> spends cd M s G (commit p {env_uuid1 e} ((nodes s p)\<lparr>totalOrder := t1\<rparr>) [] s) G"
      using True by (intro collect_count_inv [OF inv p q]) (simp_all add: t1_def counter_list_def votes_def fun_eq_iff)
    then show ?thesis unfolding nd by blast
  next
    case False
    with N obtain m d x where m: "m \<in> set votes" "\<forall>v\<in>set votes. vote_key v \<le> vote_key m"
      and nc: "node_collect cd e (nodes s p) = Some ((nodes s p)\<lparr>totalOrder := t2\<rparr>, map (\<lambda>d. Write d x) (env_order e), None)"
      and x: "dec_Announce cd d = Inr (NewTOAnnounceAgreementSeqMsg (v_ProcessID m) (v_ProposalSeqNum m) (v_MsgID m))"
        "r_line cd p \<lparr>r_ID = env_uuid1 e @ ''-'' @ digest cd d, r_Path = AnnounceAgreementSeqPath, r_Body = d\<rparr> x"
      unfolding w(1) t2_def by (simp only: if_False) blast
    have nd: "nd = (nodes s p)\<lparr>totalOrder := t2\<rparr>" "es = map (\<lambda>d. Write d x) (env_order e)"
      using nc run by simp_all
    have "counter_list t2 = (counter_list ?t)(v_MsgID v := [])"
      by (simp add: t2_def t1_def counter_list_def fun_eq_iff)
    then show ?thesis
      unfolding nd using False m x
      by (intro collect_agree_inv [OF inv p e u q, where votes = votes and wv = rest and m = m and d = d])
         (simp_all add: t2_def t1_def votes_def)
  qed
qed

theorem step_inv:
  assumes "cluster_inv n s G" "sys_step cd valid exec M s s'" "Suc n < 2 ^ 64"
  shows "\<exists>G'. cluster_inv (Suc n) s' G' \<and> affords cd M s G s' G'"
  using assms(2)
proof cases
  case (multicast p e path data nd es err)
  then show ?thesis using multicast_inv [OF assms(1)] by simp
next
  case (receive p q e line rest nd es err)
  then show ?thesis using receive_inv [OF assms(1) _ _ _ assms(3)] spends_affords by fast
next
  case (collect p e nd es err)
  then show ?thesis using collect_inv [OF assms(1)] spends_affords by fast
qed

end

section \<open>The initial state\<close>

definition empty_ghost :: "'b ghost" where
  "empty_ghost = \<lparr>isis_of = isis_init, reg = Map.empty, asks = Map.empty\<rparr>"

lemma fold_AddMember:
  "senders (fold (\<lambda>d. AddMember d (Some (c d))) ms b) d = (if d \<in> set ms then Some (Some (c d)) else senders b d)"
  "b_router (fold (\<lambda>d. AddMember d (Some (c d))) ms b) = b_router b"
  by (induction ms arbitrary: b) (auto simp: AddMember_def)

lemma started_wired: "wired (set ms) tr p (started ms tr p0 p)"
  using Start_binds_routes [of p0 "WithSelfNodeID p NewGroupBuilder"]
  by (auto simp: wired_def started_def Let_def members_ok_def clients_ok_def fold_AddMember b_routes_def r_routes_def
      ran_def dom_def Start_simps bindTODeliver_def bindRDeliver_def bindBDeliver_def Build_def WithSelfNodeID_def
      NewGroupBuilder_def B_Bind_def NewBMulticast_def split: if_splits)

lemma started_fields:
  "waitVotesChannel (totalOrder (started ms tr p0 p)) = []"
  "counter_list (totalOrder (started ms tr p0 p)) mid = []"
  "received (rmulticast (started ms tr p0 p)) = {}" "processor (started ms tr p0 p) = p0"
  "holdQueue (totalOrder (started ms tr p0 p)) = \<lparr>mem = [], pq = []\<rparr>"
  "holdQueueMap (totalOrder (started ms tr p0 p)) = Map.empty"
  "maxProposalSeqNumOfSelf (totalOrder (started ms tr p0 p)) = 0"
  "maxAgreementSeqNumOfGroup (totalOrder (started ms tr p0 p)) = 0"
  by (simp_all add: started_def Let_def Start_simps bindTODeliver_def Build_def NewTotalOrder_def counter_list_def
      NewRMulticast_def R_Bind_def)

lemma empty_heap: "pq_heap \<lparr>mem = [], pq = []\<rparr>" "pq_view \<lparr>mem = [], pq = []\<rparr> = Map.empty"
  by (auto simp: pq_heap_def pq_ok_def heap_ordered_def pq_Len_def pq_view_def)

lemma initial_inv:
  fixes cd :: "'b codec" and tr :: "'h router"
  shows "sys_inv cd valid exec (set ms) tr p0 0 (initial ms tr p0) empty_ghost"
proof -
  have "ghost_ok cd valid (set ms) {} (empty_ghost :: 'b ghost)"
    by (simp add: ghost_ok_def empty_ghost_def isis_reach.init) (simp add: isis_init_def)
  moreover have "hold_ok (set ms) (empty_ghost :: 'b ghost) p (totalOrder (started ms tr p0 p))" for p
    by (simp add: hold_ok_def started_fields empty_heap) (simp add: empty_ghost_def isis_init_def)
  then have "node_inv (set ms) (empty_ghost :: 'b ghost) p (started ms tr p0 p)" for p
    by (simp add: node_inv_def started_fields) (simp add: empty_ghost_def isis_init_def)
  moreover have "log_ok cd exec tr p0 (empty_ghost :: 'b ghost) p (processor (started ms tr p0 p)) []" for p
    by (simp add: log_ok_def empty_ghost_def isis_init_def started_fields)
  ultimately show ?thesis
    unfolding sys_inv_def
    by (simp add: initial_def bounded_def started_fields started_wired)
       (auto simp: tokens_ok_def live_ok_def node_live_def bodies_ok_def requested_def empty_ghost_def isis_init_def
         started_fields head_open_def pq_Peek_def card_gt_0_iff)
qed

end
