(* ===== verification/Total_Order.thy ===== *)
theory Total_Order
  imports Cluster_Sim
begin

text \<open>
  What a failure-free group guarantees to the layer above, in every state of every run: the
  delivered sequences of two nodes are comparable, so nodes that delivered equally many
  messages are in the same state.
\<close>

section \<open>The delivery loop returns\<close>

definition always_returns :: "('h \<Rightarrow> 'm \<Rightarrow> 's \<Rightarrow> ('s, 'e) call) \<Rightarrow> bool" where
  "always_returns ex \<longleftrightarrow> (\<forall>f msg p. ex f msg p \<noteq> None)"

lemma Run_returns: "always_returns ex \<Longrightarrow> Run ex r path msg p \<noteq> None"
  by (simp add: Run_def always_returns_def split: option.split)

lemma deliver_loop_returns:
  fixes ex :: "'h \<Rightarrow> 'b TOMsg \<Rightarrow> 'p \<Rightarrow> ('p, 'b effect) call"
  assumes ex: "always_returns ex"
  shows "pq_heap (holdQueue t) \<Longrightarrow> deliver_loop cd ex alive now t pr \<noteq> None"
proof (induction "length (pq (holdQueue t))" arbitrary: t pr rule: less_induct)
  case less
  show ?case
  proof (cases "pq_Peek (holdQueue t)")
    case None
    then show ?thesis by (simp add: deliver_loop.simps [of cd ex alive now t pr])
  next
    case (Some a)
    obtain h' where pop: "hold_pop (holdQueue t) = Some (h', a)" "pq_heap h'" "length (pq h') < length (pq (holdQueue t))"
      using hold_pop_correct [OF less.prems Some] by blast
    have IH: "deliver_loop cd ex alive now (t\<lparr>holdQueueMap := m, holdQueue := h'\<rparr>) p1 \<noteq> None" for m p1
      using less.hyps [of "t\<lparr>holdQueueMap := m, holdQueue := h'\<rparr>"] pop by simp
    let ?x = "item_at (holdQueue t) a"
    show ?thesis
    proof (cases "agreed ?x \<and> (\<exists>m. dec_TOMsg cd (body ?x) = Inr m)")
      case True
      then obtain m where m: "agreed ?x" "dec_TOMsg cd (body ?x) = Inr m" by blast
      obtain p1 es err where r: "Run ex (t_router t) (t_Path m) m pr = Some (p1, es, err)"
        using Run_returns [OF ex, of "t_router t" "t_Path m" m pr] by auto
      obtain r' where "deliver_loop cd ex alive now
          (t\<lparr>holdQueueMap := (holdQueueMap t)(msgID ?x := None), holdQueue := h'\<rparr>) p1 = Some r'"
        using IH by blast
      then show ?thesis
        using Some pop(1) m r by (cases r') (simp add: deliver_loop.simps [of cd ex alive now t pr] Let_def)
    next
      case False
      then show ?thesis
        using Some pop(1)
        by (auto simp: deliver_loop.simps [of cd ex alive now t pr] Let_def split: option.split sum.split)
    qed
  qed
qed

section \<open>Every run follows the abstract machine\<close>

context cluster
begin

lemma run_inv_work:
  assumes "run cd valid exec ms tr p0 n s" "M = set ms" "n < 2 ^ 64"
  shows "\<exists>G. cluster_inv n s G \<and> work cd M s G \<le> card (dom (asks G)) * message_work M"
  using assms(1,3)
proof (induction rule: run.induct)
  case start
  have "work cd (set ms) (initial ms tr p0) empty_ghost = 0"
    by (simp add: work_def lines_work_def votes_work_def receive_work_def agree_work_def initial_def started_fields empty_ghost_def)
  then show ?case using initial_inv [of cd valid exec ms tr p0] unfolding assms(2) by auto
next
  case (next_step n s s')
  then obtain G where G: "cluster_inv n s G" "work cd M s G \<le> card (dom (asks G)) * message_work M" by auto
  obtain G' where "cluster_inv (Suc n) s' G'" "affords cd M s G s' G'"
    using step_inv [OF G(1)] next_step assms(2) by blast
  then show ?case using G(2) by (auto simp: affords_def)
qed

lemma run_inv:
  assumes "run cd valid exec ms tr p0 n s" "M = set ms" "n < 2 ^ 64"
  shows "\<exists>G. cluster_inv n s G"
  using run_inv_work [OF assms] by blast

lemma delivered_comparable:
  assumes "cluster_inv n s G" "p \<in> M" "q \<in> M"
  shows "prefix (delivered (log s p)) (delivered (log s q)) \<or> prefix (delivered (log s q)) (delivered (log s p))"
  using isis_total_order [OF ghost_okD(1) [OF sys_invD(1) [OF assms(1)]] assms(2,3)]
    sys_invD(5) [OF assms(1,2)] sys_invD(5) [OF assms(1,3)] by (simp add: log_ok_def)

lemma delivered_distinct:
  assumes "cluster_inv n s G" "p \<in> M"
  shows "distinct (delivered (log s p))"
proof -
  have "sorted_wrt (\<lambda>a b. agr (isis_of G) a < agr (isis_of G) b) (dlv_of G p)"
    using order_invD(2) [OF ghost_okD(6) [OF sys_invD(1) [OF assms(1)]] assms(2)] .
  then have "distinct (dlv_of G p)" by (rule sorted_key_distinct)
  then show ?thesis using sys_invD(5) [OF assms] by (simp add: log_ok_def)
qed

lemma replica_state:
  assumes "cluster_inv n s G" "p \<in> M" "q \<in> M" "delivered (log s p) = delivered (log s q)"
  shows "processor (nodes s p) = processor (nodes s q) \<and> printed (log s p) = printed (log s q)"
  using sys_invD(5) [OF assms(1,2)] sys_invD(5) [OF assms(1,3)] assms(4) by (simp add: log_ok_def)

lemma counters_inv:
  assumes "cluster_inv n s G" "p \<in> M"
  shows "unat (maxProposalSeqNumOfSelf (totalOrder (nodes s p))) \<le> n
    \<and> unat (maxAgreementSeqNumOfGroup (totalOrder (nodes s p))) \<le> n"
  using sys_invD(4) [OF assms] by (simp add: bounded_def)

lemma hold_queue_inv:
  assumes "cluster_inv n s G" "p \<in> M"
  defines "t \<equiv> totalOrder (nodes s p)"
  shows "pq_heap (holdQueue t)
    \<and> (\<forall>mid a. holdQueueMap t mid = Some a \<longleftrightarrow> (\<exists>x. pq_view (holdQueue t) a = Some x \<and> msgID x = mid))
    \<and> (\<forall>mid. holdQueueMap t mid \<noteq> None \<longrightarrow> mid \<notin> set (delivered (log s p)))"
proof -
  have h: "hold_ok M G p t" using node_invD(1) [OF sys_invD(3) [OF assms(1,2)]] by (simp add: t_def)
  have "delivered (log s p) = dlv_of G p" using sys_invD(5) [OF assms(1,2)] by (simp add: log_ok_def)
  then show ?thesis
    using hold_okD(1,3) [OF h] hold_okD(2) [OF h] by (fastforce simp: item_ok_def)
qed

text \<open>
  A handler run on a line in flight returns, when the handlers of the layer above do, unless the
  line is a vote and the channel of votes is full.
\<close>

lemma handlers_return:
  assumes inv: "cluster_inv n s G" and pq: "p \<in> M" "q \<in> M" and e: "calm M e"
    and ex: "always_returns exec"
    and ch: "chan s q p = line # rest"
  shows "handle_line cd exec e line (nodes s p) = None \<longleftrightarrow>
     b_Path (fst (dec_BMsg cd line)) = WaitProposalSeqPath
     \<and> waitVotesCapacity \<le> length (waitVotesChannel (totalOrder (nodes s p)))"
proof -
  have w: "SelfNodeID (nodes s p) = p" "members_ok M (bmulticast (nodes s p))" "b_routes (bmulticast (nodes s p))"
    "r_routes (rmulticast (nodes s p))" using sys_invD(2) [OF inv pq(1)] by (simp_all add: wired_def)
  note gI = ghost_okD [OF sys_invD(1) [OF inv]]
  have "line_ok cd M G q p line" using sys_invD(6) [OF inv pq(2,1)] ch by simp
  then consider (reply) rep where "reply_line cd q rep line"
    | (rm) rm where "r_line cd q rm line" "reg G (r_ID rm) = Some rm" by (auto simp: line_ok_def)
  then show ?thesis
  proof cases
    case reply
    moreover from this have "b_Path (fst (dec_BMsg cd line)) = WaitProposalSeqPath" by (auto simp: reply_line_def)
    ultimately show ?thesis using handle_line_reply [OF w(3), where exec = exec and e = e] by simp
  next
    case rm
    then have path: "b_Path (fst (dec_BMsg cd line)) = RMulticastPath" by (auto simp: r_line_def)
    have ok: "valid (r_ID rm)" "rmsg_ok cd G (r_ID rm) rm" using gI(2) [OF rm(2)] by simp_all
    have vp: "valid (r_Path rm)" using ok(2) valid_paths by (auto simp: rmsg_ok_def)
    define nd1 where "nd1 = (nodes s p)\<lparr>rmulticast := (rmulticast (nodes s p))
      \<lparr>received := insert (r_ID rm) (received (rmulticast (nodes s p)))\<rparr>\<rparr>"
    have nd1: "members_ok M (bmulticast nd1)" "SelfNodeID nd1 = p" "totalOrder nd1 = totalOrder (nodes s p)"
      using w by (simp_all add: nd1_def)
    have fin: "handle_line cd exec e line (nodes s p) \<noteq> None"
      if "r_ID rm \<notin> received (rmulticast (nodes s p))" "r_router (rmulticast (nodes s p)) (r_Path rm) = Some f"
        "exec_r cd exec e f rm nd1 \<noteq> None" for f
      using handle_line_new [OF w(3,4,2) e rm(1) that(1) _ ok(1) vp that(2), of exec] that(3) valid_names [OF pq(1)] w(1)
      by (auto simp: nd1_def split: option.splits)
    have "handle_line cd exec e line (nodes s p) \<noteq> None"
    proof (cases "r_ID rm \<in> received (rmulticast (nodes s p))")
      case True
      then show ?thesis using handle_line_old [OF w(3) rm(1) True] by simp
    next
      case False
      from ok(2) consider (ask) ask where "r_Path rm = AskProposalSeqPath" "dec_Ask cd (r_Body rm) = Inr ask"
          "asks G (a_MsgID ask) = Some (r_ID rm, ask)"
        | (ann) "r_Path rm = AnnounceAgreementSeqPath" by (auto simp: rmsg_ok_def)
      then show ?thesis
      proof cases
        case ask
        have a: "a_SrcID ask \<in> M" "valid (a_MsgID ask)" using gI(3) [OF ask(3)] by (simp_all add: ask_ok_def)
        have "exec_r cd exec e AskProposalSeq rm nd1 \<noteq> None"
          using exec_r_ask [where exec = exec, OF nd1(1) e ask(2) a(1)] a(2) valid_names [OF pq(1)] nd1(2) by auto
        then show ?thesis using fin [OF False] w(4) ask(1) by (simp add: r_routes_def)
      next
        case ann
        let ?al = "\<lambda>pid. IsNodeAlived pid (bmulticast nd1)"
        have hq: "hold_ok M G p (totalOrder (nodes s p))" using node_invD(1) [OF sys_invD(3) [OF inv pq(1)]] .
        have "handle_announce cd exec ?al (env_now e) rm (totalOrder nd1, processor nd1) \<noteq> None"
        proof (cases "dec_Announce cd (r_Body rm)")
          case (Inr an)
          have "pq_heap (pq_Update a (n_ProcessID an) (n_AgreementSeq an) (holdQueue (totalOrder nd1)))"
            if "holdQueueMap (totalOrder nd1) (n_MsgID an) = Some a" for a
            using that hold_okD(1) [OF hq] hold_okD(2) [OF hq, of "n_MsgID an" a] nd1(3)
            by (intro pq_Update_correct(1)) (auto simp: pq_view_def split: if_splits)
          then show ?thesis
            using Inr deliver_loop_returns [OF ex]
            by (auto simp: handle_announce_def Let_def split: option.split)
        qed (simp add: handle_announce_def)
        then have "exec_r cd exec e AnnounceAgreementSeq rm nd1 \<noteq> None"
          by (auto simp: exec_r_def split: option.splits)
        then show ?thesis using fin [OF False] w(4) ann by (simp add: r_routes_def)
      qed
    qed
    then show ?thesis by (simp add: path)
  qed
qed

end

end
