(* ===== verification/Quiescence.thy ===== *)
theory Quiescence
  imports Total_Order
begin

text \<open>
  That a group comes to rest when no more messages are multicast, and what it has done then:
  when no line is in flight and no vote waits, every message that was ever requested has been
  delivered by every node.
\<close>

section \<open>Turns\<close>

text \<open>The steps of a group that are not multicasts: the receipt of a line, or of a vote.\<close>

inductive turn ::
  "'b codec \<Rightarrow> (string \<Rightarrow> bool) \<Rightarrow> ('h \<Rightarrow> 'b TOMsg \<Rightarrow> 'p \<Rightarrow> ('p, 'b effect) call) \<Rightarrow> string set \<Rightarrow>
     ('b, 'h, 'p) system \<Rightarrow> ('b, 'h, 'p) system \<Rightarrow> bool"
  for cd valid exec M where
  receive: "p \<in> M \<Longrightarrow> q \<in> M \<Longrightarrow> calm M e \<Longrightarrow> chan s q p = line # rest \<Longrightarrow>
     handle_line cd exec e line (nodes s p) = Some (nd, es, err) \<Longrightarrow>
     turn cd valid exec M s (commit p {} nd es (take_line q p s))"
| collect: "p \<in> M \<Longrightarrow> calm M e \<Longrightarrow> fresh valid s (env_uuid1 e) \<Longrightarrow>
     node_collect cd e (nodes s p) = Some (nd, es, err) \<Longrightarrow>
     turn cd valid exec M s (commit p {env_uuid1 e} nd es s)"

lemma turn_step: "turn cd valid exec M s s' \<Longrightarrow> sys_step cd valid exec M s s'"
  by (induction rule: turn.induct) (auto intro: sys_step.intros)

lemma turns_run:
  "(turn cd valid exec (set ms) ^^ k) s s' \<Longrightarrow> run cd valid exec ms tr p0 n s \<Longrightarrow> run cd valid exec ms tr p0 (n + k) s'"
  by (induction k arbitrary: s') (auto intro: run.next_step turn_step)

definition quiescent :: "string set \<Rightarrow> ('b, 'h, 'p) system \<Rightarrow> bool" where
  "quiescent M s \<longleftrightarrow>
     (\<forall>q\<in>M. \<forall>c\<in>M. chan s q c = []) \<and> (\<forall>p\<in>M. waitVotesChannel (totalOrder (nodes s p)) = [])"

lemma prefix_same_set:
  assumes "prefix xs ys" "distinct ys" "set ys \<subseteq> set xs"
  shows "xs = ys"
proof -
  obtain zs where ys: "ys = xs @ zs" using assms(1) by (auto simp: prefix_def)
  then have "zs = []" using assms(2,3) by (cases zs) auto
  then show ?thesis using ys by simp
qed

context cluster
begin

text \<open>No work is left only at rest.\<close>

lemma quiescent_work: "work cd M s G = 0 \<Longrightarrow> quiescent M s"
proof -
  assume w: "work cd M s G = 0"
  have "chan s q c = []" if "q \<in> M" "c \<in> M" for q c
  proof -
    have "sum_list (map (line_work cd) (chan s q c)) = 0"
      using w that finite_M by (simp add: work_def lines_work_def)
    then show ?thesis by (cases "chan s q c") (auto simp: line_work_def split: if_splits)
  qed
  moreover have "waitVotesChannel (totalOrder (nodes s p)) = []" if "p \<in> M" for p
    using w that finite_M by (simp add: work_def votes_work_def)
  ultimately show ?thesis by (simp add: quiescent_def)
qed

lemma quiescent_no_turn: "quiescent M s \<Longrightarrow> \<not> turn cd valid exec M s s'"
  by (auto simp: quiescent_def node_collect_def collect_vote_def elim!: turn.cases)

lemma quiescent_received:
  assumes "cluster_inv n s G" "quiescent M s" "reg G rid = Some rm" "p \<in> M"
  shows "rid \<in> received (rmulticast (nodes s p))"
  using live_okD(4) [OF sys_invD(8) [OF assms(1)] assms(3,4)] ghost_okD(2) [OF sys_invD(1) [OF assms(1)] assms(3)]
    assms(2,4) by (auto simp: arrives_def quiescent_def)

lemma quiescent_proposed:
  assumes "cluster_inv n s G" "quiescent M s" "asks G mid = Some (rid, ask)" "p \<in> M"
  shows "prop_of G p mid \<noteq> None"
proof -
  obtain rm where "reg G rid = Some rm"
    using ghost_okD(3) [OF sys_invD(1) [OF assms(1)] assms(3)] by (auto simp: ask_ok_def)
  from quiescent_received [OF assms(1,2) this assms(4)] show ?thesis
    using node_invD(5) [OF sys_invD(3) [OF assms(1,4)] assms(3)] by simp
qed

lemma quiescent_agreed:
  assumes inv: "cluster_inv n s G" and qu: "quiescent M s" and ask: "asks G mid = Some (rid, ask)"
  shows "fin (isis_of G) mid \<noteq> None"
proof
  assume no: "fin (isis_of G) mid = None"
  let ?c = "a_SrcID ask"
  let ?vs = "counter_list (totalOrder (nodes s ?c)) mid"
  have c: "?c \<in> M" using ghost_okD(3) [OF sys_invD(1) [OF inv] ask] by (simp add: ask_ok_def)
  have "q \<in> v_ProcessID ` set ?vs" if q: "q \<in> M" for q
  proof -
    have "votes_at cd s ?c q mid = ?vs" using qu c q by (simp add: votes_at_def quiescent_def)
    moreover have "vcount q mid (votes_at cd s ?c q mid) = 1"
      using tokens_okD [OF sys_invD(7) [OF inv] q ask] quiescent_proposed [OF inv qu ask q] no by simp
    ultimately have "vcount q mid ?vs \<noteq> 0" by simp
    then show ?thesis unfolding vcount_0 by auto
  qed
  then have "M \<subseteq> v_ProcessID ` set ?vs" by blast
  then have "card M \<le> length ?vs"
    using card_mono [of "v_ProcessID ` set ?vs" M] card_image_le [of "set ?vs" v_ProcessID] card_length [of ?vs] by simp
  then show False using node_live_counter [OF live_okD(3) [OF sys_invD(8) [OF inv] c], of mid] by simp
qed

lemma quiescent_known:
  assumes inv: "cluster_inv n s G" and qu: "quiescent M s" and ask: "asks G mid = Some (rid, ask)" and p: "p \<in> M"
  shows "mid \<in> known_of G p"
proof -
  obtain rid' rm ann where r: "reg G rid' = Some rm" "r_Path rm = AnnounceAgreementSeqPath"
    "dec_Announce cd (r_Body rm) = Inr ann" "n_MsgID ann = mid"
    using live_okD(2) [OF sys_invD(8) [OF inv] quiescent_agreed [OF inv qu ask]] by (auto simp: announced_def)
  then show ?thesis
    using quiescent_received [OF inv qu r(1) p] live_okD(3) [OF sys_invD(8) [OF inv] p] by (auto simp: node_live_def)
qed

lemma quiescent_empty:
  assumes inv: "cluster_inv n s G" and qu: "quiescent M s" and p: "p \<in> M"
  shows "pq (holdQueue (totalOrder (nodes s p))) = []"
proof (rule ccontr)
  let ?h = "holdQueue (totalOrder (nodes s p))"
  assume "pq ?h \<noteq> []"
  then obtain a where a: "pq_Peek ?h = Some a" by (cases "pq ?h") (auto simp: pq_Peek_def)
  have h: "hold_ok M G p (totalOrder (nodes s p))" using node_invD(1) [OF sys_invD(3) [OF inv p]] .
  have i: "item_ok M G p ((item_at ?h a)\<lparr>index := 0\<rparr>)"
    using hold_okD(3) [OF h pq_Peek_least(1) [OF hold_okD(1) [OF h] a]] .
  then obtain rid ask where "asks G (msgID (item_at ?h a)) = Some (rid, ask)" by (auto simp: item_ok_def)
  from quiescent_known [OF inv qu this p] have "agreed (item_at ?h a)" using i by (auto simp: item_ok_def split: if_splits)
  then show False using node_live_head [OF live_okD(3) [OF sys_invD(8) [OF inv] p]] a by (simp add: head_open_def)
qed

lemma quiescent_delivered:
  assumes inv: "cluster_inv n s G" and qu: "quiescent M s" and p: "p \<in> M"
  shows "set (dlv_of G p) = dom (asks G)"
proof
  have h: "hold_ok M G p (totalOrder (nodes s p))" using node_invD(1) [OF sys_invD(3) [OF inv p]] .
  note gI = ghost_okD [OF sys_invD(1) [OF inv]]
  show "dom (asks G) \<subseteq> set (dlv_of G p)"
  proof
    fix mid assume "mid \<in> dom (asks G)"
    then obtain rid ask where a: "asks G mid = Some (rid, ask)" by auto
    have "holdQueueMap (totalOrder (nodes s p)) mid = None"
      using hold_okD(2) [OF h, of mid] quiescent_empty [OF inv qu p]
      by (cases "holdQueueMap (totalOrder (nodes s p)) mid") (auto simp: pq_view_def)
    then show "mid \<in> set (dlv_of G p)" using hold_okD(4) [OF h quiescent_proposed [OF inv qu a p]] by simp
  qed
  show "set (dlv_of G p) \<subseteq> dom (asks G)"
  proof
    fix mid assume "mid \<in> set (dlv_of G p)"
    then have "mid \<in> known_of G p" using order_invD(1) [OF gI(6) p] by auto
    then have "prop_of G p mid \<noteq> None" using agreement_invD(4) [OF gI(5)] agreement_invD(2) [OF gI(5) _ p] by blast
    then show "mid \<in> dom (asks G)" using gI(4) by blast
  qed
qed

lemma requested_asks:
  assumes inv: "cluster_inv n s G"
  shows "requested cd M s = dom (asks G)"
proof
  show "dom (asks G) \<subseteq> requested cd M s" using live_okD(6) [OF sys_invD(8) [OF inv]] .
  show "requested cd M s \<subseteq> dom (asks G)"
  proof
    fix mid assume "mid \<in> requested cd M s"
    then obtain p c line where l: "p \<in> M" "c \<in> M" "line \<in> set (writes_to c (log s p))" "line_ask cd line = Some mid"
      by (auto simp: requested_def)
    from live_okD(5) [OF sys_invD(8) [OF inv] l(1-3)] consider
        rm where "r_line cd p rm line" "reg G (r_ID rm) = Some rm" | rep where "reply_line cd p rep line"
      by (auto simp: line_ok_def)
    then show "mid \<in> dom (asks G)"
    proof cases
      case 1
      then show ?thesis
        using l(4) ghost_okD(2) [OF sys_invD(1) [OF inv] 1(2)]
        by (auto simp: line_ask_def r_line_def rmsg_ok_def split: if_splits sum.splits)
    next
      case 2
      then show ?thesis using l(4) by (auto simp: line_ask_def reply_line_def)
    qed
  qed
qed

lemma quiescent_all:
  assumes inv: "cluster_inv n s G" and qu: "quiescent M s" and p: "p \<in> M" and q: "q \<in> M"
  shows "set (delivered (log s p)) = requested cd M s" "delivered (log s p) = delivered (log s q)"
proof -
  have d: "set (delivered (log s c)) = requested cd M s" if "c \<in> M" for c
    using quiescent_delivered [OF inv qu that] requested_asks [OF inv] sys_invD(5) [OF inv that] by (simp add: log_ok_def)
  then show "set (delivered (log s p)) = requested cd M s" using p .
  show "delivered (log s p) = delivered (log s q)"
    using delivered_comparable [OF inv p q] prefix_same_set delivered_distinct [OF inv p] delivered_distinct [OF inv q]
      d [OF p] d [OF q] by (metis order_refl)
qed

section \<open>Coming to rest\<close>

lemma turn_inv:
  assumes "cluster_inv n s G" "turn cd valid exec M s s'" "Suc n < 2 ^ 64"
  shows "\<exists>G'. cluster_inv (Suc n) s' G' \<and> spends cd M s G s' G'"
  using assms(2)
proof cases
  case (receive p q e line rest nd es err)
  then show ?thesis using receive_inv [OF assms(1) _ _ _ assms(3)] by fast
next
  case (collect p e nd es err)
  then show ?thesis using collect_inv [OF assms(1)] by fast
qed

lemma turns_work:
  "(turn cd valid exec M ^^ k) s s' \<Longrightarrow> cluster_inv n s G \<Longrightarrow> n + k < 2 ^ 64 \<Longrightarrow>
     \<exists>G'. cluster_inv (n + k) s' G' \<and> work cd M s' G' + k \<le> work cd M s G \<and> dom (asks G') = dom (asks G)"
proof (induction k arbitrary: s')
  case 0
  then show ?case by (auto intro: exI [of _ G])
next
  case (Suc k)
  then obtain s1 where s1: "(turn cd valid exec M ^^ k) s s1" "turn cd valid exec M s1 s'" by auto
  from Suc.IH [OF s1(1) Suc.prems(2)] Suc.prems(3) obtain G1 where G1: "cluster_inv (n + k) s1 G1"
    "work cd M s1 G1 + k \<le> work cd M s G" "dom (asks G1) = dom (asks G)" by auto
  from turn_inv [OF G1(1) s1(2)] Suc.prems(3) obtain G' where "cluster_inv (Suc (n + k)) s' G'" "spends cd M s1 G1 s' G'"
    by auto
  then show ?case using G1 by (auto simp: spends_def intro!: exI [of _ G'])
qed

text \<open>Within the bound the number of steps cannot overflow.\<close>

lemma turns_reach:
  "(turn cd valid exec M ^^ k) s s' \<Longrightarrow> cluster_inv n s G \<Longrightarrow> n + work cd M s G < 2 ^ 64 \<Longrightarrow>
     \<exists>G'. cluster_inv (n + k) s' G' \<and> work cd M s' G' + k \<le> work cd M s G \<and> dom (asks G') = dom (asks G)"
proof (induction k arbitrary: s')
  case 0
  then show ?case by (auto intro: exI [of _ G])
next
  case (Suc k)
  then obtain s1 where s1: "(turn cd valid exec M ^^ k) s s1" "turn cd valid exec M s1 s'" by auto
  from Suc.IH [OF s1(1) Suc.prems(2,3)] obtain G1 where G1: "cluster_inv (n + k) s1 G1"
    "work cd M s1 G1 + k \<le> work cd M s G" "dom (asks G1) = dom (asks G)" by auto
  have "work cd M s1 G1 \<noteq> 0" using quiescent_work quiescent_no_turn s1(2) by blast
  then have "Suc (n + k) < 2 ^ 64" using G1(2) Suc.prems(3) by simp
  from turn_inv [OF G1(1) s1(2) this] obtain G' where "cluster_inv (Suc (n + k)) s' G'" "spends cd M s1 G1 s' G'"
    by auto
  then show ?case using G1 by (auto simp: spends_def intro!: exI [of _ G'])
qed

text \<open>A vote that waits can be collected.\<close>

lemma collect_returns:
  assumes inv: "cluster_inv n s G" and p: "p \<in> M" and e: "calm M e" and u: "valid (env_uuid1 e)"
    and w: "waitVotesChannel (totalOrder (nodes s p)) \<noteq> []"
  shows "node_collect cd e (nodes s p) \<noteq> None"
proof -
  let ?t = "totalOrder (nodes s p)"
  note I = sys_invD [OF inv] and D = node_invD [OF sys_invD(3) [OF inv p]]
  obtain v rest where q: "waitVotesChannel ?t = v # rest" using w by (cases "waitVotesChannel ?t") auto
  have m: "members_ok M (bmulticast (nodes s p))" "SelfNodeID (nodes s p) = p" using I(2) [OF p] by (simp_all add: wired_def)
  have vv: "valid (v_ProcessID z) \<and> valid (v_MsgID z)"
    if "z \<in> set ((case waitProposalCounter ?t (v_MsgID v) of None \<Rightarrow> [] | Some vs \<Rightarrow> vs) @ [v])" for z
  proof -
    have "vote_ok M G p z" using that D(6) [of v] D(7) [of z "v_MsgID v"] q by (auto simp: counter_list_def)
    then show ?thesis
      using valid_names ghost_okD(3) [OF I(1), of "v_MsgID z"] by (auto simp: vote_ok_def ask_ok_def)
  qed
  have self: "valid (SelfNodeID (nodes s p))" using valid_names [OF p] m(2) by simp
  from node_collect_calm [OF m(1) e self u q vv] show ?thesis by (auto split: if_splits)
qed

lemma turn_possible:
  assumes inv: "cluster_inv n s G" and ex: "always_returns exec" and u: "fresh valid s u" and nq: "\<not> quiescent M s"
  shows "\<exists>s'. turn cd valid exec M s s'"
proof -
  obtain ds where ds: "set ds = M" "distinct ds" using finite_distinct_list [OF finite_M] by blast
  define e where "e = \<lparr>env_ok = (\<lambda>_ _. True), env_order = ds, env_uuid1 = u, env_uuid2 = u, env_now = 0\<rparr>"
  have e: "calm M e" "fresh valid s (env_uuid1 e)" "valid (env_uuid1 e)"
    using ds u by (simp_all add: e_def calm_def fresh_def)
  show ?thesis
  proof (cases "\<exists>p\<in>M. waitVotesChannel (totalOrder (nodes s p)) \<noteq> []")
    case True
    then obtain p where p: "p \<in> M" "waitVotesChannel (totalOrder (nodes s p)) \<noteq> []" by blast
    then show ?thesis
      using collect_returns [OF inv p(1) e(1,3) p(2)] turn.collect [OF p(1) e(1,2), of cd] by fast
  next
    case False
    then obtain q c where qc: "q \<in> M" "c \<in> M" "chan s q c \<noteq> []" using nq by (auto simp: quiescent_def)
    then obtain line rest where ch: "chan s q c = line # rest" by (cases "chan s q c") auto
    have "\<not> waitVotesCapacity \<le> length (waitVotesChannel (totalOrder (nodes s c)))"
      using False qc(2) by (simp add: waitVotesCapacity_def)
    then show ?thesis
      using handlers_return [OF inv qc(2,1) e(1) ex ch] turn.receive [OF qc(2,1) e(1) ch, of cd] by fast
  qed
qed

end

section \<open>Enough uuids\<close>

definition uuids_last :: "(string \<Rightarrow> bool) \<Rightarrow> bool" where
  "uuids_last valid \<longleftrightarrow> (\<forall>U. finite U \<longrightarrow> card U < 2 ^ 65 \<longrightarrow> (\<exists>u. length u = 36 \<and> valid u \<and> u \<notin> U))"

lemma uuids_lastI:
  assumes "\<And>u. set u \<subseteq> set ''0123'' \<Longrightarrow> valid u"
  shows "uuids_last valid"
  unfolding uuids_last_def
proof (intro allI impI)
  fix U :: "string set" assume U: "finite U" "card U < 2 ^ 65"
  let ?A = "{u. set u \<subseteq> set ''0123'' \<and> length u = 36}"
  have "card ?A = card (set ''0123'') ^ 36" by (rule card_lists_length_eq) simp
  also have "card (set ''0123'') = 4" by (simp add: card_insert_if)
  finally have "\<not> ?A \<subseteq> U" using U card_mono [of U ?A] by auto
  then show "\<exists>u. length u = 36 \<and> valid u \<and> u \<notin> U" using assms by blast
qed

lemma used_run:
  "run cd valid exec ms tr p0 n s \<Longrightarrow> finite (used s) \<and> card (used s) \<le> 2 * n"
proof (induction rule: run.induct)
  case (next_step n s s')
  from next_step.hyps(2) show ?case
    using next_step.IH by cases (auto simp: commit_def take_line_def card_insert_if)
qed (simp add: initial_def)

lemma fresh_uuid:
  assumes "uuids_last valid" "run cd valid exec ms tr p0 n s" "n < 2 ^ 64"
  shows "\<exists>u. fresh valid s u"
  using used_run [OF assms(2)] assms(1,3) unfolding uuids_last_def fresh_def by fastforce

context cluster
begin

lemma comes_to_rest:
  assumes "run cd valid exec ms tr p0 n s" "M = set ms" "cluster_inv n s G" "n + work cd M s G < 2 ^ 64"
    and ex: "always_returns exec" and u: "uuids_last valid"
  shows "\<exists>k s'. (turn cd valid exec M ^^ k) s s' \<and> quiescent M s'"
  using assms(1,3,4)
proof (induction "work cd M s G" arbitrary: n s G rule: less_induct)
  case less
  show ?case
  proof (cases "quiescent M s")
    case True
    then show ?thesis by (intro exI [of _ 0] exI [of _ s]) simp
  next
    case False
    obtain v where v: "fresh valid s v" using fresh_uuid [OF u less.prems(1)] less.prems(3) by auto
    obtain s1 where s1: "turn cd valid exec M s s1" using turn_possible [OF less.prems(2) ex v False] by blast
    have r1: "run cd valid exec ms tr p0 (Suc n) s1"
      using run.next_step [OF less.prems(1)] turn_step [OF s1] assms(2) by simp
    have "Suc n < 2 ^ 64 \<or> Suc n = 2 ^ 64" using less.prems(3) by linarith
    then have n: "Suc n < 2 ^ 64"
    proof
      assume full: "Suc n = 2 ^ 64"
      then have "work cd M s G = 0" using less.prems(3) by simp
      then show ?thesis using quiescent_work [of s G] False by simp
    qed
    obtain G1 where G1: "cluster_inv (Suc n) s1 G1" "spends cd M s G s1 G1" using turn_inv [OF less.prems(2) s1 n] by blast
    then have "work cd M s1 G1 < work cd M s G" by (simp add: spends_def)
    with less.hyps [OF _ r1 G1(1)] less.prems(3) obtain k s' where "(turn cd valid exec M ^^ k) s1 s'" "quiescent M s'"
      by auto
    then show ?thesis using relpowp_Suc_I2 [of "turn cd valid exec M", OF s1] by blast
  qed
qed

end

end
