(* ===== verification/Sample_Codec.thy ===== *)
theory Sample_Codec
  imports Messages
begin

text \<open>
  Symbolic data: a marshalled message is a term that remembers what was marshalled. It
  satisfies the laws of the codec and is used to run the protocol on concrete inputs.
\<close>

datatype wire =
    Data string
  | W_B string string wire
  | W_R string string wire
  | W_Ask string string wire
  | W_Reply string string uint64
  | W_Announce string uint64 string
  | W_TO string wire

definition decode_error :: go_error where
  "decode_error = Errorf ''unexpected message''"

definition symbolic_codec :: "wire codec" where
  "symbolic_codec =
     \<lparr>enc_BMsg = (\<lambda>m. Inr (W_B (b_SrcID m) (b_Path m) (b_Body m))),
      dec_BMsg = (\<lambda>d. case d of W_B s p x \<Rightarrow> (\<lparr>b_SrcID = s, b_Path = p, b_Body = x\<rparr>, None)
                   | _ \<Rightarrow> (\<lparr>b_SrcID = [], b_Path = [], b_Body = Data []\<rparr>, Some decode_error)),
      enc_RMsg = (\<lambda>m. Inr (W_R (r_ID m) (r_Path m) (r_Body m))),
      dec_RMsg = (\<lambda>d. case d of W_R i p x \<Rightarrow> Inr \<lparr>r_ID = i, r_Path = p, r_Body = x\<rparr> | _ \<Rightarrow> Inl decode_error),
      enc_Ask = (\<lambda>m. Inr (W_Ask (a_SrcID m) (a_MsgID m) (a_Body m))),
      dec_Ask = (\<lambda>d. case d of W_Ask s i x \<Rightarrow> Inr \<lparr>a_SrcID = s, a_MsgID = i, a_Body = x\<rparr> | _ \<Rightarrow> Inl decode_error),
      enc_Reply = (\<lambda>m. Inr (W_Reply (p_ProcessID m) (p_MsgID m) (p_ProposalSeq m))),
      dec_Reply = (\<lambda>d. case d of W_Reply p i n \<Rightarrow> Inr \<lparr>p_ProcessID = p, p_MsgID = i, p_ProposalSeq = n\<rparr> | _ \<Rightarrow> Inl decode_error),
      enc_Announce = (\<lambda>m. Inr (W_Announce (n_ProcessID m) (n_AgreementSeq m) (n_MsgID m))),
      dec_Announce = (\<lambda>d. case d of W_Announce p n i \<Rightarrow> Inr \<lparr>n_ProcessID = p, n_AgreementSeq = n, n_MsgID = i\<rparr> | _ \<Rightarrow> Inl decode_error),
      enc_TOMsg = (\<lambda>m. Inr (W_TO (t_Path m) (t_Body m))),
      dec_TOMsg = (\<lambda>d. case d of W_TO p x \<Rightarrow> Inr \<lparr>t_Path = p, t_Body = x\<rparr> | _ \<Rightarrow> Inl decode_error),
      digest = (\<lambda>d. ''da39a3ee'')\<rparr>"

interpretation symbolic: message_codec symbolic_codec "\<lambda>_. True"
  by unfold_locales (auto simp: symbolic_codec_def)

end
