(* ===== verification/Sample_Run.thy ===== *)
theory Sample_Run
  imports Quiescence Sample_Codec
begin

text \<open>
  A run of a group of two nodes on symbolic data: the first multicasts a message, both
  propose a number for it, and both deliver it.
\<close>

datatype action =
    Do_multicast string string string   \<comment> \<open>node and its two uuids\<close>
  | Do_receive string string            \<comment> \<open>to, from\<close>
  | Do_collect string string            \<comment> \<open>node and its uuid\<close>

definition sample_env :: "string list \<Rightarrow> string \<Rightarrow> string \<Rightarrow> env" where
  "sample_env ms u1 u2 = \<lparr>env_ok = (\<lambda>_ _. True), env_order = ms, env_uuid1 = u1, env_uuid2 = u2, env_now = 0\<rparr>"

fun perform ::
  "'b codec \<Rightarrow> ('h \<Rightarrow> 'b TOMsg \<Rightarrow> 'p \<Rightarrow> ('p, 'b effect) call) \<Rightarrow> string list \<Rightarrow> string \<Rightarrow> 'b \<Rightarrow> action \<Rightarrow>
     ('b, 'h, 'p) system \<Rightarrow> ('b, 'h, 'p) system option" where
  "perform cd exec ms path x (Do_multicast p u1 u2) s =
     (case node_multicast cd (sample_env ms u1 u2) path (Inr x) (nodes s p) of
        None \<Rightarrow> None | Some (nd, es, err) \<Rightarrow> Some (commit p {u1, u2} nd es s))"
| "perform cd exec ms path x (Do_receive p q) s =
     (case chan s q p of [] \<Rightarrow> None
      | line # rest \<Rightarrow>
          (case handle_line cd exec (sample_env ms [] []) line (nodes s p) of
             None \<Rightarrow> None | Some (nd, es, err) \<Rightarrow> Some (commit p {} nd es (take_line q p s))))"
| "perform cd exec ms path x (Do_collect p u) s =
     (case node_collect cd (sample_env ms u []) (nodes s p) of
        None \<Rightarrow> None | Some (nd, es, err) \<Rightarrow> Some (commit p {u} nd es s))"

fun enabled :: "(string \<Rightarrow> bool) \<Rightarrow> string list \<Rightarrow> action \<Rightarrow> ('b, 'h, 'p) system \<Rightarrow> bool" where
  "enabled valid ms (Do_multicast p u1 u2) s \<longleftrightarrow> p \<in> set ms \<and> fresh valid s u1 \<and> fresh valid s u2"
| "enabled valid ms (Do_receive p q) s \<longleftrightarrow> p \<in> set ms \<and> q \<in> set ms"
| "enabled valid ms (Do_collect p u) s \<longleftrightarrow> p \<in> set ms \<and> fresh valid s u"

fun perform_all where
  "perform_all cd valid exec ms path x [] s = Some s"
| "perform_all cd valid exec ms path x (a # as) s =
     (if enabled valid ms a s
      then case perform cd exec ms path x a s of None \<Rightarrow> None | Some s' \<Rightarrow> perform_all cd valid exec ms path x as s'
      else None)"

lemma perform_step:
  assumes "enabled valid ms a s" "distinct ms" "perform cd exec ms path x a s = Some s'"
  shows "sys_step cd valid exec (set ms) s s'"
proof -
  have calm: "calm (set ms) (sample_env ms u1 u2)" for u1 u2
    using assms(2) by (simp add: calm_def sample_env_def)
  show ?thesis
  proof (cases a)
    case (Do_multicast p u1 u2)
    then show ?thesis
      using assms sys_step.multicast [OF _ calm [of u1 u2], where data = "Inr x" and path = path and cd = cd and p = p and s = s and valid = valid]
      by (auto simp: sample_env_def split: option.splits)
  next
    case (Do_receive p q)
    then show ?thesis
      using assms sys_step.receive [OF _ _ calm [of "[]" "[]"], where p = p and q = q and s = s and cd = cd and exec = exec]
      by (auto split: option.splits list.splits)
  next
    case (Do_collect p u)
    then show ?thesis
      using assms sys_step.collect [OF _ calm [of u "[]"], where p = p and s = s and cd = cd and valid = valid]
      by (auto simp: sample_env_def split: option.splits)
  qed
qed

lemma perform_all_run:
  "run cd valid exec ms tr p0 n s \<Longrightarrow> distinct ms \<Longrightarrow> perform_all cd valid exec ms path x as s = Some s' \<Longrightarrow>
     run cd valid exec ms tr p0 (n + length as) s'"
proof (induction "as" arbitrary: n s)
  case (Cons a "as")
  then show ?case
    using perform_step [of valid ms a s cd exec path x] run.next_step [OF Cons.prems(1)] Cons.IH [of "Suc n"]
    by (fastforce split: if_splits option.splits)
qed simp

text \<open>Actions other than multicasts are turns.\<close>

fun is_turn :: "action \<Rightarrow> bool" where
  "is_turn (Do_multicast p u1 u2) \<longleftrightarrow> False"
| "is_turn _ \<longleftrightarrow> True"

lemma perform_turn:
  assumes "enabled valid ms a s" "distinct ms" "is_turn a" "perform cd exec ms path x a s = Some s'"
  shows "turn cd valid exec (set ms) s s'"
proof -
  have calm: "calm (set ms) (sample_env ms u1 u2)" for u1 u2
    using assms(2) by (simp add: calm_def sample_env_def)
  show ?thesis
  proof (cases a)
    case (Do_receive p q)
    then show ?thesis
      using assms turn.receive [OF _ _ calm [of "[]" "[]"], where p = p and q = q and s = s and cd = cd and exec = exec]
      by (auto split: option.splits list.splits)
  next
    case (Do_collect p u)
    then show ?thesis
      using assms turn.collect [OF _ calm [of u "[]"], where p = p and s = s and cd = cd and valid = valid]
      by (auto simp: sample_env_def split: option.splits)
  qed (use assms(3) in simp)
qed

lemma perform_all_turns:
  "distinct ms \<Longrightarrow> \<forall>a\<in>set as. is_turn a \<Longrightarrow> perform_all cd valid exec ms path x as s = Some s' \<Longrightarrow>
     (turn cd valid exec (set ms) ^^ length as) s s'"
proof (induction "as" arbitrary: s)
  case (Cons a "as")
  then obtain s1 where s1: "enabled valid ms a s" "perform cd exec ms path x a s = Some s1"
      "perform_all cd valid exec ms path x as s1 = Some s'"
    by (auto split: if_splits option.splits)
  have "turn cd valid exec (set ms) s s1" using perform_turn [OF s1(1) Cons.prems(1) _ s1(2)] Cons.prems(2) by simp
  moreover have "(turn cd valid exec (set ms) ^^ length as) s1 s'" using Cons s1(3) by simp
  ultimately show ?case using relpowp_Suc_I2 [of "turn cd valid exec (set ms)"] by fastforce
qed simp

section \<open>Two nodes, one message\<close>

text \<open>The layer above appends the path of a message to its state and prints it.\<close>

definition sample_exec :: "unit \<Rightarrow> wire TOMsg \<Rightarrow> string list \<Rightarrow> (string list, wire effect) call" where
  "sample_exec f msg p = Some (p @ [t_Path msg], [Print (t_Path msg)], None)"

lemma sample_exec_prints: "only_prints sample_exec"
  by (auto simp: only_prints_def sample_exec_def)

definition uid :: "char \<Rightarrow> string" where
  "uid k = replicate 35 (CHR ''0'') @ [k]"

lemma uid_simps [simp]: "length (uid k) = 36" "uid k = uid l \<longleftrightarrow> k = l"
  by (simp_all add: uid_def)

definition sample_nodes :: "string list" where
  "sample_nodes = [''a'', ''b'']"

definition sample_router :: "unit router" where
  "sample_router = [''/x'' \<mapsto> ()]"

definition sample_start :: "(wire, unit, string list) system" where
  "sample_start = initial [''a'', ''b''] [''/x'' \<mapsto> ()] []"

definition sample_actions :: "action list" where
  "sample_actions =
     [Do_multicast ''a'' (uid CHR ''1'') (uid CHR ''2''), Do_receive ''a'' ''a'', Do_receive ''b'' ''a'',
      Do_receive ''a'' ''a'', Do_collect ''a'' (uid CHR ''3''), Do_receive ''a'' ''b'', Do_receive ''a'' ''b'',
      Do_collect ''a'' (uid CHR ''4''), Do_receive ''a'' ''a'', Do_receive ''b'' ''a'']"

text \<open>The three lines still in flight after that: the messages that the second node relayed.\<close>

definition sample_rest :: "action list" where
  "sample_rest = [Do_receive ''a'' ''b'', Do_receive ''b'' ''b'', Do_receive ''b'' ''b'']"

text \<open>Equations for evaluation, with the local bindings expanded.\<close>

fun put_writes :: "(string \<Rightarrow> 'b list) \<Rightarrow> 'b effect list \<Rightarrow> string \<Rightarrow> 'b list" where
  "put_writes g [] = g"
| "put_writes g (e # es) = (case e of Write d x \<Rightarrow> put_writes (g(d := g d @ [x])) es | _ \<Rightarrow> put_writes g es)"

lemma put_writes: "put_writes g es = (\<lambda>d. g d @ writes_to d es)"
  by (induction es arbitrary: g) (auto simp: fun_eq_iff split: effect.split)

lemma commit_eq: "commit p us nd es s =
     s\<lparr>nodes := (nodes s)(p := nd), chan := (chan s)(p := put_writes (chan s p) es), used := used s \<union> us,
       log := (log s)(p := log s p @ es)\<rparr>"
  by (simp add: commit_def put_writes)

lemma heap_Pop_eq: "heap_Pop len lt sw pop h = (if len h = 0 then None else pop (fst (heap_down lt sw 0 (len h - 1) (sw h 0 (len h - 1)))))"
  by (simp add: heap_Pop_def Let_def)
lemma heap_Push_eq: "heap_Push len lt sw push x h = heap_up lt sw (len (push x h) - 1) (push x h)"
  by (simp add: heap_Push_def Let_def)
lemma pq_Update_eq: "pq_Update a pid seq h =
     (if index (item_at h a) < 0 then h\<lparr>mem := (mem h)[a := (item_at h a)\<lparr>agreed := True, processID := pid, proposalSeqNum := seq\<rparr>]\<rparr>
     else heap_Fix pq_Len pq_Less pq_Swap (nat (index (item_at h a))) (h\<lparr>mem := (mem h)[a := (item_at h a)\<lparr>agreed := True, processID := pid, proposalSeqNum := seq\<rparr>]\<rparr>))"
  by (cases "a < length (mem h)") (simp_all add: pq_Update_def Let_def item_at_def list_update_beyond)
lemma deliver_loop_empty: "pq_Peek (holdQueue t) = None \<Longrightarrow> deliver_loop cd exec alive now t p = Some ((t, p), [], None)"
  by (subst deliver_loop.simps) simp
lemma deliver_loop_wait:
  "pq_Peek (holdQueue t) = Some a \<Longrightarrow> \<not> agreed (item_at (holdQueue t) a) \<Longrightarrow> alive (processID (item_at (holdQueue t) a)) \<Longrightarrow>
     deliver_loop cd exec alive now t p = Some ((t, p), [], None)"
  by (subst deliver_loop.simps) simp
lemma deliver_loop_next:
  "pq_Peek (holdQueue t) = Some a \<Longrightarrow> agreed (item_at (holdQueue t) a) \<Longrightarrow> hold_pop (holdQueue t) = Some (h, b) \<Longrightarrow>
   dec_TOMsg cd (body (item_at (holdQueue t) a)) = Inr m \<Longrightarrow> Run exec (t_router t) (t_Path m) m p = Some (p1, es, err) \<Longrightarrow>
     deliver_loop cd exec alive now t p = (case deliver_loop cd exec alive now
        (t\<lparr>holdQueueMap := (holdQueueMap t)(msgID (item_at (holdQueue t) a) := None), holdQueue := h\<rparr>) p1 of
       None \<Rightarrow> None | Some (tp, es2, err2) \<Rightarrow> Some (tp, TODeliver (proposalSeqNum (item_at (holdQueue t) a))
          (processID (item_at (holdQueue t) a)) (msgID (item_at (holdQueue t) a)) # es @ es2, err2))"
  by (subst deliver_loop.simps) (simp add: Let_def)
lemmas evaluate_node = paths_distinct
  initial_def started_def Start_simps bindTODeliver_def bindRDeliver_def bindBDeliver_def Build_def WithSelfNodeID_def
  NewGroupBuilder_def NewBMulticast_def NewRMulticast_def NewTotalOrder_def New_router_def B_Bind_def R_Bind_def Bind_def
  AddMember_def sample_env_def fresh_def
  node_multicast_def TO_Multicast_def NewTOMsg_def R_Multicast_def NewRMsg_def B_Multicast_def NewBMsg_def NewTOAskProposalSeqMsg_def
  commit_eq take_line_def handle_line_def r_deliver_def AddMsgIfNotExist_def Run_def exec_r_def handle_ask_sections 
  next_proposal_def hold_message_def MaxUint64_def NewTOReplyProposalSeqMsg_def B_Unicast_def reply_deliver_def handle_reply_def
  waitVotesCapacity_def node_collect_def collect_vote_def aggregateVotesAndMulticast_def MaxOfArrayProposalItem_def MemberCount_def
  NewTOAnnounceAgreementSeqMsg_def handle_announce_def
  hold_push_def hold_pop_def heap_Push_eq heap_Pop_eq pq_Push_def pq_Pop_def pq_Len_def pq_Less_def pq_Swap_def item_less_def item_at_def set_index_def
  pq_Update_eq heap_Fix_def pq_Peek_def swap_nth_def parent_def heap_up.simps heap_down.simps deliver_loop_empty deliver_loop_wait deliver_loop_next b_run.simps IsNodeAlived_def
  Let_def

lemmas evaluate = evaluate_node symbolic_codec_def sample_exec_def sample_start_def

lemma sample_performs:
  "\<exists>s. perform_all symbolic_codec (\<lambda>_. True) sample_exec [''a'', ''b''] ''/x'' (Data ''v'') sample_actions sample_start = Some s
    \<and> delivered (log s ''a'') = [uid CHR ''1'' @ ''da39a3ee''] \<and> delivered (log s ''b'') = [uid CHR ''1'' @ ''da39a3ee'']
    \<and> processor (nodes s ''a'') = [''/x'']"
  unfolding sample_actions_def by (simp add: evaluate)

lemma sample_start_run: "run symbolic_codec (\<lambda>_. True) sample_exec sample_nodes sample_router [] 0 sample_start"
  using run.start [of symbolic_codec "\<lambda>_. True" sample_exec sample_nodes sample_router "[]"]
  by (simp add: sample_start_def sample_nodes_def sample_router_def)

lemma sample_run:
  "\<exists>s. run symbolic_codec (\<lambda>_. True) sample_exec sample_nodes sample_router [] 10 s
    \<and> delivered (log s ''a'') = [uid CHR ''1'' @ ''da39a3ee''] \<and> delivered (log s ''b'') = [uid CHR ''1'' @ ''da39a3ee'']
    \<and> processor (nodes s ''a'') = [''/x'']"
proof -
  obtain s where s: "perform_all symbolic_codec (\<lambda>_. True) sample_exec sample_nodes ''/x'' (Data ''v'') sample_actions sample_start = Some s"
    and d: "delivered (log s ''a'') = [uid CHR ''1'' @ ''da39a3ee'']" "delivered (log s ''b'') = [uid CHR ''1'' @ ''da39a3ee'']"
      "processor (nodes s ''a'') = [''/x'']"
    using sample_performs unfolding sample_nodes_def by blast
  from perform_all_run [OF sample_start_run _ s]
  have "run symbolic_codec (\<lambda>_. True) sample_exec sample_nodes sample_router [] 10 s"
    by (simp add: sample_nodes_def sample_actions_def eval_nat_numeral)
  then show ?thesis using d by blast
qed

text \<open>Three turns later the group is at rest.\<close>

lemma sample_rest_performs:
  "\<exists>s. perform_all symbolic_codec (\<lambda>_. True) sample_exec [''a'', ''b''] ''/x'' (Data ''v'') (sample_actions @ sample_rest) sample_start = Some s
    \<and> quiescent {''a'', ''b''} s \<and> delivered (log s ''b'') = [uid CHR ''1'' @ ''da39a3ee'']"
  unfolding sample_actions_def sample_rest_def quiescent_def by (simp add: evaluate)

lemma sample_first_requested:
  "perform_all symbolic_codec (\<lambda>_. True) sample_exec [''a'', ''b''] ''/x'' (Data ''v'') [hd sample_actions] sample_start = Some s \<Longrightarrow>
     requested symbolic_codec {''a'', ''b''} s = {uid CHR ''1'' @ ''da39a3ee''}"
  unfolding sample_actions_def by (auto simp: evaluate requested_def line_ask_def)

text \<open>The run: its first step is a multicast, the others are turns.\<close>

lemma sample_quiet_run:
  "\<exists>s s'. run symbolic_codec (\<lambda>_. True) sample_exec sample_nodes sample_router [] 1 s
    \<and> (turn symbolic_codec (\<lambda>_. True) sample_exec (set sample_nodes) ^^ 12) s s'
    \<and> run symbolic_codec (\<lambda>_. True) sample_exec sample_nodes sample_router [] 13 s'
    \<and> quiescent (set sample_nodes) s' \<and> delivered (log s' ''b'') = [uid CHR ''1'' @ ''da39a3ee'']
    \<and> requested symbolic_codec (set sample_nodes) s = {uid CHR ''1'' @ ''da39a3ee''}"
proof -
  let ?do = "perform_all symbolic_codec (\<lambda>_. True) sample_exec sample_nodes ''/x'' (Data ''v'')"
  let ?as = "tl sample_actions @ sample_rest"
  obtain s' where s': "?do (sample_actions @ sample_rest) sample_start = Some s'" "quiescent (set sample_nodes) s'"
    "delivered (log s' ''b'') = [uid CHR ''1'' @ ''da39a3ee'']"
    using sample_rest_performs by (auto simp: sample_nodes_def)
  then obtain s where s: "?do [hd sample_actions] sample_start = Some s" "?do ?as s = Some s'"
    by (auto simp: sample_actions_def simp del: perform.simps split: if_splits option.splits)
  have d: "distinct sample_nodes" by (simp add: sample_nodes_def)
  have l: "length ?as = 12" "\<forall>a\<in>set ?as. is_turn a" by (simp_all add: sample_actions_def sample_rest_def)
  have "run symbolic_codec (\<lambda>_. True) sample_exec sample_nodes sample_router [] 1 s"
    using perform_all_run [OF sample_start_run d s(1)] by simp
  moreover from perform_all_run [OF this d s(2)]
  have "run symbolic_codec (\<lambda>_. True) sample_exec sample_nodes sample_router [] 13 s'" using l(1) by simp
  ultimately show ?thesis
    using perform_all_turns [OF d l(2) s(2)] l(1) s'(2,3) s(1) sample_first_requested [of s] by (auto simp: sample_nodes_def)
qed

text \<open>After the first step a line is in flight.\<close>

lemma sample_first_performs:
  "\<exists>s line. perform_all symbolic_codec (\<lambda>_. True) sample_exec [''a'', ''b''] ''/x'' (Data ''v'') (take 1 sample_actions) sample_start = Some s
    \<and> chan s ''a'' ''b'' = [line] \<and> waitVotesChannel (totalOrder (nodes s ''b'')) = []"
  unfolding sample_actions_def by (simp add: evaluate)

lemma sample_first_run:
  "\<exists>s line. run symbolic_codec (\<lambda>_. True) sample_exec sample_nodes sample_router [] 1 s
    \<and> chan s ''a'' ''b'' = [line] \<and> waitVotesChannel (totalOrder (nodes s ''b'')) = []"
proof -
  obtain s line where s: "perform_all symbolic_codec (\<lambda>_. True) sample_exec sample_nodes ''/x'' (Data ''v'') (take 1 sample_actions) sample_start = Some s"
    "chan s ''a'' ''b'' = [line]" "waitVotesChannel (totalOrder (nodes s ''b'')) = []"
    using sample_first_performs unfolding sample_nodes_def by blast
  from perform_all_run [OF sample_start_run _ s(1)]
  have "run symbolic_codec (\<lambda>_. True) sample_exec sample_nodes sample_router [] 1 s"
    by (simp add: sample_nodes_def sample_actions_def)
  then show ?thesis using s by blast
qed

end
