(* ===== verification/Go_Strings.thy ===== *)
theory Go_Strings
  imports Prelude
begin

text \<open>
  What the program uses of Go's \<open>strings\<close>, \<open>strconv\<close> and \<open>bufio\<close>: fields separated by white
  space, trimming, decimal numbers and the lines of an input. Strings are bytes in UTF-8;
  white space is that of \<open>unicode.IsSpace\<close>. No byte that starts a white space character
  of two or three bytes occurs inside another character, so looking for the characters'
  bytes at every position finds exactly the characters Go finds.
\<close>

section \<open>White space\<close>

definition ascii_space :: "char \<Rightarrow> bool" where
  "ascii_space c \<longleftrightarrow> c = CHR 0x09 \<or> c = CHR 0x0A \<or> c = CHR 0x0B \<or> c = CHR 0x0C \<or> c = CHR 0x0D \<or> c = CHR '' ''"

text \<open>U+0085, U+00A0, U+1680, U+2000 to U+200A, U+2028, U+2029, U+202F, U+205F, U+3000.\<close>

definition wide_spaces :: "string list" where
  "wide_spaces =
     [[CHR 0xC2, CHR 0x85], [CHR 0xC2, CHR 0xA0], [CHR 0xE1, CHR 0x9A, CHR 0x80],
      [CHR 0xE2, CHR 0x80, CHR 0x80], [CHR 0xE2, CHR 0x80, CHR 0x81], [CHR 0xE2, CHR 0x80, CHR 0x82],
      [CHR 0xE2, CHR 0x80, CHR 0x83], [CHR 0xE2, CHR 0x80, CHR 0x84], [CHR 0xE2, CHR 0x80, CHR 0x85],
      [CHR 0xE2, CHR 0x80, CHR 0x86], [CHR 0xE2, CHR 0x80, CHR 0x87], [CHR 0xE2, CHR 0x80, CHR 0x88],
      [CHR 0xE2, CHR 0x80, CHR 0x89], [CHR 0xE2, CHR 0x80, CHR 0x8A], [CHR 0xE2, CHR 0x80, CHR 0xA8],
      [CHR 0xE2, CHR 0x80, CHR 0xA9], [CHR 0xE2, CHR 0x80, CHR 0xAF], [CHR 0xE2, CHR 0x81, CHR 0x9F],
      [CHR 0xE3, CHR 0x80, CHR 0x80]]"

text \<open>The length of the white space character at the head of a string, 0 for none.\<close>

definition space_len :: "string \<Rightarrow> nat" where
  "space_len s =
     (case s of [] \<Rightarrow> 0
      | c # _ \<Rightarrow> if ascii_space c then 1
                 else case find (\<lambda>w. prefix w s) wide_spaces of None \<Rightarrow> 0 | Some w \<Rightarrow> length w)"

lemma space_len_Nil [simp]: "space_len [] = 0"
  by (simp add: space_len_def)

lemma wide_space_ne: "w \<in> set wide_spaces \<Longrightarrow> w \<noteq> []"
  by (auto simp: wide_spaces_def)

lemma wide_space_ascii: "w \<in> set wide_spaces \<Longrightarrow> (128 :: nat) \<le> of_char (hd w)"
  by (auto simp: wide_spaces_def)

text \<open>\<open>strings.Fields\<close>. \<open>cur\<close> is the field being read, backwards.\<close>

function fields_from :: "string \<Rightarrow> string \<Rightarrow> string list" where
  "fields_from cur s =
     (case s of
        [] \<Rightarrow> (if cur = [] then [] else [rev cur])
      | c # cs \<Rightarrow>
          if space_len s = 0 then fields_from (c # cur) cs
          else (if cur = [] then [] else [rev cur]) @ fields_from [] (drop (space_len s) s))"
  by pat_completeness auto
termination
  by (relation "measure (\<lambda>(cur, s). length s)") auto

declare fields_from.simps [simp del]

definition Fields :: "string \<Rightarrow> string list" where
  "Fields s = fields_from [] s"

text \<open>\<open>strings.TrimSpace\<close>.\<close>

function trim_left :: "string \<Rightarrow> string" where
  "trim_left s = (if space_len s = 0 then s else trim_left (drop (space_len s) s))"
  by pat_completeness auto
termination
  by (relation "measure length") (auto simp: space_len_def split: list.splits)

declare trim_left.simps [simp del]

definition ends_in_space :: "string \<Rightarrow> nat" where
  "ends_in_space s =
     (if s = [] then 0 else if ascii_space (last s) then 1
      else case find (\<lambda>w. suffix w s) wide_spaces of None \<Rightarrow> 0 | Some w \<Rightarrow> length w)"

function trim_right :: "string \<Rightarrow> string" where
  "trim_right s = (if ends_in_space s = 0 then s else trim_right (take (length s - ends_in_space s) s))"
  by pat_completeness auto
termination
proof (relation "measure length")
  fix s :: string
  assume "ends_in_space s \<noteq> 0"
  then have "s \<noteq> []" by (auto simp: ends_in_space_def)
  with \<open>ends_in_space s \<noteq> 0\<close> show "(take (length s - ends_in_space s) s, s) \<in> measure length" by simp
qed simp

declare trim_right.simps [simp del]

definition TrimSpace :: "string \<Rightarrow> string" where
  "TrimSpace s = trim_right (trim_left s)"

section \<open>Fields of a line of words\<close>

text \<open>A word: not empty, ASCII, without white space.\<close>

definition word_char :: "char \<Rightarrow> bool" where
  "word_char c \<longleftrightarrow> of_char c < (128 :: nat) \<and> \<not> ascii_space c"

definition is_word :: "string \<Rightarrow> bool" where
  "is_word w \<longleftrightarrow> w \<noteq> [] \<and> (\<forall>c\<in>set w. word_char c)"

lemma space_len_word: "word_char c \<Longrightarrow> space_len (c # s) = 0"
proof -
  assume c: "word_char c"
  have "\<not> prefix w (c # s)" if "w \<in> set wide_spaces" for w
  proof
    assume "prefix w (c # s)"
    then have "hd w = c" using wide_space_ne [OF that] by (cases w) auto
    then show False using wide_space_ascii [OF that] c by (simp add: word_char_def)
  qed
  then have "find (\<lambda>w. prefix w (c # s)) wide_spaces = None" by (auto simp: find_None_iff)
  then show ?thesis using c by (simp add: space_len_def word_char_def)
qed

lemma space_len_blank: "space_len (CHR '' '' # s) = 1"
  by (simp add: space_len_def ascii_space_def)

lemma fields_from_word:
  "\<forall>c\<in>set w. word_char c \<Longrightarrow> fields_from cur (w @ s) = fields_from (rev w @ cur) s"
proof (induction w arbitrary: cur)
  case (Cons c w)
  then show ?case
    using space_len_word [of c "w @ s"] by (simp add: fields_from.simps [of cur "c # w @ s"])
qed simp

lemma fields_from_blank:
  "fields_from cur (CHR '' '' # s) = (if cur = [] then [] else [rev cur]) @ fields_from [] s"
  using space_len_blank [of s] by (simp add: fields_from.simps [of cur "CHR '' '' # s"])

definition unwords :: "string list \<Rightarrow> string" where
  "unwords ws = concat (map (\<lambda>w. w @ '' '') ws)"

lemma Fields_unwords:
  assumes "\<forall>w\<in>set ws. is_word w"
  shows "Fields (unwords ws) = ws"
  using assms
proof (induction ws)
  case Nil
  then show ?case by (simp add: Fields_def unwords_def fields_from.simps)
next
  case (Cons w ws)
  then have w: "\<forall>c\<in>set w. word_char c" "w \<noteq> []" by (auto simp: is_word_def)
  have "Fields (unwords (w # ws)) = fields_from [] (w @ CHR '' '' # unwords ws)"
    by (simp add: Fields_def unwords_def)
  also have "\<dots> = w # Fields (unwords ws)"
    using w(2) by (simp add: fields_from_word [OF w(1)] fields_from_blank Fields_def)
  finally show ?case using Cons by simp
qed

lemma fields_from_nonempty: "[] \<notin> set (fields_from cur s)"
proof (induction cur s rule: fields_from.induct)
  case (1 cur s)
  then show ?case
    by (subst fields_from.simps) (auto split: list.splits if_splits)
qed

section \<open>Decimal numbers\<close>

definition is_digit :: "char \<Rightarrow> bool" where
  "is_digit c \<longleftrightarrow> 48 \<le> (of_char c :: nat) \<and> (of_char c :: nat) \<le> 57"

definition digit_val :: "char \<Rightarrow> nat" where
  "digit_val c = of_char c - 48"

text \<open>
  \<open>strconv.ParseUint\<close> in base 10 and 64 bits: the loop over the digits, which stops at the
  first character that is no digit or that makes the number too large. \<open>fn\<close> and \<open>s0\<close> are the
  function and the text an error reports.
\<close>

fun parse_digits :: "string \<Rightarrow> string \<Rightarrow> nat \<Rightarrow> string \<Rightarrow> go_error + nat" where
  "parse_digits fn s0 n [] = Inr n"
| "parse_digits fn s0 n (c # cs) =
     (if \<not> is_digit c then Inl (NumSyntax fn s0)
      else if n * 10 + digit_val c \<ge> 2 ^ 64 then Inl (NumRange fn s0)
      else parse_digits fn s0 (n * 10 + digit_val c) cs)"

definition ParseUint :: "string \<Rightarrow> string \<Rightarrow> string \<Rightarrow> go_error + uint64" where
  "ParseUint fn s0 s =
     (if s = [] then Inl (NumSyntax fn s0)
      else case parse_digits fn s0 0 s of Inl e \<Rightarrow> Inl e | Inr n \<Rightarrow> Inr (of_nat n))"

text \<open>\<open>strconv.ParseInt\<close> in base 10 and 64 bits, and \<open>strconv.Atoi\<close>.\<close>

definition ParseInt :: "string \<Rightarrow> string \<Rightarrow> go_error + goint" where
  "ParseInt fn s =
     (if s = [] then Inl (NumSyntax fn s)
      else
        let neg = (hd s = CHR ''-'');
            ds = (if hd s = CHR ''+'' \<or> hd s = CHR ''-'' then tl s else s)
        in if ds = [] then Inl (NumSyntax fn s)
           else case parse_digits fn s 0 ds of
             Inl e \<Rightarrow> Inl e
           | Inr n \<Rightarrow>
               if \<not> neg \<and> n \<ge> 2 ^ 63 then Inl (NumRange fn s)
               else if neg \<and> n > 2 ^ 63 then Inl (NumRange fn s)
               else Inr (if neg then - of_nat n else of_nat n))"

definition Atoi :: "string \<Rightarrow> go_error + goint" where
  "Atoi s = ParseInt ''Atoi'' s"

text \<open>What the printer prints is read back.\<close>

lemma is_digit_char: "d < 10 \<Longrightarrow> is_digit (digit_char d) \<and> digit_val (digit_char d) = d"
  by (simp add: is_digit_def digit_val_def digit_char_def)

lemma dec_nat_step: "10 \<le> n \<Longrightarrow> dec_nat n = dec_nat (n div 10) @ [digit_char (n mod 10)]"
  by (subst dec_nat.simps) simp

lemma dec_nat_small: "n < 10 \<Longrightarrow> dec_nat n = [digit_char n]"
  by (subst dec_nat.simps) simp

lemma dec_nat_ne: "dec_nat n \<noteq> []"
  by (subst dec_nat.simps) simp

lemma dec_nat_digits: "\<forall>c\<in>set (dec_nat n). is_digit c"
proof (induction n rule: dec_nat.induct)
  case (1 n)
  then show ?case
    by (cases "n < 10") (auto simp: dec_nat_small dec_nat_step is_digit_char)
qed

lemma parse_digits_snoc:
  "parse_digits fn s0 n (cs @ [c]) =
     (case parse_digits fn s0 n cs of Inl e \<Rightarrow> Inl e
      | Inr k \<Rightarrow> if \<not> is_digit c then Inl (NumSyntax fn s0)
                  else if k * 10 + digit_val c \<ge> 2 ^ 64 then Inl (NumRange fn s0)
                  else Inr (k * 10 + digit_val c))"
  by (induction cs arbitrary: n) auto

lemma parse_dec_nat: "n < 2 ^ 64 \<Longrightarrow> parse_digits fn s0 0 (dec_nat n) = Inr n"
proof (induction n rule: dec_nat.induct)
  case (1 n)
  show ?case
  proof (cases "n < 10")
    case True
    then show ?thesis by (simp add: dec_nat_small is_digit_char)
  next
    case False
    have d: "n div 10 * 10 + n mod 10 = n" by simp
    have "n div 10 < 2 ^ 64" using "1.prems" by (simp add: div_le_dividend le_less_trans)
    then show ?thesis
      using False "1.IH" "1.prems" d is_digit_char [of "n mod 10"]
      by (simp add: dec_nat_step parse_digits_snoc)
  qed
qed

lemma ParseUint_dec_nat: "ParseUint fn s0 (dec_nat (unat x)) = Inr x"
  using parse_dec_nat [of "unat x" fn s0] unsigned_less [of x, where 'a = nat] by (simp add: ParseUint_def dec_nat_ne)

lemma digit_not_sign: "is_digit c \<Longrightarrow> c \<noteq> CHR ''-'' \<and> c \<noteq> CHR ''+''"
  by (auto simp: is_digit_def)

lemma ParseInt_dec_int: "ParseInt fn (dec_int (sint x)) = Inr x"
proof (cases "sint x < 0")
  case True
  have r: "- sint x \<le> 2 ^ 63" using sint_goint_range(1) [of x] by (simp add: goint_min_def)
  define n where "n = nat (- sint x)"
  have n: "n \<le> 2 ^ 63" using r by (simp add: n_def nat_le_iff)
  have "- of_nat n = (x :: goint)" using True by (simp add: n_def)
  moreover have "dec_int (sint x) = CHR ''-'' # dec_nat n" using True by (simp add: dec_int_def n_def)
  moreover have "parse_digits fn s 0 (dec_nat n) = Inr n" for s using n by (intro parse_dec_nat) simp
  ultimately show ?thesis using n by (simp add: ParseInt_def Let_def dec_nat_ne)
next
  case False
  define n where "n = nat (sint x)"
  have n: "n < 2 ^ 63" using sint_goint_range(2) [of x] False by (simp add: n_def goint_max_def nat_less_iff)
  have x: "of_nat n = (x :: goint)" using False by (simp add: n_def)
  have "dec_int (sint x) = dec_nat n" using False by (simp add: dec_int_def n_def)
  moreover have "hd (dec_nat n) \<noteq> CHR ''-''" "hd (dec_nat n) \<noteq> CHR ''+''"
    using dec_nat_digits [of n] dec_nat_ne [of n] digit_not_sign hd_in_set by blast+
  moreover have "parse_digits fn s 0 (dec_nat n) = Inr n" for s using n by (intro parse_dec_nat) simp
  ultimately show ?thesis using n x by (simp add: ParseInt_def Let_def dec_nat_ne)
qed

lemma Atoi_dec_int: "Atoi (dec_int (sint x)) = Inr x"
  by (simp add: Atoi_def ParseInt_dec_int)

text \<open>Numbers are words.\<close>

lemma digit_word_char: "is_digit c \<Longrightarrow> word_char c"
  by (auto simp: is_digit_def word_char_def ascii_space_def)

lemma is_word_dec_int: "is_word (dec_int i)"
  using dec_nat_digits dec_nat_ne digit_word_char
  by (auto simp: is_word_def dec_int_def word_char_def [of "CHR ''-''"] ascii_space_def)

lemma is_wordD: "is_word w \<Longrightarrow> w \<noteq> [] \<and> word_char (hd w) \<and> word_char (last w) \<and> (\<forall>c\<in>set w. word_char c)"
  by (simp add: is_word_def)

lemma newline_eq: "newline = CHR 0x0A"
  by (simp add: newline_def char_of_eq_iff)

lemma break_not_word [simp]: "\<not> word_char newline" "\<not> word_char (CHR 0x0D)"
  by (simp_all add: word_char_def ascii_space_def newline_eq)

section \<open>The lines of an input\<close>

text \<open>
  \<open>bufio.Scanner\<close> with its default split function: lines end at a newline, which is dropped
  with a carriage return before it; the last one may have none. The scanner's buffer holds
  65536 bytes: a line that does not fit ends the scan with an error.
\<close>

definition max_token :: nat where
  "max_token = 64 * 1024"

definition drop_cr :: "string \<Rightarrow> string" where
  "drop_cr l = (if l \<noteq> [] \<and> last l = CHR 0x0D then butlast l else l)"

function scan_lines :: "string \<Rightarrow> string list \<times> go_error option" where
  "scan_lines s =
     (let l = takeWhile (\<lambda>c. c \<noteq> newline) s; r = dropWhile (\<lambda>c. c \<noteq> newline) s in
      if length l \<ge> max_token then ([], Some TooLong)
      else if r = [] then (if l = [] then [] else [drop_cr l], None)
      else let (ls, e) = scan_lines (tl r) in (drop_cr l # ls, e))"
  by pat_completeness auto
termination
proof (relation "measure length")
  fix s l r :: string
  assume "r = dropWhile (\<lambda>c. c \<noteq> newline) s" "r \<noteq> []"
  then have "length (tl r) < length r" "length r \<le> length s" by (auto simp: length_dropWhile_le)
  then show "(tl r, s) \<in> measure length" by simp
qed simp

declare scan_lines.simps [simp del]

lemma scan_lines_Nil [simp]: "scan_lines [] = ([], None)"
  by (simp add: scan_lines.simps max_token_def)

lemma scan_lines_Cons:
  assumes "newline \<notin> set l"
  shows "scan_lines (l @ newline # s) =
     (if length l \<ge> max_token then ([], Some TooLong)
      else (drop_cr l # fst (scan_lines s), snd (scan_lines s)))"
proof -
  have "takeWhile (\<lambda>c. c \<noteq> newline) (l @ newline # s) = l" "dropWhile (\<lambda>c. c \<noteq> newline) (l @ newline # s) = newline # s"
    using assms by (simp_all add: takeWhile_append dropWhile_append)
  then show ?thesis by (subst scan_lines.simps) (simp add: Let_def split_beta)
qed

text \<open>Short lines without carriage return come out as they went in.\<close>

lemma scan_lines_unlines:
  assumes "\<forall>l\<in>set ls. newline \<notin> set l \<and> length l < max_token \<and> (l = [] \<or> last l \<noteq> CHR 0x0D)"
  shows "scan_lines (concat (map (\<lambda>l. l @ [newline]) ls)) = (ls, None)"
  using assms by (induction ls) (auto simp: scan_lines_Cons drop_cr_def)

section \<open>Addresses\<close>

text \<open>\<open>net.JoinHostPort\<close>: a host with a colon is put in brackets.\<close>

definition JoinHostPort :: "string \<Rightarrow> string \<Rightarrow> string" where
  "JoinHostPort host port =
     (if CHR '':'' \<in> set host then CHR ''['' # host @ '']:'' @ port else host @ CHR '':'' # port)"

end
