(* ===== verification/Json_Text.thy ===== *)
theory Json_Text
  imports Go_Strings
begin

text \<open>
  Strings inside JSON, as \<open>encoding/json\<close> of Go 1.16 writes and reads them, and base64 as
  \<open>encoding/base64\<close> does. Strings are bytes; a byte that is not part of valid UTF-8 is
  written as the escape of U+FFFD, and read as the bytes of U+FFFD.
\<close>

section \<open>UTF-8\<close>

definition in_range :: "nat \<Rightarrow> nat \<Rightarrow> char \<Rightarrow> bool" where
  "in_range a b c \<longleftrightarrow> a \<le> of_char c \<and> of_char c \<le> b"

definition cont_byte :: "char \<Rightarrow> bool" where
  "cont_byte c \<longleftrightarrow> in_range 0x80 0xBF c"

definition second_of_3 :: "char \<Rightarrow> char \<Rightarrow> bool" where
  "second_of_3 c d \<longleftrightarrow>
     (in_range 0xE0 0xE0 c \<and> in_range 0xA0 0xBF d) \<or> (in_range 0xE1 0xEC c \<and> cont_byte d)
     \<or> (in_range 0xED 0xED c \<and> in_range 0x80 0x9F d) \<or> (in_range 0xEE 0xEF c \<and> cont_byte d)"

definition second_of_4 :: "char \<Rightarrow> char \<Rightarrow> bool" where
  "second_of_4 c d \<longleftrightarrow>
     (in_range 0xF0 0xF0 c \<and> in_range 0x90 0xBF d) \<or> (in_range 0xF1 0xF3 c \<and> cont_byte d)
     \<or> (in_range 0xF4 0xF4 c \<and> in_range 0x80 0x8F d)"

text \<open>The bytes of one character.\<close>

fun is_rune :: "string \<Rightarrow> bool" where
  "is_rune [c] = in_range 0 0x7F c"
| "is_rune [c, d] = (in_range 0xC2 0xDF c \<and> cont_byte d)"
| "is_rune [c, d, e] = (second_of_3 c d \<and> cont_byte e)"
| "is_rune [c, d, e, f] = (second_of_4 c d \<and> cont_byte e \<and> cont_byte f)"
| "is_rune _ = False"

text \<open>The number of bytes of the character at the head of a string, 0 when it is not valid UTF-8.\<close>

definition rune_len :: "string \<Rightarrow> nat" where
  "rune_len s =
     (if is_rune (take 1 s) then 1 else if is_rune (take 2 s) then 2
      else if is_rune (take 3 s) then 3 else if is_rune (take 4 s) then 4 else 0)"

lemma rune_len_Nil [simp]: "rune_len [] = 0"
  by (simp add: rune_len_def)

lemma rune_len_ascii: "of_char c < (128 :: nat) \<Longrightarrow> rune_len (c # s) = 1"
  by (simp add: rune_len_def in_range_def)

lemma is_rune_next: "\<not> is_rune (take n s) \<Longrightarrow> is_rune (take (Suc n) s) \<Longrightarrow> Suc n \<le> length s"
  by (cases "Suc n \<le> length s") auto

lemma rune_len_le: "rune_len s \<le> length s"
  using is_rune_next [of 0 s] is_rune_next [of 1 s] is_rune_next [of 2 s] is_rune_next [of 3 s]
  by (auto simp: rune_len_def eval_nat_numeral)

lemma rune_len_is_rune: "rune_len s \<noteq> 0 \<Longrightarrow> is_rune (take (rune_len s) s)"
  by (simp add: rune_len_def split: if_splits)

lemma rune_len_take: "n \<le> rune_len s \<Longrightarrow> take n (s @ t) = take n s"
  using rune_len_le [of s] by simp

lemma rune_len_rest: "s \<noteq> [] \<Longrightarrow> rune_len s \<noteq> 0 \<Longrightarrow> length (drop (rune_len s) s) < length s"
  by simp

lemma rune_len_cases:
  assumes "rune_len s = m" "m \<noteq> 0"
  obtains "m = 1" "is_rune (take 1 s)"
    | "m = 2" "\<not> is_rune (take 1 s)" "is_rune (take 2 s)"
    | "m = 3" "\<not> is_rune (take 1 s)" "\<not> is_rune (take 2 s)" "is_rune (take 3 s)"
    | "m = 4" "\<not> is_rune (take 1 s)" "\<not> is_rune (take 2 s)" "\<not> is_rune (take 3 s)" "is_rune (take 4 s)"
  using assms unfolding rune_len_def by (metis (full_types))

lemma rune_len_append:
  assumes "rune_len s \<noteq> 0"
  shows "rune_len (s @ t) = rune_len s"
proof -
  define m where "m = rune_len s"
  have l: "m \<le> length s" using rune_len_le [of s] by (simp add: m_def)
  have "m \<noteq> 0" "rune_len s = m" using assms by (simp_all add: m_def)
  from rune_len_cases [OF this(2) this(1)] have "rune_len (s @ t) = m"
    by cases (use l in \<open>simp_all add: rune_len_def\<close>)
  then show ?thesis by (simp add: m_def)
qed

lemma rune_len_take_self: "rune_len s \<noteq> 0 \<Longrightarrow> rune_len (take (rune_len s) s) = rune_len s"
  by (auto simp: rune_len_def min_def split: if_splits)

function utf8_valid :: "string \<Rightarrow> bool" where
  "utf8_valid s = (if s = [] then True else if rune_len s = 0 then False else utf8_valid (drop (rune_len s) s))"
  by pat_completeness auto
termination
  by (relation "measure length") (auto intro: rune_len_rest)

declare utf8_valid.simps [simp del]

lemma utf8_valid_Nil [simp]: "utf8_valid []"
  by (subst utf8_valid.simps) simp

lemma utf8_valid_append: "utf8_valid s \<Longrightarrow> utf8_valid t \<Longrightarrow> utf8_valid (s @ t)"
proof (induction s rule: utf8_valid.induct)
  case (1 s)
  show ?case
  proof (cases "s = []")
    case True
    then show ?thesis using 1 by simp
  next
    case False
    then have r: "rune_len s \<noteq> 0" "utf8_valid (drop (rune_len s) s)" using 1 utf8_valid.simps [of s] by (auto split: if_splits)
    then show ?thesis
      using "1.IH" [OF False r] "1.prems" rune_len_le [of s] utf8_valid.simps [of "s @ t"]
      by (simp add: rune_len_append)
  qed
qed

lemma utf8_valid_ascii: "\<forall>c\<in>set s. of_char c < (128 :: nat) \<Longrightarrow> utf8_valid s"
  by (induction s) (simp_all add: utf8_valid.simps [of "_ # _"] rune_len_ascii)

section \<open>Writing a string\<close>

definition hex_digit :: "nat \<Rightarrow> char" where
  "hex_digit n = (if n < 10 then char_of (48 + n) else char_of (87 + n))"

definition html_char :: "char \<Rightarrow> bool" where
  "html_char c \<longleftrightarrow> c = CHR ''<'' \<or> c = CHR ''>'' \<or> c = CHR ''&''"

definition escape :: "char \<Rightarrow> string" where
  "escape c =
     (if c = CHR 0x5C \<or> c = CHR 0x22 then [CHR 0x5C, c]
      else if c = CHR 0x0A then [CHR 0x5C, CHR ''n'']
      else if c = CHR 0x0D then [CHR 0x5C, CHR ''r'']
      else if c = CHR 0x09 then [CHR 0x5C, CHR ''t'']
      else if of_char c < (0x20 :: nat) \<or> html_char c
      then [CHR 0x5C, CHR ''u'', CHR ''0'', CHR ''0'', hex_digit (of_char c div 16), hex_digit (of_char c mod 16)]
      else [c])"

definition u2028 :: string where "u2028 = [CHR 0xE2, CHR 0x80, CHR 0xA8]"
definition u2029 :: string where "u2029 = [CHR 0xE2, CHR 0x80, CHR 0xA9]"
definition uFFFD :: string where "uFFFD = [CHR 0xEF, CHR 0xBF, CHR 0xBD]"

function quote_body :: "string \<Rightarrow> string" where
  "quote_body s =
     (case s of
        [] \<Rightarrow> []
      | c # cs \<Rightarrow>
          if of_char c < (128 :: nat) then escape c @ quote_body cs
          else if rune_len s = 0 then CHR 0x5C # ''ufffd'' @ quote_body cs
          else if take 3 s = u2028 then CHR 0x5C # ''u2028'' @ quote_body (drop 3 s)
          else if take 3 s = u2029 then CHR 0x5C # ''u2029'' @ quote_body (drop 3 s)
          else take (rune_len s) s @ quote_body (drop (rune_len s) s))"
  by pat_completeness auto
termination
  by (relation "measure length") auto

declare quote_body.simps [simp del]

lemma length_quote_body: "length (quote_body s) \<le> 6 * length s"
proof (induction s rule: quote_body.induct)
  case (1 s)
  show ?case
  proof (cases s)
    case (Cons c cs)
    have e: "length (escape c) \<le> 6" by (simp add: escape_def)
    have n: "rune_len s \<le> length s" by (rule rune_len_le)
    have t: "3 \<le> length s" if "take 3 s = u2028 \<or> take 3 s = u2029"
    proof -
      have "length (take 3 s) = 3" using that by (elim disjE) (simp_all only: u2028_def u2029_def, simp_all)
      then show ?thesis by simp
    qed
    show ?thesis
    proof (cases "of_char c < (128 :: nat)")
      case True
      then show ?thesis using "1.IH"(1) [OF Cons True] e Cons by (simp add: quote_body.simps [of "c # cs"])
    next
      case False
      then show ?thesis
        using "1.IH"(2-5) [OF Cons False] n t Cons
        by (cases "u2029 = u2028") (auto simp: quote_body.simps [of "c # cs"])
    qed
  qed (simp add: quote_body.simps)
qed

definition quote :: "string \<Rightarrow> string" where
  "quote s = CHR 0x22 # quote_body s @ [CHR 0x22]"

section \<open>Reading a string\<close>

definition hex_val :: "char \<Rightarrow> nat option" where
  "hex_val c =
     (if in_range 48 57 c then Some (of_char c - 48)
      else if in_range 97 102 c then Some (of_char c - 87)
      else if in_range 65 70 c then Some (of_char c - 55)
      else None)"

text \<open>The number of four hexadecimal digits at the head of a string.\<close>

definition hex4 :: "string \<Rightarrow> nat option" where
  "hex4 s =
     (case s of
        a # b # c # d # _ \<Rightarrow>
          (case (hex_val a, hex_val b, hex_val c, hex_val d) of
             (Some w, Some x, Some y, Some z) \<Rightarrow> Some (((w * 16 + x) * 16 + y) * 16 + z)
           | _ \<Rightarrow> None)
      | _ \<Rightarrow> None)"

text \<open>\<open>utf8.EncodeRune\<close>, for a number that is no surrogate.\<close>

definition encode_rune :: "nat \<Rightarrow> string" where
  "encode_rune n =
     (if n < 0x80 then [char_of n]
      else if n < 0x800 then [char_of (0xC0 + n div 64), char_of (0x80 + n mod 64)]
      else if n < 0x10000 then [char_of (0xE0 + n div 4096), char_of (0x80 + n div 64 mod 64), char_of (0x80 + n mod 64)]
      else [char_of (0xF0 + n div 262144), char_of (0x80 + n div 4096 mod 64), char_of (0x80 + n div 64 mod 64),
            char_of (0x80 + n mod 64)])"

definition low_surrogate :: "string \<Rightarrow> nat option" where
  "low_surrogate s =
     (case s of
        b # u # r \<Rightarrow>
          if b = CHR 0x5C \<and> u = CHR ''u''
          then (case hex4 r of Some n \<Rightarrow> if 0xDC00 \<le> n \<and> n < 0xE000 then Some n else None | None \<Rightarrow> None)
          else None
      | _ \<Rightarrow> None)"

text \<open>
  What follows a backslash: the bytes it stands for and how many characters it has. A high
  surrogate not followed by a low one, and a low surrogate alone, stand for U+FFFD.
\<close>

definition unescape :: "string \<Rightarrow> (string \<times> nat) option" where
  "unescape s =
     (case s of
        [] \<Rightarrow> None
      | e # r \<Rightarrow>
          if e = CHR 0x22 \<or> e = CHR 0x5C \<or> e = CHR ''/'' then Some ([e], 1)
          else if e = CHR ''b'' then Some ([CHR 0x08], 1)
          else if e = CHR ''f'' then Some ([CHR 0x0C], 1)
          else if e = CHR ''n'' then Some ([CHR 0x0A], 1)
          else if e = CHR ''r'' then Some ([CHR 0x0D], 1)
          else if e = CHR ''t'' then Some ([CHR 0x09], 1)
          else if e = CHR ''u''
          then (case hex4 r of
                  None \<Rightarrow> None
                | Some n \<Rightarrow>
                    if 0xD800 \<le> n \<and> n < 0xE000
                    then (if n < 0xDC00
                          then (case low_surrogate (drop 4 r) of
                                  Some m \<Rightarrow> Some (encode_rune (0x10000 + (n - 0xD800) * 1024 + (m - 0xDC00)), 11)
                                | None \<Rightarrow> Some (uFFFD, 5))
                          else Some (uFFFD, 5))
                    else Some (encode_rune n, 5))
          else None)"

text \<open>Reading from after the opening quote: the string and what follows the closing one.\<close>

function read_str :: "string \<Rightarrow> (string \<times> string) option" where
  "read_str s =
     (case s of
        [] \<Rightarrow> None
      | c # cs \<Rightarrow>
          if c = CHR 0x22 then Some ([], cs)
          else if c = CHR 0x5C
          then (case unescape cs of
                  None \<Rightarrow> None
                | Some (bs, n) \<Rightarrow> map_option (map_prod (append bs) id) (read_str (drop n cs)))
          else if of_char c < (0x20 :: nat) then None
          else if rune_len s = 0 then map_option (map_prod (append uFFFD) id) (read_str cs)
          else map_option (map_prod (append (take (rune_len s) s)) id) (read_str (drop (rune_len s) s)))"
  by pat_completeness auto
termination
  by (relation "measure length") auto

declare read_str.simps [simp del]

lemma read_str_Nil [simp]: "read_str [] = None"
  by (simp add: read_str.simps)

lemma read_str_close [simp]: "read_str (CHR 0x22 # r) = Some ([], r)"
  by (simp add: read_str.simps)

lemma read_str_escape:
  "read_str (CHR 0x5C # cs) =
     (case unescape cs of None \<Rightarrow> None | Some (bs, n) \<Rightarrow> map_option (map_prod (append bs) id) (read_str (drop n cs)))"
  by (simp add: read_str.simps [of "CHR 0x5C # cs"])

lemma read_str_raw:
  assumes "c \<noteq> CHR 0x22" "c \<noteq> CHR 0x5C"
  shows "read_str (c # cs) =
     (if of_char c < (0x20 :: nat) then None
      else if rune_len (c # cs) = 0 then map_option (map_prod (append uFFFD) id) (read_str cs)
      else map_option (map_prod (append (take (rune_len (c # cs)) (c # cs))) id)
             (read_str (drop (rune_len (c # cs)) (c # cs))))"
  using assms by (simp add: read_str.simps [of "c # cs"])

lemma read_str_rune:
  assumes "rune_len s \<noteq> 0" "hd s \<noteq> CHR 0x22" "hd s \<noteq> CHR 0x5C" "(0x20 :: nat) \<le> of_char (hd s)"
  shows "read_str (take (rune_len s) s @ t) = map_option (map_prod (append (take (rune_len s) s)) id) (read_str t)"
proof -
  let ?z = "take (rune_len s) s @ t"
  obtain c cs where s: "s = c # cs" using assms(1) by (cases s) auto
  obtain z where z: "?z = c # z" using assms(1) s by (cases "rune_len s") auto
  have n: "rune_len ?z = rune_len s" using assms(1) rune_len_append rune_len_take_self by metis
  have l: "take (rune_len s) ?z = take (rune_len s) s" "drop (rune_len s) ?z = t"
    using rune_len_le [of s] by simp_all
  have "read_str ?z = map_option (map_prod (append (take (rune_len ?z) ?z)) id) (read_str (drop (rune_len ?z) ?z))"
    unfolding z using read_str_raw [of c z] assms s n z by simp
  then show ?thesis unfolding n l .
qed

lemma read_str_shorter: "read_str s = Some (v, r) \<Longrightarrow> length r < length s"
proof (induction s arbitrary: v rule: read_str.induct)
  case (1 s)
  show ?case
  proof (cases s)
    case (Cons c cs)
    show ?thesis
    proof (cases "c = CHR 0x22")
      case True
      then show ?thesis using "1.prems" Cons by simp
    next
      case q: False
      show ?thesis
      proof (cases "c = CHR 0x5C")
        case True
        then show ?thesis using "1.prems" Cons "1.IH"(1) [OF Cons]
          by (fastforce simp: read_str_escape split: option.splits)
      next
        case False
        then show ?thesis using "1.prems" Cons q "1.IH"(2,3) [OF Cons]
          by (fastforce simp: read_str_raw split: if_splits)
      qed
    qed
  qed (use "1.prems" in simp)
qed

section \<open>What was written is read back\<close>

lemma hex_val_digit: "n < 16 \<Longrightarrow> hex_val (hex_digit n) = Some n"
  by (auto simp: hex_val_def hex_digit_def in_range_def)

lemma hex_val_0: "hex_val (CHR ''0'') = Some 0"
  by (simp add: hex_val_def in_range_def)

lemma unescape_escape:
  assumes "of_char c < (128 :: nat)" "escape c = CHR 0x5C # e"
  shows "unescape (e @ r) = Some ([c], length e)"
proof -
  consider "c = CHR 0x5C" | "c = CHR 0x22" | "c = CHR 0x0A" | "c = CHR 0x0D" | "c = CHR 0x09"
    | "e = [CHR ''u'', CHR ''0'', CHR ''0'', hex_digit (of_char c div 16), hex_digit (of_char c mod 16)]"
    using assms(2) by (auto simp: escape_def split: if_splits)
  then show ?thesis
  proof cases
    case 6
    have "(of_char c :: nat) div 16 < 16" using assms(1) by simp
    then have "hex4 (tl e @ r) = Some (of_char c)"
      using 6 by (simp add: hex4_def hex_val_digit hex_val_0)
    then show ?thesis using 6 assms(1) by (simp add: unescape_def encode_rune_def)
  qed (use assms(2) in \<open>auto simp: escape_def unescape_def\<close>)
qed

lemma escape_cases:
  obtains e where "escape c = CHR 0x5C # e"
    | "escape c = [c]" "c \<noteq> CHR 0x22" "c \<noteq> CHR 0x5C" "(0x20 :: nat) \<le> of_char c"
proof (cases "\<exists>e. escape c = CHR 0x5C # e")
  case False
  then have "escape c = [c] \<and> c \<noteq> CHR 0x22 \<and> c \<noteq> CHR 0x5C \<and> (0x20 :: nat) \<le> of_char c"
    by (auto simp: escape_def not_less split: if_splits)
  then show ?thesis using that(2) by blast
qed (use that(1) in blast)

lemma read_str_escaped:
  assumes "of_char c < (128 :: nat)"
  shows "read_str (escape c @ t) = map_option (map_prod (Cons c) id) (read_str t)"
proof (rule escape_cases [of c])
  fix e assume e: "escape c = CHR 0x5C # e"
  then show ?thesis
    using unescape_escape [OF assms e, of t] by (simp add: read_str_escape append_Cons [abs_def])
next
  assume "escape c = [c]" "c \<noteq> CHR 0x22" "c \<noteq> CHR 0x5C" "(0x20 :: nat) \<le> of_char c"
  then show ?thesis using assms by (simp add: read_str_raw rune_len_ascii append_Cons [abs_def])
qed

lemma rune_len_u202x: "rune_len (u2028 @ s) = 3" "rune_len (u2029 @ s) = 3"
  by (simp_all add: rune_len_def u2028_def u2029_def in_range_def second_of_3_def cont_byte_def eval_nat_numeral)

lemma bytes_u202x:
  "char_of (239 :: nat) = CHR 0xEF" "char_of (191 :: nat) = CHR 0xBF" "char_of (189 :: nat) = CHR 0xBD"
  "char_of (226 :: nat) = CHR 0xE2" "char_of (128 :: nat) = CHR 0x80" "char_of (168 :: nat) = CHR 0xA8"
  "char_of (169 :: nat) = CHR 0xA9"
  by (simp_all add: char_of_eq_iff)

lemma read_str_u202x:
  "read_str (CHR 0x5C # ''u2028'' @ t) = map_option (map_prod (append u2028) id) (read_str t)"
  "read_str (CHR 0x5C # ''u2029'' @ t) = map_option (map_prod (append u2029) id) (read_str t)"
  by (simp_all add: read_str_escape unescape_def hex4_def hex_val_def in_range_def encode_rune_def
      u2028_def u2029_def bytes_u202x)

text \<open>What is read back: the text, with U+FFFD in the place of every byte that is not valid.\<close>

function mend :: "string \<Rightarrow> string" where
  "mend s =
     (case s of
        [] \<Rightarrow> []
      | c # cs \<Rightarrow>
          if rune_len s = 0 then uFFFD @ mend cs
          else take (rune_len s) s @ mend (drop (rune_len s) s))"
  by pat_completeness auto
termination
  by (relation "measure length") auto

declare mend.simps [simp del]

lemma mend_valid: "utf8_valid s \<Longrightarrow> mend s = s"
proof (induction s rule: utf8_valid.induct)
  case (1 s)
  then show ?case
    using mend.simps [of s] utf8_valid.simps [of s] append_take_drop_id [of "rune_len s" s]
    by (cases s) (auto split: if_splits)
qed

text \<open>Mending leaves a text alone unless U+FFFD is in the result.\<close>

lemma mend_plain: "CHR 0xEF \<notin> set (mend s) \<Longrightarrow> mend s = s"
proof (induction s rule: mend.induct)
  case (1 s)
  show ?case
  proof (cases s)
    case (Cons c cs)
    show ?thesis
    proof (cases "rune_len s = 0")
      case True
      then show ?thesis using "1.prems" Cons by (simp add: mend.simps [of "c # cs"] uFFFD_def)
    next
      case False
      then have m: "mend s = take (rune_len s) s @ mend (drop (rune_len s) s)" using Cons mend.simps [of s] by simp
      then have "CHR 0xEF \<notin> set (mend (drop (rune_len s) s))" using "1.prems" by simp
      from "1.IH"(2) [OF Cons False this] show ?thesis using m by simp
    qed
  qed (simp add: mend.simps)
qed

lemma read_str_uFFFD:
  "read_str (CHR 0x5C # ''ufffd'' @ t) = map_option (map_prod (append uFFFD) id) (read_str t)"
  by (simp add: read_str_escape unescape_def hex4_def hex_val_def in_range_def encode_rune_def
      uFFFD_def bytes_u202x)

lemma read_str_mend: "read_str (quote_body s @ CHR 0x22 # r) = Some (mend s, r)"
proof (induction s rule: mend.induct)
  case (1 s)
  show ?case
  proof (cases s)
    case Nil
    then show ?thesis by (simp add: quote_body.simps mend.simps)
  next
    case (Cons c cs)
    show ?thesis
    proof (cases "rune_len s = 0")
      case True
      then have "\<not> of_char c < (128 :: nat)" using Cons rune_len_ascii [of c cs] by auto
      then show ?thesis
        using "1.IH"(1) [OF Cons True] True Cons read_str_uFFFD [of "quote_body cs @ CHR 0x22 # r"]
        by (simp add: quote_body.simps [of "c # cs"] mend.simps [of "c # cs"])
    next
      case n: False
      have IH: "read_str (quote_body (drop (rune_len s) s) @ CHR 0x22 # r) = Some (mend (drop (rune_len s) s), r)"
        using "1.IH"(2) [OF Cons n] .
      have m: "mend s = take (rune_len s) s @ mend (drop (rune_len s) s)"
        using n Cons mend.simps [of s] by simp
      show ?thesis
      proof (cases "of_char c < (128 :: nat)")
        case True
        then show ?thesis
          using IH m Cons by (simp add: quote_body.simps [of "c # cs"] rune_len_ascii read_str_escaped)
      next
        case False
        then have h: "hd s \<noteq> CHR 0x22" "hd s \<noteq> CHR 0x5C" "(0x20 :: nat) \<le> of_char (hd s)"
          using Cons by auto
        have 3: "rune_len s = 3" if "take 3 s = u2028 \<or> take 3 s = u2029"
          using that rune_len_u202x [of "drop 3 s"] append_take_drop_id [of 3 s] by metis
        show ?thesis
        proof (cases "take 3 s = u2028 \<or> take 3 s = u2029")
          case True
          moreover have "u2028 \<noteq> u2029" by (simp add: u2028_def u2029_def)
          moreover have "quote_body s = CHR 0x5C # (if take 3 s = u2028 then ''u2028'' else ''u2029'') @ quote_body (drop 3 s)"
            using False Cons n True by (auto simp: quote_body.simps [of "c # cs"])
          ultimately show ?thesis
            using IH m 3 read_str_u202x by (cases "take 3 s = u2028") simp_all
        next
          case F: False
          then show ?thesis
            using False IH m Cons n read_str_rune [OF n h] by (simp add: quote_body.simps [of "c # cs"])
        qed
      qed
    qed
  qed
qed

lemma read_str_quote_body: "utf8_valid s \<Longrightarrow> read_str (quote_body s @ CHR 0x22 # r) = Some (s, r)"
  by (simp add: read_str_mend mend_valid)

end
