(* ===== verification/Base64.thy ===== *)
theory Base64
  imports Prelude
begin

text \<open>
  \<open>base64.StdEncoding\<close>, in which JSON carries a byte slice: three bytes as four characters,
  the last group padded. Reading skips line breaks, and refuses any other character, a
  missing padding and text after it.
\<close>

definition b64_char :: "nat \<Rightarrow> char" where
  "b64_char n =
     (if n < 26 then char_of (65 + n) else if n < 52 then char_of (71 + n)
      else if n < 62 then char_of (n - 4) else if n = 62 then CHR ''+'' else CHR ''/'')"

definition b64_val :: "char \<Rightarrow> nat option" where
  "b64_val c =
     (let n = of_char c in
      if 65 \<le> n \<and> n \<le> 90 then Some (n - 65)
      else if 97 \<le> n \<and> n \<le> 122 then Some (n - 71)
      else if 48 \<le> n \<and> n \<le> 57 then Some (n + 4)
      else if c = CHR ''+'' then Some 62
      else if c = CHR ''/'' then Some 63
      else None)"

text \<open>The four characters of three bytes.\<close>

definition quad1 :: "nat \<Rightarrow> char" where "quad1 a = b64_char (a div 4)"
definition quad2 :: "nat \<Rightarrow> nat \<Rightarrow> char" where "quad2 a b = b64_char (a mod 4 * 16 + b div 16)"
definition quad3 :: "nat \<Rightarrow> nat \<Rightarrow> char" where "quad3 b c = b64_char (b mod 16 * 4 + c div 64)"
definition quad4 :: "nat \<Rightarrow> char" where "quad4 c = b64_char (c mod 64)"

fun b64_encode :: "string \<Rightarrow> string" where
  "b64_encode [] = []"
| "b64_encode [a] = [quad1 (of_char a), quad2 (of_char a) 0, CHR ''='', CHR ''='']"
| "b64_encode [a, b] =
     [quad1 (of_char a), quad2 (of_char a) (of_char b), quad3 (of_char b) 0, CHR ''='']"
| "b64_encode (a # b # c # r) =
     quad1 (of_char a) # quad2 (of_char a) (of_char b) # quad3 (of_char b) (of_char c) # quad4 (of_char c)
       # b64_encode r"

fun b64_quads :: "string \<Rightarrow> string option" where
  "b64_quads [] = Some []"
| "b64_quads (a # b # c # d # r) =
     (case (b64_val a, b64_val b) of
        (Some w, Some x) \<Rightarrow>
          if c = CHR ''='' then (if d = CHR ''='' \<and> r = [] then Some [char_of (w * 4 + x div 16)] else None)
          else (case b64_val c of
                  None \<Rightarrow> None
                | Some y \<Rightarrow>
                    if d = CHR ''=''
                    then (if r = [] then Some [char_of (w * 4 + x div 16), char_of (x mod 16 * 16 + y div 4)] else None)
                    else (case (b64_val d, b64_quads r) of
                            (Some z, Some s) \<Rightarrow>
                              Some (char_of (w * 4 + x div 16) # char_of (x mod 16 * 16 + y div 4)
                                      # char_of (y mod 4 * 64 + z) # s)
                          | _ \<Rightarrow> None))
      | _ \<Rightarrow> None)"
| "b64_quads _ = None"

definition b64_decode :: "string \<Rightarrow> string option" where
  "b64_decode s = b64_quads (filter (\<lambda>c. c \<noteq> CHR 0x0A \<and> c \<noteq> CHR 0x0D) s)"

section \<open>Round trip\<close>

lemma b64_val_char:
  assumes "n < 64"
  shows "b64_val (b64_char n) = Some n" "b64_char n \<noteq> CHR ''=''"
    "b64_char n \<noteq> CHR 0x0A" "b64_char n \<noteq> CHR 0x0D"
    "b64_char n \<noteq> CHR 0x22" "b64_char n \<noteq> CHR 0x5C"
    "(0x20 :: nat) \<le> of_char (b64_char n)" "of_char (b64_char n) < (128 :: nat)"
  using assms by (auto simp: b64_val_def b64_char_def Let_def char_of_eq_iff take_bit_eq_mod)

lemma div_less_byte: "a < 256 \<Longrightarrow> a div 4 < 64" "a < 256 \<Longrightarrow> a div 16 < 16" "a < 256 \<Longrightarrow> a div 64 < (4 :: nat)"
  by (simp_all add: less_mult_imp_div_less)

lemma digit_sum: "x < m \<Longrightarrow> y < n \<Longrightarrow> x * n + y < m * (n :: nat)"
proof -
  assume "x < m" "y < n"
  then have "x * n + y < Suc x * n" "Suc x * n \<le> m * n" by (simp, intro mult_le_mono1) simp
  then show ?thesis by linarith
qed

lemma byte_bounds:
  fixes a b :: nat
  assumes "a < 256" "b < 256"
  shows "a div 4 < 64" "a mod 4 * 16 + b div 16 < 64" "a mod 16 * 4 + b div 64 < 64" "a mod 64 < 64"
  using digit_sum [of "a mod 4" 4 "b div 16" 16] digit_sum [of "a mod 16" 16 "b div 64" 4] assms
  by (simp_all add: div_less_byte)

lemma byte_div [simp]:
  "(of_char b :: nat) div 16 div 16 = 0" "(of_char b :: nat) div 16 mod 16 = of_char b div 16"
  "(of_char b :: nat) div 64 div 4 = 0" "(of_char b :: nat) div 64 mod 4 = of_char b div 64"
  by (simp_all add: div_less_byte)

lemma quad_val [simp]:
  "b64_val (quad1 (of_char a)) = Some (of_char a div 4)"
  "b64_val (quad2 (of_char a) (of_char b)) = Some (of_char a mod 4 * 16 + of_char b div 16)"
  "b64_val (quad2 (of_char a) 0) = Some (of_char a mod 4 * 16)"
  "b64_val (quad3 (of_char a) (of_char b)) = Some (of_char a mod 16 * 4 + of_char b div 64)"
  "b64_val (quad3 (of_char a) 0) = Some (of_char a mod 16 * 4)"
  "b64_val (quad4 (of_char a)) = Some (of_char a mod 64)"
  using byte_bounds [of "of_char a" "of_char b"] byte_bounds [of "of_char a" 0]
  by (simp_all add: quad1_def quad2_def quad3_def quad4_def b64_val_char)

definition plain :: "char \<Rightarrow> bool" where
  "plain c \<longleftrightarrow> c \<noteq> CHR ''='' \<and> c \<noteq> CHR 0x0A \<and> c \<noteq> CHR 0x0D \<and> c \<noteq> CHR 0x22 \<and> c \<noteq> CHR 0x5C
     \<and> (0x20 :: nat) \<le> of_char c \<and> of_char c < (128 :: nat)"

lemma quad_plain [simp]:
  "plain (quad1 (of_char a))" "plain (quad2 (of_char a) (of_char b))" "plain (quad2 (of_char a) 0)"
  "plain (quad3 (of_char a) (of_char b))" "plain (quad3 (of_char a) 0)" "plain (quad4 (of_char a))"
  using byte_bounds [of "of_char a" "of_char b"] byte_bounds [of "of_char a" 0]
  by (simp_all add: plain_def quad1_def quad2_def quad3_def quad4_def b64_val_char)

lemma plain_no_pad [simp]: "plain c \<Longrightarrow> (c = CHR ''='') = False"
  by (auto simp: plain_def)

lemma b64_quads_encode: "b64_quads (b64_encode s) = Some s"
  by (induction s rule: b64_encode.induct) simp_all

lemma b64_encode_chars: "\<forall>c\<in>set (b64_encode s). plain c \<or> c = CHR ''=''"
  by (induction s rule: b64_encode.induct) simp_all

lemma b64_decode_encode: "b64_decode (b64_encode s) = Some s"
proof -
  have "c \<noteq> CHR 0x0A \<and> c \<noteq> CHR 0x0D" if "c \<in> set (b64_encode s)" for c
    using b64_encode_chars that by (auto simp: plain_def)
  then have "filter (\<lambda>c. c \<noteq> CHR 0x0A \<and> c \<noteq> CHR 0x0D) (b64_encode s) = b64_encode s"
    by (simp add: filter_id_conv)
  then show ?thesis by (simp add: b64_decode_def b64_quads_encode)
qed

end
