(* ===== verification/Json.thy ===== *)
theory Json
  imports Json_Text Base64
begin

text \<open>
  JSON values and Go structs, as \<open>encoding/json\<close> of Go 1.16 reads and writes them. \<open>Marshal\<close>
  writes the fields of a struct in order; \<open>Unmarshal\<close> checks the whole text first and then
  stores the members of the object into the fields they name. A value that does not fit its
  field is skipped, and the first such mismatch is the error returned. Struct fields are of
  the types the program uses: strings, byte slices, \<open>uint64\<close> and \<open>int\<close>. A nil slice and an
  empty one are one value here, written as \<open>null\<close>.
\<close>

section \<open>Reading values\<close>

datatype json =
    JNull
  | JBool bool
  | JNum string                 \<comment> \<open>the literal as written\<close>
  | JStr string
  | JArr "json list"
  | JObj "(string \<times> json) list"

definition is_ws :: "char \<Rightarrow> bool" where
  "is_ws c \<longleftrightarrow> c = CHR '' '' \<or> c = CHR 0x09 \<or> c = CHR 0x0D \<or> c = CHR 0x0A"

definition skip_ws :: "string \<Rightarrow> string" where
  "skip_ws s = dropWhile is_ws s"

lemma skip_ws_le: "length (skip_ws s) \<le> length s"
  by (simp add: skip_ws_def length_dropWhile_le)

lemma skip_ws_Cons_less: "skip_ws s = c # r \<Longrightarrow> length r < length s"
  using skip_ws_le [of s] by simp

definition digits :: "string \<Rightarrow> string \<times> string" where
  "digits s = (takeWhile is_digit s, dropWhile is_digit s)"

text \<open>The parts of a number: each is the text it takes and the rest, or \<open>None\<close>.\<close>

definition num_int :: "string \<Rightarrow> (string \<times> string) option" where
  "num_int s =
     (case s of
        [] \<Rightarrow> None
      | c # r \<Rightarrow> if c = CHR ''0'' then Some ([c], r)
                else if is_digit c then Some (digits s) else None)"

definition num_frac :: "string \<Rightarrow> (string \<times> string) option" where
  "num_frac s =
     (if s \<noteq> [] \<and> hd s = CHR ''.''
      then (if fst (digits (tl s)) = [] then None else Some (hd s # fst (digits (tl s)), snd (digits (tl s))))
      else Some ([], s))"

definition num_exp :: "string \<Rightarrow> (string \<times> string) option" where
  "num_exp s =
     (if s \<noteq> [] \<and> (hd s = CHR ''e'' \<or> hd s = CHR ''E'')
      then (let r = tl s;
                sg = (if r \<noteq> [] \<and> (hd r = CHR ''+'' \<or> hd r = CHR ''-'') then [hd r] else []);
                ds = digits (drop (length sg) r)
            in if fst ds = [] then None else Some (hd s # sg @ fst ds, snd ds))
      else Some ([], s))"

definition read_num :: "string \<Rightarrow> (string \<times> string) option" where
  "read_num s =
     (let sg = (if s \<noteq> [] \<and> hd s = CHR ''-'' then ''-'' else []) in
      case num_int (drop (length sg) s) of
        None \<Rightarrow> None
      | Some (i, r) \<Rightarrow>
          (case num_frac r of
             None \<Rightarrow> None
           | Some (f, r2) \<Rightarrow>
               (case num_exp r2 of None \<Rightarrow> None | Some (e, r3) \<Rightarrow> Some (sg @ i @ f @ e, r3))))"

definition read_literal :: "string \<Rightarrow> (json \<times> string) option" where
  "read_literal s =
     (if prefix ''true'' s then Some (JBool True, drop 4 s)
      else if prefix ''false'' s then Some (JBool False, drop 5 s)
      else if prefix ''null'' s then Some (JNull, drop 4 s)
      else None)"

text \<open>
  A value and what follows it. \<open>d\<close> is the number of arrays and objects that may still be
  opened. A value is never longer than the text it is read from: the tests on the lengths
  are always true, and make the recursion's end evident.
\<close>

function read_value :: "nat \<Rightarrow> string \<Rightarrow> (json \<times> string) option"
  and read_elements :: "nat \<Rightarrow> string \<Rightarrow> (json list \<times> string) option"
  and read_members :: "nat \<Rightarrow> string \<Rightarrow> ((string \<times> json) list \<times> string) option" where
  "read_value d s =
     (case skip_ws s of
        [] \<Rightarrow> None
      | c # r \<Rightarrow>
          if c = CHR 0x22 then map_option (map_prod JStr id) (read_str r)
          else if c = CHR ''{''
          then (if d = 0 then None
                else case skip_ws r of
                  [] \<Rightarrow> None
                | c' # r' \<Rightarrow> if c' = CHR ''}'' then Some (JObj [], r')
                            else map_option (map_prod JObj id) (read_members (d - 1) r))
          else if c = CHR ''[''
          then (if d = 0 then None
                else case skip_ws r of
                  [] \<Rightarrow> None
                | c' # r' \<Rightarrow> if c' = CHR '']'' then Some (JArr [], r')
                            else map_option (map_prod JArr id) (read_elements (d - 1) r))
          else if c = CHR ''-'' \<or> is_digit c then map_option (map_prod JNum id) (read_num (c # r))
          else read_literal (c # r))"
| "read_elements d s =
     (case read_value d s of
        None \<Rightarrow> None
      | Some (v, r) \<Rightarrow>
          (case skip_ws r of
             [] \<Rightarrow> None
           | c # r' \<Rightarrow>
               if c = CHR '']'' then Some ([v], r')
               else if c = CHR '','' \<and> length r' < length s
               then map_option (map_prod (Cons v) id) (read_elements d r')
               else None))"
| "read_members d s =
     (case skip_ws s of
        [] \<Rightarrow> None
      | c # r \<Rightarrow>
          if c \<noteq> CHR 0x22 then None
          else (case read_str r of
             None \<Rightarrow> None
           | Some (k, r1) \<Rightarrow>
               (case skip_ws r1 of
                  [] \<Rightarrow> None
                | c1 # r2 \<Rightarrow>
                    if c1 = CHR '':'' \<and> length r2 < length s
                    then (case read_value d r2 of
                       None \<Rightarrow> None
                     | Some (v, r3) \<Rightarrow>
                         (case skip_ws r3 of
                            [] \<Rightarrow> None
                          | c4 # r4 \<Rightarrow>
                              if c4 = CHR ''}'' then Some ([(k, v)], r4)
                              else if c4 = CHR '','' \<and> length r4 < length s
                              then map_option (map_prod (Cons (k, v)) id) (read_members d r4)
                              else None))
                    else None)))"
  by pat_completeness auto
termination
  by (relation "measure (\<lambda>x. case x of
        Inl (d, s) \<Rightarrow> 2 * length s
      | Inr y \<Rightarrow> (case y of Inl (d, s) \<Rightarrow> 2 * length s + 1 | Inr (d, s) \<Rightarrow> 2 * length s + 1))")
     (auto dest!: skip_ws_Cons_less)

declare read_value.simps [simp del] read_elements.simps [simp del] read_members.simps [simp del]

definition read_json :: "string \<Rightarrow> json option" where
  "read_json s =
     (case read_value 10000 s of
        None \<Rightarrow> None
      | Some (v, r) \<Rightarrow> if skip_ws r = [] then Some v else None)"

text \<open>What follows a value is shorter than the text: the tests on the lengths are always true.\<close>

lemma read_num_le:
  assumes "read_num s = Some (v, r)"
  shows "length r < length s"
proof -
  have d: "length (snd (digits t)) \<le> length t" for t by (simp add: digits_def length_dropWhile_le)
  have i: "length t' < length t" if "num_int t = Some (x, t')" for t x t'
    using that by (auto simp: num_int_def digits_def length_dropWhile_le less_Suc_eq_le split: list.splits if_splits)
  have f: "length t' \<le> length t" if "num_frac t = Some (x, t')" for t x t'
    using that d [of "tl t"] by (auto simp: num_frac_def split: if_splits)
  have e: "length t' \<le> length t" if N: "num_exp t = Some (x, t')" for t x t'
  proof (cases "t \<noteq> [] \<and> (hd t = CHR ''e'' \<or> hd t = CHR ''E'')")
    case True
    then obtain k where "t' = snd (digits (drop k (tl t)))" using N
      by (auto simp: num_exp_def Let_def split: if_splits intro: that [of 0] that [of 1])
    then show ?thesis using d [of "drop k (tl t)"] by simp
  qed (use N in \<open>auto simp: num_exp_def\<close>)
  define k where "k = length (if s \<noteq> [] \<and> hd s = CHR ''-'' then ''-'' else [])"
  obtain x1 r1 x2 r2 x3 where "num_int (drop k s) = Some (x1, r1)" "num_frac r1 = Some (x2, r2)" "num_exp r2 = Some (x3, r)"
    using assms by (auto simp: read_num_def Let_def k_def [symmetric] split: option.splits simp del: if_split)
  from i [OF this(1)] f [OF this(2)] e [OF this(3)] show ?thesis by simp
qed

lemma read_literal_le: "read_literal s = Some (v, r) \<Longrightarrow> length r < length s"
  by (auto simp: read_literal_def prefix_def split: if_splits)

lemma read_shorter:
  "read_value d s = Some (v, r) \<Longrightarrow> length r < length s"
  "read_elements d s = Some (vs, r) \<Longrightarrow> length r < length s"
  "read_members d s = Some (ms, r) \<Longrightarrow> length r < length s"
proof (induction d s and d s and d s arbitrary: v r and vs r and ms r rule: read_value_read_elements_read_members.induct)
  case (1 d s)
  obtain c r0 where sk: "skip_ws s = c # r0"
    using "1.prems" by (cases "skip_ws s") (simp_all add: read_value.simps [of d s])
  note l = skip_ws_Cons_less [OF sk]
  have inside: "length r < length r0" if "skip_ws r0 = c' # r'" "r = r' \<or> length r < length r0" for c' r'
    using that skip_ws_Cons_less [OF that(1)] by auto
  note e = "1.prems" [unfolded read_value.simps [of d s] sk list.case]
  consider "c = CHR 0x22" | "c = CHR ''{''" | "c = CHR ''[''" | "c \<noteq> CHR 0x22" "c \<noteq> CHR ''{''" "c \<noteq> CHR ''[''" by blast
  then show ?case
  proof cases
    case 1
    then show ?thesis using e l read_str_shorter [of r0] by fastforce
  next
    case 2
    then obtain c' r' where o: "d \<noteq> 0" "skip_ws r0 = c' # r'" using e by (auto split: if_splits list.splits)
    then have "r = r' \<or> length r < length r0"
      using e 2 "1.IH"(1) [OF sk _ 2 o(1) o(2)] by (cases "c' = CHR ''}''") auto
    then show ?thesis using inside [OF o(2)] l by simp
  next
    case 3
    then obtain c' r' where o: "d \<noteq> 0" "skip_ws r0 = c' # r'" using e by (auto split: if_splits list.splits)
    then have "r = r' \<or> length r < length r0"
      using e 3 "1.IH"(2) [OF sk _ _ 3 o(1) o(2)] by (cases "c' = CHR '']''") auto
    then show ?thesis using inside [OF o(2)] l by simp
  next
    case 4
    then show ?thesis using e l skip_ws_le [of s] sk read_num_le [of "c # r0"] read_literal_le [of "c # r0"]
      by (fastforce split: if_splits)
  qed
next
  case (2 d s)
  then show ?case
    by (subst (asm) read_elements.simps)
       (fastforce dest!: skip_ws_Cons_less split: option.splits list.splits if_splits)
next
  case (3 d s)
  note e = "3.prems" [unfolded read_members.simps [of d s]]
  obtain c q where sk: "skip_ws s = c # q" "c = CHR 0x22" using e by (auto split: list.splits if_splits)
  obtain k r1 where k: "read_str q = Some (k, r1)" using e sk by (auto split: option.splits)
  obtain c1 r2 where r2: "skip_ws r1 = c1 # r2" using e sk k by (auto split: list.splits)
  have c1: "c1 = CHR '':'' \<and> length r2 < length s" using e sk k r2 by (auto split: if_splits)
  obtain v r3 where v: "read_value d r2 = Some (v, r3)" using e sk k r2 c1 by (auto split: option.splits)
  have l3: "length r3 < length s" using "3.IH"(1) [OF sk(1) _ k _ r2 c1 v] sk c1 by simp
  obtain c4 r4 where r4: "skip_ws r3 = c4 # r4" using e sk k r2 c1 v by (auto split: list.splits)
  have l4: "length r4 < length s" using skip_ws_Cons_less [OF r4] l3 by simp
  show ?case
  proof (cases "c4 = CHR ''}''")
    case True
    then show ?thesis using e sk k r2 c1 v r4 l4 by simp
  next
    case False
    then obtain ms' where "read_members d r4 = Some (ms', r)" "c4 = CHR '',''"
      using e sk k r2 c1 v r4 l4 by (auto split: if_splits)
    then show ?thesis using "3.IH"(2) [OF sk(1) _ k _ r2 c1 v _ r4 False] sk l4 by fastforce
  qed
qed

section \<open>Structs\<close>

datatype field = FStr string | FBytes string | FUint uint64 | FInt goint

type_synonym struct = "(string \<times> field) list"    \<comment> \<open>the names in the tags, in the order of the fields\<close>

definition field_text :: "field \<Rightarrow> string" where
  "field_text f =
     (case f of
        FStr s \<Rightarrow> quote s
      | FBytes b \<Rightarrow> if b = [] then ''null'' else CHR 0x22 # b64_encode b @ [CHR 0x22]
      | FUint n \<Rightarrow> dec_nat (unat n)
      | FInt n \<Rightarrow> dec_int (sint n))"

fun members_text :: "struct \<Rightarrow> string" where
  "members_text [] = []"
| "members_text [(k, f)] = quote k @ CHR '':'' # field_text f"
| "members_text ((k, f) # fs) = quote k @ CHR '':'' # field_text f @ CHR '','' # members_text fs"

definition struct_text :: "struct \<Rightarrow> string" where
  "struct_text fs = CHR ''{'' # members_text fs @ ''}''"

text \<open>
  The comparison of a field's name with a key that does not match exactly: letters in any
  case, and the two characters outside ASCII that fold to \<open>s\<close> and \<open>k\<close>.
\<close>

definition lower :: "char \<Rightarrow> char" where
  "lower c = (if in_range 65 90 c then char_of (of_char c + (32 :: nat)) else c)"

definition is_letter :: "char \<Rightarrow> bool" where
  "is_letter c \<longleftrightarrow> in_range 65 90 c \<or> in_range 97 122 c"

fun equal_fold :: "string \<Rightarrow> string \<Rightarrow> bool" where
  "equal_fold [] t = (t = [])"
| "equal_fold (a # s) t =
     (case t of
        [] \<Rightarrow> False
      | b # t' \<Rightarrow>
          if of_char b < (128 :: nat)
          then (a = b \<or> is_letter a \<and> lower a = lower b) \<and> equal_fold s t'
          else if lower a = CHR ''s'' then prefix [CHR 0xC5, CHR 0xBF] t \<and> equal_fold s (drop 2 t)
          else if lower a = CHR ''k'' then prefix [CHR 0xE2, CHR 0x84, CHR 0xAA] t \<and> equal_fold s (drop 3 t)
          else False)"

definition field_index :: "string list \<Rightarrow> string \<Rightarrow> nat option" where
  "field_index names k =
     (case find (\<lambda>i. names ! i = k) [0..<length names] of
        Some i \<Rightarrow> Some i
      | None \<Rightarrow> find (\<lambda>i. equal_fold (names ! i) k) [0..<length names])"

definition type_error :: "json \<Rightarrow> go_error" where
  "type_error v =
     JsonType (case v of JNull \<Rightarrow> ''null'' | JBool b \<Rightarrow> ''bool'' | JNum t \<Rightarrow> ''number''
               | JStr s \<Rightarrow> ''string'' | JArr vs \<Rightarrow> ''array'' | JObj ms \<Rightarrow> ''object'')"

definition range_error :: "string \<Rightarrow> go_error" where
  "range_error t = JsonType (''number '' @ t)"

text \<open>One element of an array read into a byte slice.\<close>

definition byte_of :: "json \<Rightarrow> char \<times> go_error option" where
  "byte_of v =
     (case v of
        JNull \<Rightarrow> (CHR 0x00, None)
      | JNum t \<Rightarrow>
          (case ParseUint ''ParseUint'' t t of
             Inl e \<Rightarrow> (CHR 0x00, Some (range_error t))
           | Inr n \<Rightarrow> if 255 < n then (CHR 0x00, Some (range_error t)) else (char_of (unat n), None))
      | _ \<Rightarrow> (CHR 0x00, Some (type_error v)))"

definition first_error :: "go_error option \<Rightarrow> go_error option \<Rightarrow> go_error option" where
  "first_error e1 e2 = (case e1 of None \<Rightarrow> e2 | Some e \<Rightarrow> Some e)"

text \<open>Storing a value into a field.\<close>

definition store :: "field \<Rightarrow> json \<Rightarrow> field \<times> go_error option" where
  "store f v =
     (case f of
        FStr _ \<Rightarrow>
          (case v of JNull \<Rightarrow> (f, None) | JStr s \<Rightarrow> (FStr s, None) | _ \<Rightarrow> (f, Some (type_error v)))
      | FBytes _ \<Rightarrow>
          (case v of
             JNull \<Rightarrow> (FBytes [], None)
           | JStr s \<Rightarrow> (case b64_decode s of None \<Rightarrow> (f, Some CorruptInput) | Some b \<Rightarrow> (FBytes b, None))
           | JArr vs \<Rightarrow>
               (FBytes (map (\<lambda>v. fst (byte_of v)) vs), fold (\<lambda>v e. first_error e (snd (byte_of v))) vs None)
           | _ \<Rightarrow> (f, Some (type_error v)))
      | FUint _ \<Rightarrow>
          (case v of
             JNull \<Rightarrow> (f, None)
           | JNum t \<Rightarrow>
               (case ParseUint ''ParseUint'' t t of Inl e \<Rightarrow> (f, Some (range_error t)) | Inr n \<Rightarrow> (FUint n, None))
           | _ \<Rightarrow> (f, Some (type_error v)))
      | FInt _ \<Rightarrow>
          (case v of
             JNull \<Rightarrow> (f, None)
           | JNum t \<Rightarrow>
               (case ParseInt ''ParseInt'' t of Inl e \<Rightarrow> (f, Some (range_error t)) | Inr n \<Rightarrow> (FInt n, None))
           | _ \<Rightarrow> (f, Some (type_error v))))"

fun store_members :: "(string \<times> json) list \<Rightarrow> struct \<Rightarrow> struct \<times> go_error option" where
  "store_members [] fs = (fs, None)"
| "store_members ((k, v) # ms) fs =
     (case field_index (map fst fs) k of
        None \<Rightarrow> store_members ms fs
      | Some i \<Rightarrow>
          (let (f, e) = store (snd (fs ! i)) v;
               (fs', e') = store_members ms (fs[i := (fst (fs ! i), f)])
           in (fs', first_error e e')))"

definition unmarshal :: "string \<Rightarrow> struct \<Rightarrow> struct \<times> go_error option" where
  "unmarshal data fs =
     (case read_json data of
        None \<Rightarrow> (fs, Some JsonSyntax)
      | Some v \<Rightarrow>
          (case v of
             JNull \<Rightarrow> (fs, None)
           | JObj ms \<Rightarrow> store_members ms fs
           | _ \<Rightarrow> (fs, Some (type_error v))))"

section \<open>What was written is read back\<close>

text \<open>Text after a value inside an object.\<close>

definition after_value :: "string \<Rightarrow> bool" where
  "after_value r \<longleftrightarrow> r \<noteq> [] \<and> (hd r = CHR '','' \<or> hd r = CHR ''}'')"

lemma skip_ws_id: "\<not> is_ws c \<Longrightarrow> skip_ws (c # r) = c # r"
  by (simp add: skip_ws_def)

lemma skip_ws_marks [simp]:
  "skip_ws (CHR 0x22 # r) = CHR 0x22 # r" "skip_ws (CHR '':'' # r) = CHR '':'' # r" "skip_ws (CHR ''{'' # r) = CHR ''{'' # r"
  "skip_ws (CHR ''}'' # r) = CHR ''}'' # r" "skip_ws (CHR '','' # r) = CHR '','' # r" "skip_ws (CHR ''n'' # r) = CHR ''n'' # r"
  "skip_ws (CHR ''-'' # r) = CHR ''-'' # r" "skip_ws [] = []"
  by (simp_all add: skip_ws_def is_ws_def)

lemma skip_ws_digit: "is_digit c \<Longrightarrow> skip_ws (c # r) = c # r"
  by (rule skip_ws_id) (auto simp: is_ws_def is_digit_def)

lemma digits_append:
  assumes "\<forall>c\<in>set s. is_digit c" "r = [] \<or> \<not> is_digit (hd r)"
  shows "digits (s @ r) = (s, r)"
  using assms by (cases r) (auto simp: digits_def takeWhile_append dropWhile_append)

lemma dec_nat_hd: "0 < n \<Longrightarrow> hd (dec_nat n) \<noteq> CHR ''0''"
proof (induction n rule: dec_nat.induct)
  case (1 n)
  show ?case
  proof (cases "n < 10")
    case True
    then show ?thesis using "1.prems" by (simp add: dec_nat_small digit_char_def char_of_eq_iff take_bit_eq_mod)
  next
    case False
    then show ?thesis using 1 by (simp add: dec_nat_step dec_nat_ne)
  qed
qed

lemma num_int_dec_nat:
  assumes "r = [] \<or> \<not> is_digit (hd r)"
  shows "num_int (dec_nat n @ r) = Some (dec_nat n, r)"
proof (cases "n = 0")
  case True
  then show ?thesis by (simp add: num_int_def dec_nat_small digit_char_def char_of_eq_iff)
next
  case False
  obtain c s where cs: "dec_nat n = c # s" using dec_nat_ne [of n] by (cases "dec_nat n") auto
  then have "c \<noteq> CHR ''0''" "is_digit c" using False dec_nat_hd [of n] dec_nat_digits [of n] by auto
  then show ?thesis using digits_append [OF dec_nat_digits [of n] assms] cs by (simp add: num_int_def)
qed

lemma after_value_marks:
  assumes "after_value r"
  shows "r \<noteq> []" "\<not> is_digit (hd r)" "hd r \<noteq> CHR ''.''" "hd r \<noteq> CHR ''e''" "hd r \<noteq> CHR ''E''"
  using assms by (auto simp: after_value_def is_digit_def)

lemma read_num_dec:
  assumes "after_value r"
  shows "read_num (dec_nat n @ r) = Some (dec_nat n, r)" "read_num (dec_int i @ r) = Some (dec_int i, r)"
proof -
  note r = after_value_marks [OF assms]
  have n: "read_num (dec_nat n @ r) = Some (dec_nat n, r)" for n
    using num_int_dec_nat [of r n] r dec_nat_ne [of n] dec_nat_digits [of n] digit_not_sign hd_in_set
    by (auto simp: read_num_def num_frac_def num_exp_def)
  then show "read_num (dec_nat n @ r) = Some (dec_nat n, r)" .
  show "read_num (dec_int i @ r) = Some (dec_int i, r)"
  proof (cases "i < 0")
    case True
    then show ?thesis
      using num_int_dec_nat [of r "nat (- i)"] r by (simp add: dec_int_def read_num_def num_frac_def num_exp_def)
  qed (simp add: dec_int_def n)
qed

lemma read_str_plain: "\<forall>c\<in>set s. plain c \<or> c = CHR ''='' \<Longrightarrow> read_str (s @ CHR 0x22 # r) = Some (s, r)"
proof (induction s)
  case (Cons c s)
  then have "plain c \<or> c = CHR ''=''" by simp
  then have "c \<noteq> CHR 0x22" "c \<noteq> CHR 0x5C" "(0x20 :: nat) \<le> of_char c" "of_char c < (128 :: nat)"
    by (elim disjE, simp_all add: plain_def)+
  then show ?case using Cons by (simp add: read_str_raw rune_len_ascii)
qed simp

definition field_json :: "field \<Rightarrow> json" where
  "field_json f =
     (case f of FStr s \<Rightarrow> JStr s | FBytes b \<Rightarrow> if b = [] then JNull else JStr (b64_encode b)
      | FUint n \<Rightarrow> JNum (dec_nat (unat n)) | FInt n \<Rightarrow> JNum (dec_int (sint n)))"

definition field_valid :: "field \<Rightarrow> bool" where
  "field_valid f = (case f of FStr s \<Rightarrow> utf8_valid s | _ \<Rightarrow> True)"

definition mend_field :: "field \<Rightarrow> field" where
  "mend_field f = (case f of FStr s \<Rightarrow> FStr (mend s) | _ \<Rightarrow> f)"

lemma mend_field_valid: "field_valid f \<Longrightarrow> mend_field f = f"
  by (simp add: mend_field_def field_valid_def mend_valid split: field.splits)

lemma read_value_num:
  assumes "s \<noteq> []" "hd s = CHR ''-'' \<or> is_digit (hd s)"
  shows "read_value d (s @ r) = map_option (map_prod JNum id) (read_num (s @ r))"
proof -
  obtain c s' where s: "s = c # s'" using assms(1) by (cases s) auto
  then have "c = CHR ''-'' \<or> is_digit c" using assms(2) by simp
  moreover from this have "c \<noteq> CHR 0x22" "c \<noteq> CHR ''{''" "c \<noteq> CHR ''[''" by (auto simp: is_digit_def)
  ultimately show ?thesis
    using s skip_ws_digit [of c "s' @ r"] by (auto simp: read_value.simps [of d "c # s' @ r"])
qed

lemma read_field:
  assumes "after_value r"
  shows "read_value d (field_text f @ r) = Some (field_json (mend_field f), r)"
proof (cases f)
  case (FStr s)
  then show ?thesis
    by (simp add: field_text_def field_json_def mend_field_def quote_def read_value.simps read_str_mend)
next
  case (FBytes b)
  show ?thesis
  proof (cases "b = []")
    case True
    then show ?thesis
      using FBytes by (simp add: field_text_def field_json_def mend_field_def read_value.simps is_digit_def read_literal_def)
  next
    case False
    then show ?thesis
      using FBytes b64_encode_chars [of b]
      by (simp add: field_text_def field_json_def mend_field_def read_value.simps read_str_plain)
  qed
next
  case (FUint n)
  have "is_digit (hd (dec_nat (unat n)))" using dec_nat_digits dec_nat_ne hd_in_set by blast
  then show ?thesis
    using FUint read_value_num [OF dec_nat_ne] read_num_dec(1) [OF assms]
    by (simp add: field_text_def field_json_def mend_field_def)
next
  case (FInt n)
  have "dec_int (sint n) \<noteq> []" "hd (dec_int (sint n)) = CHR ''-'' \<or> is_digit (hd (dec_int (sint n)))"
    using dec_nat_digits dec_nat_ne hd_in_set by (auto simp: dec_int_def)
  then show ?thesis
    using FInt read_value_num read_num_dec(2) [OF assms] by (simp add: field_text_def field_json_def mend_field_def)
qed

definition named_json :: "string \<times> field \<Rightarrow> string \<times> json" where
  "named_json kf = (fst kf, field_json (snd kf))"

lemma named_json_pair [simp]: "named_json (k, f) = (k, field_json f)"
  by (simp add: named_json_def)

definition mended :: "struct \<Rightarrow> struct" where
  "mended fs = map (\<lambda>(k, f). (k, mend_field f)) fs"

lemma mended_simps [simp]: "mended [] = []" "mended ((k, f) # fs) = (k, mend_field f) # mended fs"
  by (simp_all add: mended_def)

lemma mended_valid: "\<forall>(k, f)\<in>set fs. utf8_valid k \<and> field_valid f \<Longrightarrow> mended fs = fs"
  by (induction fs) (auto simp: mend_field_valid)

lemma read_struct_members:
  assumes "fs \<noteq> []" "\<forall>k\<in>set (map fst fs). utf8_valid k"
  shows "read_members d (members_text fs @ CHR ''}'' # r) = Some (map named_json (mended fs), r)"
  using assms
proof (induction fs rule: members_text.induct)
  case (2 k f)
  then show ?case
    by (simp add: quote_def read_members.simps read_str_quote_body read_field after_value_def)
next
  case (3 k f f2 fs)
  obtain k2 g where f2: "f2 = (k2, g)" by (cases f2)
  have "read_members d (members_text (f2 # fs) @ CHR ''}'' # r) = Some (map named_json (mended (f2 # fs)), r)"
    using 3 by simp
  then show ?case
    using "3.prems" f2
    by (simp add: quote_def read_members.simps [of d "CHR 0x22 # _"] read_str_quote_body read_field after_value_def)
qed simp

lemma read_struct_mended:
  assumes "fs \<noteq> []" "\<forall>k\<in>set (map fst fs). utf8_valid k" "d \<noteq> 0"
  shows "read_value d (struct_text fs @ r) = Some (JObj (map named_json (mended fs)), r)"
proof -
  obtain c t where "members_text fs = c # t" "c = CHR 0x22"
    using assms(1) by (cases fs rule: members_text.cases) (auto simp: quote_def)
  then show ?thesis
    using read_struct_members [OF assms(1,2), of "d - 1" r] assms(3) by (simp add: struct_text_def read_value.simps)
qed

lemma read_struct_value:
  assumes "fs \<noteq> []" "\<forall>(k, f)\<in>set fs. utf8_valid k \<and> field_valid f" "d \<noteq> 0"
  shows "read_value d (struct_text fs @ r) = Some (JObj (map named_json fs), r)"
  using read_struct_mended [OF assms(1) _ assms(3), of r] mended_valid [OF assms(2)] assms(2) by fastforce

lemma read_struct:
  assumes "fs \<noteq> []" "\<forall>k\<in>set (map fst fs). utf8_valid k"
  shows "read_json (struct_text fs) = Some (JObj (map named_json (mended fs)))"
  using read_struct_mended [OF assms, of 10000 "[]"] by (simp add: read_json_def)

definition same_kind :: "field \<Rightarrow> field \<Rightarrow> bool" where
  "same_kind f g = (case (f, g) of (FStr _, FStr _) \<Rightarrow> True | (FBytes _, FBytes _) \<Rightarrow> True
     | (FUint _, FUint _) \<Rightarrow> True | (FInt _, FInt _) \<Rightarrow> True | _ \<Rightarrow> False)"

lemma store_field: "same_kind g f \<Longrightarrow> store g (field_json f) = (f, None)"
  by (auto simp: same_kind_def store_def field_json_def b64_decode_encode ParseUint_dec_nat ParseInt_dec_int
      split: field.splits)

lemma field_index_nth:
  assumes "distinct names" "i < length names"
  shows "field_index names (names ! i) = Some i"
proof -
  have "find (\<lambda>j. names ! j = names ! i) [0..<length names] = Some i"
    using assms by (auto simp: find_Some_iff nth_eq_iff_index_eq intro!: exI [of _ i])
  then show ?thesis by (simp add: field_index_def)
qed

lemma store_struct_members:
  assumes "distinct (map fst (xs @ fs))" "map fst zs = map fst fs" "list_all2 (\<lambda>z f. same_kind (snd z) (snd f)) zs fs"
  shows "store_members (map named_json fs) (xs @ zs) = (xs @ fs, None)"
  using assms
proof (induction fs arbitrary: xs zs)
  case (Cons f fs)
  then obtain z zs' where zs: "zs = z # zs'" by (cases zs) auto
  have z: "fst z = fst f" "same_kind (snd z) (snd f)" using Cons.prems zs by simp_all
  have "field_index (map fst (xs @ zs)) (fst f) = Some (length xs)"
    using field_index_nth [of "map fst (xs @ f # fs)" "length xs"] Cons.prems zs by (simp add: nth_append)
  moreover have "store_members (map named_json fs) ((xs @ [f]) @ zs') = ((xs @ [f]) @ fs, None)"
    using Cons.prems zs by (intro Cons.IH) simp_all
  ultimately show ?case
    using z zs store_field [OF z(2)] by (cases f, cases z) (simp add: Let_def first_error_def)
qed simp

text \<open>
  Reading what was written, into any struct of the same fields, gives the struct with its
  texts mended: for valid text, the struct.
\<close>

lemma unmarshal_mended:
  assumes "fs \<noteq> []" "\<forall>k\<in>set (map fst fs). utf8_valid k" "distinct (map fst fs)"
    and "map fst zs = map fst fs" "list_all2 (\<lambda>z f. same_kind (snd z) (snd f)) zs fs"
  shows "unmarshal (struct_text fs) zs = (mended fs, None)"
proof -
  have n: "map fst (mended fs) = map fst fs" by (induction fs) auto
  have "same_kind g (mend_field f) = same_kind g f" for g f
    by (simp add: same_kind_def mend_field_def split: field.splits)
  then have "list_all2 (\<lambda>z f. same_kind (snd z) (snd f)) zs (mended fs)"
    using assms(5) by (simp add: mended_def list_all2_map2 case_prod_beta)
  then show ?thesis
    using read_struct [OF assms(1,2)] store_struct_members [of "[]" "mended fs" zs] assms(3,4) n
    by (simp add: unmarshal_def)
qed

lemma unmarshal_struct_text:
  assumes "fs \<noteq> []" "\<forall>(k, f)\<in>set fs. utf8_valid k \<and> field_valid f" "distinct (map fst fs)"
    and "map fst zs = map fst fs" "list_all2 (\<lambda>z f. same_kind (snd z) (snd f)) zs fs"
  shows "unmarshal (struct_text fs) zs = (fs, None)"
  using unmarshal_mended [OF assms(1) _ assms(3-5)] mended_valid [OF assms(2)] assms(2) by fastforce

end
