(* ===== verification/Sha1.thy ===== *)
theory Sha1
  imports Json_Text
begin

text \<open>
  \<open>SHA1\<close> of \<open>lib/mp1/multicast/message.go\<close>: the digest of \<open>crypto/sha1\<close> (FIPS 180) in
  lower case hexadecimal. Messages draw part of their identity from it.
\<close>

unbundle bit_operations_syntax

type_synonym word32 = "32 word"
type_synonym sha1_state = "word32 \<times> word32 \<times> word32 \<times> word32 \<times> word32"

definition sha1_init :: sha1_state where
  "sha1_init = (0x67452301, 0xEFCDAB89, 0x98BADCFE, 0x10325476, 0xC3D2E1F0)"

text \<open>Big-endian bytes of a number, and the words of a text.\<close>

fun be_bytes :: "nat \<Rightarrow> nat \<Rightarrow> string" where
  "be_bytes 0 n = []"
| "be_bytes (Suc k) n = be_bytes k (n div 256) @ [char_of n]"

fun be_words :: "string \<Rightarrow> word32 list" where
  "be_words (a # b # c # d # r) =
     of_nat (((of_char a * 256 + of_char b) * 256 + of_char c) * 256 + of_char d) # be_words r"
| "be_words _ = []"

definition sha1_pad :: "string \<Rightarrow> string" where
  "sha1_pad s =
     s @ CHR 0x80 # replicate ((119 - length s mod 64) mod 64) (CHR 0x00) @ be_bytes 8 (8 * length s)"

fun schedule :: "nat \<Rightarrow> word32 list \<Rightarrow> word32 list" where
  "schedule 0 ws = ws"
| "schedule (Suc n) ws =
     (let l = length ws
      in schedule n (ws @ [word_rotl 1 (ws ! (l - 3) XOR ws ! (l - 8) XOR ws ! (l - 14) XOR ws ! (l - 16))]))"

definition sha1_f :: "nat \<Rightarrow> word32 \<Rightarrow> word32 \<Rightarrow> word32 \<Rightarrow> word32" where
  "sha1_f i b c d =
     (if i < 20 then (b AND c) OR (NOT b AND d)
      else if i < 40 then b XOR c XOR d
      else if i < 60 then (b AND c) OR (b AND d) OR (c AND d)
      else b XOR c XOR d)"

definition sha1_k :: "nat \<Rightarrow> word32" where
  "sha1_k i =
     (if i < 20 then 0x5A827999 else if i < 40 then 0x6ED9EBA1
      else if i < 60 then 0x8F1BBCDC else 0xCA62C1D6)"

definition sha1_round :: "nat \<times> word32 \<Rightarrow> sha1_state \<Rightarrow> sha1_state" where
  "sha1_round iw st =
     (case st of (a, b, c, d, e) \<Rightarrow>
        (word_rotl 5 a + sha1_f (fst iw) b c d + e + sha1_k (fst iw) + snd iw, a, word_rotl 30 b, c, d))"

definition sha1_block :: "word32 list \<Rightarrow> sha1_state \<Rightarrow> sha1_state" where
  "sha1_block ws st =
     (case fold sha1_round (zip [0..<80] (schedule 64 ws)) st of (a, b, c, d, e) \<Rightarrow>
        (case st of (a0, b0, c0, d0, e0) \<Rightarrow> (a0 + a, b0 + b, c0 + c, d0 + d, e0 + e)))"

fun sha1_blocks :: "nat \<Rightarrow> word32 list \<Rightarrow> sha1_state \<Rightarrow> sha1_state" where
  "sha1_blocks 0 ws st = st"
| "sha1_blocks (Suc n) ws st = sha1_blocks n (drop 16 ws) (sha1_block (take 16 ws) st)"

definition sha1_sum :: "string \<Rightarrow> sha1_state" where
  "sha1_sum s =
     (let p = sha1_pad s in sha1_blocks (length p div 64) (be_words p) sha1_init)"

fun hex_digits :: "nat \<Rightarrow> nat \<Rightarrow> string" where
  "hex_digits 0 n = []"
| "hex_digits (Suc k) n = hex_digits k (n div 16) @ [hex_digit (n mod 16)]"

definition SHA1 :: "string \<Rightarrow> string" where
  "SHA1 text =
     (case sha1_sum text of (a, b, c, d, e) \<Rightarrow> concat (map (\<lambda>w. hex_digits 8 (unat w)) [a, b, c, d, e]))"

section \<open>The shape of a digest\<close>

lemma length_hex_digits [simp]: "length (hex_digits k n) = k"
  by (induction k arbitrary: n) simp_all

lemma hex_digits_chars: "c \<in> set (hex_digits k n) \<Longrightarrow> hex_val c \<noteq> None \<and> of_char c < (128 :: nat)"
proof (induction k arbitrary: n)
  case (Suc k)
  have "n mod 16 < 16" by simp
  then have "of_char (hex_digit (n mod 16)) < (128 :: nat)"
    unfolding hex_digit_def by (cases "n mod 16 < 10") auto
  then show ?case using Suc hex_val_digit [of "n mod 16"] by auto
qed simp

lemma SHA1_shape: "length (SHA1 s) = 40" "c \<in> set (SHA1 s) \<Longrightarrow> hex_val c \<noteq> None \<and> of_char c < (128 :: nat)"
  using hex_digits_chars by (auto simp: SHA1_def split: prod.splits)

lemma SHA1_valid: "utf8_valid (SHA1 s)"
  using SHA1_shape(2) by (intro utf8_valid_ascii) blast

text \<open>The padded text is a whole number of blocks.\<close>

lemma length_be_bytes [simp]: "length (be_bytes k n) = k"
  by (induction k arbitrary: n) simp_all

lemma sha1_pad_blocks: "length (sha1_pad s) mod 64 = 0"
proof -
  define q r where "q = length s div 64" and "r = length s mod 64"
  have l: "length s = 64 * q + r" "r < 64" by (simp_all add: q_def r_def)
  have "length (sha1_pad s) = length s + ((119 - r) mod 64 + 9)" by (simp add: sha1_pad_def r_def)
  also have "\<dots> = (if r < 56 then 64 * (q + 1) else 64 * (q + 2))"
  proof (cases "r < 56")
    case True
    then have "119 - r = 64 + (55 - r)" by simp
    then have "(119 - r) mod 64 = 55 - r" by (simp only: mod_add_self1) simp
    then show ?thesis using l True by simp
  qed (use l in simp)
  finally show ?thesis by (cases "r < 56") (simp_all only: if_True if_False mod_mult_self1_is_0)
qed

end
