(* ===== verification/Json_Messages.thy ===== *)
theory Json_Messages
  imports Json Sha1 Messages
begin

text \<open>
  The \<open>Encode\<close> and \<open>Decode\<close> methods of the messages, over JSON: they make up the codec the
  program runs with, and it satisfies the laws the protocol needs for every valid UTF-8 text.
\<close>

section \<open>Structs and their zero values\<close>

definition str_at :: "struct \<Rightarrow> nat \<Rightarrow> string" where
  "str_at fs i = (case snd (fs ! i) of FStr s \<Rightarrow> s | _ \<Rightarrow> [])"

definition bytes_at :: "struct \<Rightarrow> nat \<Rightarrow> string" where
  "bytes_at fs i = (case snd (fs ! i) of FBytes b \<Rightarrow> b | _ \<Rightarrow> [])"

definition uint_at :: "struct \<Rightarrow> nat \<Rightarrow> uint64" where
  "uint_at fs i = (case snd (fs ! i) of FUint n \<Rightarrow> n | _ \<Rightarrow> 0)"

definition int_at :: "struct \<Rightarrow> nat \<Rightarrow> goint" where
  "int_at fs i = (case snd (fs ! i) of FInt n \<Rightarrow> n | _ \<Rightarrow> 0)"

lemma at_simps [simp]:
  "str_at ((k, FStr s) # fs) 0 = s" "bytes_at ((k, FBytes b) # fs) 0 = b"
  "uint_at ((k, FUint n) # fs) 0 = n" "int_at ((k, FInt m) # fs) 0 = m"
  "str_at (f # fs) (Suc i) = str_at fs i" "bytes_at (f # fs) (Suc i) = bytes_at fs i"
  "uint_at (f # fs) (Suc i) = uint_at fs i" "int_at (f # fs) (Suc i) = int_at fs i"
  by (simp_all add: str_at_def bytes_at_def uint_at_def int_at_def)

text \<open>Decoding into a new struct: the struct, or the error and nothing.\<close>

definition decode_new :: "(struct \<Rightarrow> 'a) \<Rightarrow> struct \<Rightarrow> string \<Rightarrow> go_error + 'a" where
  "decode_new f zero data =
     (case unmarshal data zero of (fs, None) \<Rightarrow> Inr (f fs) | (fs, Some e) \<Rightarrow> Inl e)"

section \<open>The methods\<close>

definition BMsg_struct :: "string BMsg \<Rightarrow> struct" where
  "BMsg_struct m = [(''src'', FStr (b_SrcID m)), (''path'', FStr (b_Path m)), (''body'', FBytes (b_Body m))]"

definition BMsg_of :: "struct \<Rightarrow> string BMsg" where
  "BMsg_of fs = \<lparr>b_SrcID = str_at fs 0, b_Path = str_at fs 1, b_Body = bytes_at fs 2\<rparr>"

definition zero_BMsg :: "string BMsg" where
  "zero_BMsg = \<lparr>b_SrcID = [], b_Path = [], b_Body = []\<rparr>"

definition BMsg_Encode :: "string BMsg \<Rightarrow> go_error + string" where
  "BMsg_Encode m = Inr (struct_text (BMsg_struct m))"

definition BMsg_Decode :: "string \<Rightarrow> string BMsg \<times> go_error option" where
  "BMsg_Decode data = (case unmarshal data (BMsg_struct zero_BMsg) of (fs, e) \<Rightarrow> (BMsg_of fs, e))"

definition RMsg_struct :: "string RMsg \<Rightarrow> struct" where
  "RMsg_struct m = [(''id'', FStr (r_ID m)), (''path'', FStr (r_Path m)), (''body'', FBytes (r_Body m))]"

definition RMsg_of :: "struct \<Rightarrow> string RMsg" where
  "RMsg_of fs = \<lparr>r_ID = str_at fs 0, r_Path = str_at fs 1, r_Body = bytes_at fs 2\<rparr>"

definition RMsg_Encode :: "string RMsg \<Rightarrow> go_error + string" where
  "RMsg_Encode m = Inr (struct_text (RMsg_struct m))"

definition RMsg_Decode :: "string \<Rightarrow> go_error + string RMsg" where
  "RMsg_Decode = decode_new RMsg_of (RMsg_struct \<lparr>r_ID = [], r_Path = [], r_Body = []\<rparr>)"

definition Ask_struct :: "string TOAskProposalSeqMsg \<Rightarrow> struct" where
  "Ask_struct m = [(''src'', FStr (a_SrcID m)), (''msg_id'', FStr (a_MsgID m)), (''body'', FBytes (a_Body m))]"

definition Ask_of :: "struct \<Rightarrow> string TOAskProposalSeqMsg" where
  "Ask_of fs = \<lparr>a_SrcID = str_at fs 0, a_MsgID = str_at fs 1, a_Body = bytes_at fs 2\<rparr>"

definition TOAskProposalSeqMsg_Encode :: "string TOAskProposalSeqMsg \<Rightarrow> go_error + string" where
  "TOAskProposalSeqMsg_Encode m = Inr (struct_text (Ask_struct m))"

definition TOAskProposalSeqMsg_Decode :: "string \<Rightarrow> go_error + string TOAskProposalSeqMsg" where
  "TOAskProposalSeqMsg_Decode = decode_new Ask_of (Ask_struct \<lparr>a_SrcID = [], a_MsgID = [], a_Body = []\<rparr>)"

definition Reply_struct :: "TOReplyProposalSeqMsg \<Rightarrow> struct" where
  "Reply_struct m =
     [(''pid'', FStr (p_ProcessID m)), (''msg_id'', FStr (p_MsgID m)), (''proposal_seq'', FUint (p_ProposalSeq m))]"

definition Reply_of :: "struct \<Rightarrow> TOReplyProposalSeqMsg" where
  "Reply_of fs = \<lparr>p_ProcessID = str_at fs 0, p_MsgID = str_at fs 1, p_ProposalSeq = uint_at fs 2\<rparr>"

definition TOReplyProposalSeqMsg_Encode :: "TOReplyProposalSeqMsg \<Rightarrow> go_error + string" where
  "TOReplyProposalSeqMsg_Encode m = Inr (struct_text (Reply_struct m))"

definition TOReplyProposalSeqMsg_Decode :: "string \<Rightarrow> go_error + TOReplyProposalSeqMsg" where
  "TOReplyProposalSeqMsg_Decode =
     decode_new Reply_of (Reply_struct \<lparr>p_ProcessID = [], p_MsgID = [], p_ProposalSeq = 0\<rparr>)"

definition Announce_struct :: "TOAnnounceAgreementSeqMsg \<Rightarrow> struct" where
  "Announce_struct m =
     [(''pid'', FStr (n_ProcessID m)), (''agreement_seq'', FUint (n_AgreementSeq m)), (''msg_id'', FStr (n_MsgID m))]"

definition Announce_of :: "struct \<Rightarrow> TOAnnounceAgreementSeqMsg" where
  "Announce_of fs = \<lparr>n_ProcessID = str_at fs 0, n_AgreementSeq = uint_at fs 1, n_MsgID = str_at fs 2\<rparr>"

definition TOAnnounceAgreementSeqMsg_Encode :: "TOAnnounceAgreementSeqMsg \<Rightarrow> go_error + string" where
  "TOAnnounceAgreementSeqMsg_Encode m = Inr (struct_text (Announce_struct m))"

definition TOAnnounceAgreementSeqMsg_Decode :: "string \<Rightarrow> go_error + TOAnnounceAgreementSeqMsg" where
  "TOAnnounceAgreementSeqMsg_Decode =
     decode_new Announce_of (Announce_struct \<lparr>n_ProcessID = [], n_AgreementSeq = 0, n_MsgID = []\<rparr>)"

definition TOMsg_struct :: "string TOMsg \<Rightarrow> struct" where
  "TOMsg_struct m = [(''path'', FStr (t_Path m)), (''body'', FBytes (t_Body m))]"

definition TOMsg_of :: "struct \<Rightarrow> string TOMsg" where
  "TOMsg_of fs = \<lparr>t_Path = str_at fs 0, t_Body = bytes_at fs 1\<rparr>"

definition TOMsg_Encode :: "string TOMsg \<Rightarrow> go_error + string" where
  "TOMsg_Encode m = Inr (struct_text (TOMsg_struct m))"

definition TOMsg_Decode :: "string \<Rightarrow> go_error + string TOMsg" where
  "TOMsg_Decode = decode_new TOMsg_of (TOMsg_struct \<lparr>t_Path = [], t_Body = []\<rparr>)"

text \<open>\<open>BMsgDecoder\<close> and \<open>RMsgDecoder\<close>: decoding into a new message.\<close>

definition BMsgDecoder :: "string \<Rightarrow> go_error + string BMsg" where
  "BMsgDecoder data = (case BMsg_Decode data of (m, None) \<Rightarrow> Inr m | (m, Some e) \<Rightarrow> Inl e)"

definition RMsgDecoder :: "string \<Rightarrow> go_error + string RMsg" where
  "RMsgDecoder data = RMsg_Decode data"

definition json_codec :: "string codec" where
  "json_codec =
     \<lparr>enc_BMsg = BMsg_Encode, dec_BMsg = BMsg_Decode, enc_RMsg = RMsg_Encode, dec_RMsg = RMsg_Decode,
      enc_Ask = TOAskProposalSeqMsg_Encode, dec_Ask = TOAskProposalSeqMsg_Decode,
      enc_Reply = TOReplyProposalSeqMsg_Encode, dec_Reply = TOReplyProposalSeqMsg_Decode,
      enc_Announce = TOAnnounceAgreementSeqMsg_Encode, dec_Announce = TOAnnounceAgreementSeqMsg_Decode,
      enc_TOMsg = TOMsg_Encode, dec_TOMsg = TOMsg_Decode, digest = SHA1\<rparr>"

section \<open>The laws of the codec\<close>

lemma ascii_names [simp]:
  "utf8_valid ''src''" "utf8_valid ''path''" "utf8_valid ''body''" "utf8_valid ''id''" "utf8_valid ''pid''"
  "utf8_valid ''msg_id''" "utf8_valid ''proposal_seq''" "utf8_valid ''agreement_seq''" "utf8_valid ''-''"
  by (rule utf8_valid_ascii, simp)+

lemma valid_paths:
  "utf8_valid RMulticastPath" "utf8_valid WaitProposalSeqPath" "utf8_valid AskProposalSeqPath"
  "utf8_valid AnnounceAgreementSeqPath"
  by (rule utf8_valid_ascii,
      simp add: RMulticastPath_def WaitProposalSeqPath_def AskProposalSeqPath_def AnnounceAgreementSeqPath_def)+

lemma BMsg_Decode_Encode:
  assumes "utf8_valid (b_SrcID m)" "utf8_valid (b_Path m)"
  shows "BMsg_Decode (struct_text (BMsg_struct m)) = (m, None)"
  using unmarshal_struct_text [of "BMsg_struct m" "BMsg_struct zero_BMsg"] assms
  by (simp add: BMsg_struct_def BMsg_Decode_def BMsg_of_def zero_BMsg_def field_valid_def same_kind_def eval_nat_numeral)

lemma RMsg_Decode_Encode:
  assumes "utf8_valid (r_ID m)" "utf8_valid (r_Path m)"
  shows "RMsg_Decode (struct_text (RMsg_struct m)) = Inr m"
  using unmarshal_struct_text [of "RMsg_struct m" "RMsg_struct \<lparr>r_ID = [], r_Path = [], r_Body = []\<rparr>"] assms
  by (simp add: RMsg_struct_def RMsg_Decode_def decode_new_def RMsg_of_def field_valid_def same_kind_def eval_nat_numeral)

lemma Ask_Decode_Encode:
  assumes "utf8_valid (a_SrcID m)" "utf8_valid (a_MsgID m)"
  shows "TOAskProposalSeqMsg_Decode (struct_text (Ask_struct m)) = Inr m"
  using unmarshal_struct_text [of "Ask_struct m" "Ask_struct \<lparr>a_SrcID = [], a_MsgID = [], a_Body = []\<rparr>"] assms
  by (simp add: Ask_struct_def TOAskProposalSeqMsg_Decode_def decode_new_def Ask_of_def field_valid_def same_kind_def eval_nat_numeral)

lemma Reply_Decode_Encode:
  assumes "utf8_valid (p_ProcessID m)" "utf8_valid (p_MsgID m)"
  shows "TOReplyProposalSeqMsg_Decode (struct_text (Reply_struct m)) = Inr m"
  using unmarshal_struct_text [of "Reply_struct m" "Reply_struct \<lparr>p_ProcessID = [], p_MsgID = [], p_ProposalSeq = 0\<rparr>"] assms
  by (simp add: Reply_struct_def TOReplyProposalSeqMsg_Decode_def decode_new_def Reply_of_def field_valid_def same_kind_def eval_nat_numeral)

lemma Announce_Decode_Encode:
  assumes "utf8_valid (n_ProcessID m)" "utf8_valid (n_MsgID m)"
  shows "TOAnnounceAgreementSeqMsg_Decode (struct_text (Announce_struct m)) = Inr m"
  using unmarshal_struct_text [of "Announce_struct m" "Announce_struct \<lparr>n_ProcessID = [], n_AgreementSeq = 0, n_MsgID = []\<rparr>"] assms
  by (simp add: Announce_struct_def TOAnnounceAgreementSeqMsg_Decode_def decode_new_def Announce_of_def field_valid_def same_kind_def eval_nat_numeral)

lemma TOMsg_Decode_mended:
  "TOMsg_Decode (struct_text (TOMsg_struct m)) = Inr (m\<lparr>t_Path := mend (t_Path m)\<rparr>)"
  using unmarshal_mended [of "TOMsg_struct m" "TOMsg_struct \<lparr>t_Path = [], t_Body = []\<rparr>"]
  by (simp add: TOMsg_struct_def TOMsg_Decode_def decode_new_def TOMsg_of_def same_kind_def mend_field_def eval_nat_numeral)

interpretation json: message_codec json_codec utf8_valid
  by unfold_locales
     (simp_all add: json_codec_def BMsg_Encode_def RMsg_Encode_def TOAskProposalSeqMsg_Encode_def
       TOReplyProposalSeqMsg_Encode_def TOAnnounceAgreementSeqMsg_Encode_def TOMsg_Encode_def
       BMsg_Decode_Encode RMsg_Decode_Encode Ask_Decode_Encode Reply_Decode_Encode Announce_Decode_Encode
       TOMsg_Decode_mended mend_valid utf8_valid_append SHA1_valid valid_paths)

section \<open>Properties\<close>

text \<open>
  C25. Every message of the protocol survives the wire: what \<open>Encode\<close> writes, \<open>Decode\<close> reads
  back as the same message, without error, for texts in valid UTF-8, any bodies and any
  sequence numbers.
\<close>

theorem messages_survive_the_wire:
  "(\<forall>m. utf8_valid (b_SrcID m) \<longrightarrow> utf8_valid (b_Path m) \<longrightarrow> (\<exists>d. BMsg_Encode m = Inr d \<and> BMsg_Decode d = (m, None)))
   \<and> (\<forall>m. utf8_valid (r_ID m) \<longrightarrow> utf8_valid (r_Path m) \<longrightarrow> (\<exists>d. RMsg_Encode m = Inr d \<and> RMsg_Decode d = Inr m))
   \<and> (\<forall>m. utf8_valid (a_SrcID m) \<longrightarrow> utf8_valid (a_MsgID m) \<longrightarrow>
        (\<exists>d. TOAskProposalSeqMsg_Encode m = Inr d \<and> TOAskProposalSeqMsg_Decode d = Inr m))
   \<and> (\<forall>m. utf8_valid (p_ProcessID m) \<longrightarrow> utf8_valid (p_MsgID m) \<longrightarrow>
        (\<exists>d. TOReplyProposalSeqMsg_Encode m = Inr d \<and> TOReplyProposalSeqMsg_Decode d = Inr m))
   \<and> (\<forall>m. utf8_valid (n_ProcessID m) \<longrightarrow> utf8_valid (n_MsgID m) \<longrightarrow>
        (\<exists>d. TOAnnounceAgreementSeqMsg_Encode m = Inr d \<and> TOAnnounceAgreementSeqMsg_Decode d = Inr m))
   \<and> (\<forall>m. utf8_valid (t_Path m) \<longrightarrow> (\<exists>d. TOMsg_Encode m = Inr d \<and> TOMsg_Decode d = Inr m))"
  using json.BMsg_roundtrip json.RMsg_roundtrip json.Ask_roundtrip json.Reply_roundtrip json.Announce_roundtrip
    json.TOMsg_roundtrip
  by (simp add: json_codec_def)

theorem messages_survive_the_wire_witness:
  "\<exists>d. TOReplyProposalSeqMsg_Encode \<lparr>p_ProcessID = ''A'', p_MsgID = ''m<1>'', p_ProposalSeq = 18446744073709551615\<rparr> = Inr d
     \<and> TOReplyProposalSeqMsg_Decode d = Inr \<lparr>p_ProcessID = ''A'', p_MsgID = ''m<1>'', p_ProposalSeq = 18446744073709551615\<rparr>"
proof -
  have "utf8_valid ''A''" "utf8_valid ''m<1>''" by (rule utf8_valid_ascii, simp)+
  then show ?thesis using messages_survive_the_wire by simp
qed

end
