(* ===== verification/Transaction.thy ===== *)
theory Transaction
  imports Prelude
begin

text \<open>
  The bank (\<open>lib/mp1/transaction/transaction.go\<close>): accounts with balances of type \<open>int\<close>,
  deposits and transfers. The lock makes each operation atomic; an operation is a function
  on the table of balances that returns the new table and the error.
\<close>

record transaction =
  balances :: "string \<Rightarrow> goint option"

definition NewTransaction :: transaction where
  "NewTransaction = \<lparr>balances = Map.empty\<rparr>"

definition amount_error :: go_error where
  "amount_error = Errorf ''amount should be a integer greater or equal to zero''"

definition Deposit :: "string \<Rightarrow> goint \<Rightarrow> transaction \<Rightarrow> transaction \<times> go_error option" where
  "Deposit account amount t =
     (if sint amount < 0 then (t, Some amount_error)
      else case balances t account of
             None \<Rightarrow> (t\<lparr>balances := (balances t)(account \<mapsto> amount)\<rparr>, None)
           | Some prevAmount \<Rightarrow> (t\<lparr>balances := (balances t)(account \<mapsto> prevAmount + amount)\<rparr>, None))"

definition no_account_error :: "string \<Rightarrow> go_error" where
  "no_account_error a = Errorf (''transfer failed, src account ['' @ a @ ''] not exists'')"

definition no_funds_error :: "string \<Rightarrow> goint \<Rightarrow> goint \<Rightarrow> go_error" where
  "no_funds_error a prev amount =
     Errorf (''transfer failed, src account ['' @ a @ ''] don't has enough funds, curr amount ['' @
       dec_int (sint prev) @ ''], current amount ['' @ dec_int (sint amount) @ '']'')"

text \<open>
  Both balances are read before either is written. A missing key reads as 0, and is told
  from a present one by the second result of the map access.
\<close>

definition Transfer ::
  "string \<Rightarrow> string \<Rightarrow> goint \<Rightarrow> transaction \<Rightarrow> transaction \<times> go_error option" where
  "Transfer fromAccount toAccount amount t =
     (if sint amount < 0 then (t, Some amount_error)
      else case balances t fromAccount of
        None \<Rightarrow> (t, Some (no_account_error fromAccount))
      | Some prevFrom \<Rightarrow>
          (let prevTo = balances t toAccount in
           if sint (prevFrom - amount) < 0 then (t, Some (no_funds_error fromAccount prevFrom amount))
           else
             let t1 = t\<lparr>balances := (balances t)(fromAccount \<mapsto> prevFrom - amount)\<rparr> in
             case prevTo of
               None \<Rightarrow> (t1\<lparr>balances := (balances t1)(toAccount \<mapsto> amount)\<rparr>, None)
             | Some prev \<Rightarrow> (t1\<lparr>balances := (balances t1)(toAccount \<mapsto> prev + amount)\<rparr>, None)))"

text \<open>\<open>BalancesSnapshot\<close> copies the map under the lock, key by key in the order \<open>ks\<close>.\<close>

fun snapshot_loop :: "string list \<Rightarrow> (string \<Rightarrow> goint option) \<Rightarrow> (string \<Rightarrow> goint option) \<Rightarrow> (string \<Rightarrow> goint option)" where
  "snapshot_loop [] m acc = acc"
| "snapshot_loop (k # ks) m acc =
     snapshot_loop ks m (case m k of None \<Rightarrow> acc | Some v \<Rightarrow> acc(k \<mapsto> v))"

definition BalancesSnapshot :: "string list \<Rightarrow> transaction \<Rightarrow> (string \<Rightarrow> goint option)" where
  "BalancesSnapshot ks t = snapshot_loop ks (balances t) Map.empty"

definition account_text :: "(string \<Rightarrow> goint option) \<Rightarrow> string \<Rightarrow> string" where
  "account_text m a = '' '' @ a @ '':'' @ dec_int (sint (case m a of None \<Rightarrow> 0 | Some v \<Rightarrow> v))"

text \<open>
  The two renderings: in the order of iteration \<open>ks'\<close> over the snapshot, and sorted.
\<close>

definition BalancesSnapshotStdString :: "string list \<Rightarrow> string list \<Rightarrow> transaction \<Rightarrow> string" where
  "BalancesSnapshotStdString ks ks' t =
     ''BALANCES'' @ concat (map (account_text (BalancesSnapshot ks t)) ks')"

definition BalancesSnapshotStdSortedString :: "string list \<Rightarrow> string list \<Rightarrow> transaction \<Rightarrow> string" where
  "BalancesSnapshotStdSortedString ks ks' t =
     ''BALANCES'' @ concat (map (account_text (BalancesSnapshot ks t)) (sort ks'))"

section \<open>Balances and their total\<close>

definition bal :: "transaction \<Rightarrow> string \<Rightarrow> int" where
  "bal t a = (case balances t a of None \<Rightarrow> 0 | Some v \<Rightarrow> sint v)"

definition funds :: "transaction \<Rightarrow> int" where
  "funds t = (\<Sum>a\<in>dom (balances t). bal t a)"

text \<open>
  Solvent: finitely many accounts, none below zero, and all the money fits an \<open>int\<close>.
\<close>

definition solvent :: "transaction \<Rightarrow> bool" where
  "solvent t \<longleftrightarrow> finite (dom (balances t)) \<and> (\<forall>a. 0 \<le> bal t a) \<and> funds t \<le> goint_max"

lemma bal_update:
  "bal (t\<lparr>balances := (balances t)(a \<mapsto> v)\<rparr>) b = (if b = a then sint v else bal t b)"
  by (simp add: bal_def)

lemma funds_update:
  assumes "finite (dom (balances t))"
  shows "funds (t\<lparr>balances := (balances t)(a \<mapsto> v)\<rparr>) = funds t - bal t a + sint v"
proof -
  let ?D = "dom (balances t)" let ?t = "t\<lparr>balances := (balances t)(a \<mapsto> v)\<rparr>"
  have "funds ?t = sint v + (\<Sum>b\<in>?D - {a}. bal ?t b)"
    using assms by (simp add: funds_def sum.insert_remove bal_update)
  also have "(\<Sum>b\<in>?D - {a}. bal ?t b) = (\<Sum>b\<in>?D - {a}. bal t b)"
    by (rule sum.cong) (simp_all add: bal_update)
  also have "\<dots> = funds t - bal t a"
    using assms by (cases "a \<in> ?D") (auto simp: funds_def sum_diff1 bal_def domIff)
  finally show ?thesis by linarith
qed

lemma solvent_bal_le: "solvent t \<Longrightarrow> bal t a \<le> funds t"
proof (cases "a \<in> dom (balances t)")
  case True
  assume "solvent t"
  then show ?thesis
    using True unfolding funds_def by (intro member_le_sum) (auto simp: solvent_def)
next
  case False
  assume "solvent t"
  moreover have "bal t a = 0" using False by (simp add: bal_def domIff)
  ultimately show ?thesis unfolding funds_def by (auto simp: solvent_def intro: sum_nonneg)
qed

lemma solvent_two_le:
  assumes "solvent t" "a \<noteq> b"
  shows "bal t a + bal t b \<le> funds t"
proof -
  let ?t = "t\<lparr>balances := (balances t)(b \<mapsto> 0)\<rparr>"
  have fin: "finite (dom (balances t))" using assms(1) by (simp add: solvent_def)
  have tot: "funds ?t = funds t - bal t b" using funds_update [OF fin, of b 0] by simp
  moreover have "0 \<le> bal t x" for x using assms(1) by (simp add: solvent_def)
  ultimately have "0 \<le> bal t b" "funds ?t \<le> goint_max" "\<forall>x. 0 \<le> bal ?t x"
    using assms(1) by (auto simp: solvent_def bal_update intro: order_trans [of _ "funds t"])
  then have "solvent ?t" using fin by (simp add: solvent_def)
  from solvent_bal_le [OF this, of a] tot assms(2) show ?thesis by (simp add: bal_update)
qed

section \<open>The specification: a bank over unbounded integers\<close>

type_synonym ledger = "string \<Rightarrow> int option"

definition ledger_of :: "transaction \<Rightarrow> ledger" where
  "ledger_of t a = map_option sint (balances t a)"

definition ledger_add :: "string \<Rightarrow> int \<Rightarrow> ledger \<Rightarrow> ledger" where
  "ledger_add a n l = l(a \<mapsto> (case l a of None \<Rightarrow> 0 | Some v \<Rightarrow> v) + n)"

definition spec_deposit :: "string \<Rightarrow> int \<Rightarrow> ledger \<Rightarrow> ledger option" where
  "spec_deposit a n l = (if n < 0 then None else Some (ledger_add a n l))"

definition spec_transfer :: "string \<Rightarrow> string \<Rightarrow> int \<Rightarrow> ledger \<Rightarrow> ledger option" where
  "spec_transfer a b n l =
     (case l a of None \<Rightarrow> None
      | Some v \<Rightarrow> if n < 0 \<or> v < n then None else Some (ledger_add b n (ledger_add a (- n) l)))"

lemma ledger_of_update:
  "ledger_of (t\<lparr>balances := (balances t)(a \<mapsto> v)\<rparr>) = (ledger_of t)(a \<mapsto> sint v)"
  by (auto simp: ledger_of_def fun_eq_iff)

lemma ledger_of_bal: "(case ledger_of t a of None \<Rightarrow> 0 | Some v \<Rightarrow> v) = bal t a"
  by (auto simp: ledger_of_def bal_def split: option.splits)

lemma Deposit_cases:
  "Deposit a n t = (if sint n < 0 then (t, Some amount_error)
     else (t\<lparr>balances := (balances t)(a \<mapsto> (case balances t a of None \<Rightarrow> 0 | Some v \<Rightarrow> v) + n)\<rparr>, None))"
  by (auto simp: Deposit_def split: option.splits)

lemma Deposit_refines:
  assumes "solvent t" "funds t + sint n \<le> goint_max"
  shows "(case snd (Deposit a n t) of None \<Rightarrow> Some (ledger_of (fst (Deposit a n t))) | Some _ \<Rightarrow> None)
      = spec_deposit a (sint n) (ledger_of t)"
    and "solvent (fst (Deposit a n t))"
    and "snd (Deposit a n t) = None \<Longrightarrow> funds (fst (Deposit a n t)) = funds t + sint n"
proof -
  let ?v = "case balances t a of None \<Rightarrow> 0 | Some v \<Rightarrow> v"
  have fin: "finite (dom (balances t))" and pos: "\<And>x. 0 \<le> bal t x" and tm: "funds t \<le> goint_max"
    using assms(1) by (auto simp: solvent_def)
  have bv: "bal t a = sint ?v" by (simp add: bal_def split: option.splits)
  have add: "sint (?v + n) = bal t a + sint n" if "0 \<le> sint n"
    using sint_goint_add [of ?v n] that pos [of a] solvent_bal_le [OF assms(1), of a] assms(2) bv
    by (simp add: goint_min_def)
  show "(case snd (Deposit a n t) of None \<Rightarrow> Some (ledger_of (fst (Deposit a n t))) | Some _ \<Rightarrow> None)
      = spec_deposit a (sint n) (ledger_of t)"
    using add by (simp add: Deposit_cases spec_deposit_def ledger_of_update ledger_add_def ledger_of_bal not_less)
  have tot: "funds (t\<lparr>balances := (balances t)(a \<mapsto> ?v + n)\<rparr>) = funds t + sint n" if "0 \<le> sint n"
    using funds_update [OF fin, of a "?v + n"] add [OF that] by simp
  then show "snd (Deposit a n t) = None \<Longrightarrow> funds (fst (Deposit a n t)) = funds t + sint n"
    by (simp add: Deposit_cases split: if_splits)
  show "solvent (fst (Deposit a n t))"
    using assms fin pos tm tot add
    by (auto simp: Deposit_cases solvent_def bal_update not_less)
qed

text \<open>What a transfer writes when it succeeds, for any two accounts.\<close>

definition transfer_writes :: "string \<Rightarrow> string \<Rightarrow> goint \<Rightarrow> goint \<Rightarrow> transaction \<Rightarrow> transaction" where
  "transfer_writes a b n v t =
     t\<lparr>balances := (balances t)(a \<mapsto> v - n, b \<mapsto> (case balances t b of None \<Rightarrow> 0 | Some w \<Rightarrow> w) + n)\<rparr>"

lemma Transfer_cases:
  "Transfer a b n t =
     (if sint n < 0 then (t, Some amount_error)
      else case balances t a of
        None \<Rightarrow> (t, Some (no_account_error a))
      | Some v \<Rightarrow> if sint (v - n) < 0 then (t, Some (no_funds_error a v n))
                  else (transfer_writes a b n v t, None))"
  by (auto simp: Transfer_def transfer_writes_def Let_def split: option.splits)

lemma Transfer_error_unchanged: "snd (Transfer a b n t) = Some e \<Longrightarrow> fst (Transfer a b n t) = t"
  by (auto simp: Transfer_cases split: option.splits if_splits)

lemma sint_withdraw:
  assumes "0 \<le> sint v" "0 \<le> sint n"
  shows "sint (v - n :: goint) = sint v - sint n"
  using sint_goint_range [of v] sint_goint_range [of n] assms
  by (intro sint_goint_diff) (auto simp: goint_min_def goint_max_def)

lemma transfer_writes_bal:
  assumes "solvent t" "a \<noteq> b" "balances t a = Some v" "0 \<le> sint n" "sint n \<le> sint v"
  defines "t' \<equiv> transfer_writes a b n v t"
  shows "ledger_of t' = ledger_add b (sint n) (ledger_add a (- sint n) (ledger_of t))"
    and "solvent t'" and "funds t' = funds t"
proof -
  let ?w = "case balances t b of None \<Rightarrow> 0 | Some w \<Rightarrow> w"
  let ?t1 = "t\<lparr>balances := (balances t)(a \<mapsto> v - n)\<rparr>"
  have fin: "finite (dom (balances t))" and pos: "\<And>x. 0 \<le> bal t x" and tm: "funds t \<le> goint_max"
    using assms(1) by (auto simp: solvent_def)
  have va: "bal t a = sint v" using assms(3) by (simp add: bal_def)
  have wb: "bal t b = sint ?w" by (simp add: bal_def split: option.splits)
  have sub: "sint (v - n) = sint v - sint n"
    using sint_withdraw assms(4) pos [of a] va by simp
  have add: "sint (?w + n) = sint ?w + sint n"
    using sint_goint_add [of ?w n] wb pos [of b] solvent_two_le [OF assms(1,2)] va assms(4,5) tm
    by (simp add: goint_min_def)
  have t': "t' = ?t1\<lparr>balances := (balances ?t1)(b \<mapsto> ?w + n)\<rparr>"
    by (simp add: t'_def transfer_writes_def)
  have b1: "bal ?t1 b = sint ?w" using assms(2) wb bal_update [of t a "v - n" b] by simp
  have "finite (dom (balances ?t1))" using fin by simp
  then have "funds t' = funds ?t1 + sint n"
    unfolding t' using funds_update [of ?t1 b "?w + n"] b1 add by simp
  also have "funds ?t1 = funds t - sint n"
    using funds_update [OF fin, of a "v - n"] va sub by simp
  finally show f: "funds t' = funds t" by simp
  have "bal t' x = (if x = b then sint ?w + sint n else if x = a then sint v - sint n else bal t x)" for x
    unfolding t' bal_update using add sub by simp
  moreover have "0 \<le> sint ?w + sint n" using wb pos [of b] assms(4) by simp
  ultimately have "\<forall>x. 0 \<le> bal t' x" using pos assms(5) by simp
  then show "solvent t'"
    using f fin tm by (simp add: solvent_def t')
  show "ledger_of t' = ledger_add b (sint n) (ledger_add a (- sint n) (ledger_of t))"
    unfolding t' ledger_of_update ledger_add_def
    using assms(2,3) add sub wb by (auto simp: ledger_of_def fun_eq_iff bal_def split: option.splits)
qed

lemma Transfer_refines:
  assumes "solvent t" "a \<noteq> b"
  shows "(case snd (Transfer a b n t) of None \<Rightarrow> Some (ledger_of (fst (Transfer a b n t))) | Some _ \<Rightarrow> None)
      = spec_transfer a b (sint n) (ledger_of t)"
    and "solvent (fst (Transfer a b n t))"
    and "funds (fst (Transfer a b n t)) = funds t"
proof -
  have pos: "0 \<le> sint v" if "balances t a = Some v" for v
    using assms(1) that by (auto simp: solvent_def bal_def dest: spec [of _ a])
  have ok: "sint (v - n) < 0 \<longleftrightarrow> sint v < sint n" if "balances t a = Some v" "0 \<le> sint n" for v
    using sint_withdraw [OF pos [OF that(1)] that(2)] by simp
  note W = transfer_writes_bal [OF assms]
  show "(case snd (Transfer a b n t) of None \<Rightarrow> Some (ledger_of (fst (Transfer a b n t))) | Some _ \<Rightarrow> None)
      = spec_transfer a b (sint n) (ledger_of t)"
    using ok W(1) by (cases "balances t a")
      (auto simp: Transfer_cases spec_transfer_def not_less ledger_of_def [of t a])
  show "solvent (fst (Transfer a b n t))" "funds (fst (Transfer a b n t)) = funds t"
    using assms(1) ok W(2,3) by (auto simp: Transfer_cases not_less split: option.splits)
qed

text \<open>
  A transfer from an account to itself: the second write overwrites the first with the old
  balance plus the amount.
\<close>

lemma Transfer_self:
  assumes "balances t a = Some v" "0 \<le> sint n" "sint n \<le> sint v"
  shows "Transfer a a n t = (t\<lparr>balances := (balances t)(a \<mapsto> v + n)\<rparr>, None)"
  using assms sint_withdraw [of v n] by (simp add: Transfer_cases transfer_writes_def)

section \<open>Snapshots\<close>

lemma snapshot_loop_eq:
  "snapshot_loop ks m acc = (\<lambda>k. if k \<in> set ks \<and> m k \<noteq> None then m k else acc k)"
  by (induction ks arbitrary: acc) (auto simp: fun_eq_iff split: option.splits)

lemma BalancesSnapshot_eq: "set ks = dom (balances t) \<Longrightarrow> BalancesSnapshot ks t = balances t"
  by (auto simp: BalancesSnapshot_def snapshot_loop_eq fun_eq_iff domIff)

lemma sorted_string_order_independent:
  assumes "distinct ks'" "set ks' = dom (balances t)" "set ks = dom (balances t)"
  shows "BalancesSnapshotStdSortedString ks ks' t =
     ''BALANCES'' @ concat (map (account_text (balances t)) (sorted_list_of_set (dom (balances t))))"
proof -
  have "sort ks' = sorted_list_of_set (set ks')"
    using assms(1) by (simp add: sorted_list_of_set_sort_remdups distinct_remdups_id)
  then show ?thesis
    using assms(2,3) by (simp add: BalancesSnapshotStdSortedString_def BalancesSnapshot_eq)
qed

section \<open>Properties\<close>

definition sample_bank :: transaction where
  "sample_bank = \<lparr>balances = [''alice'' \<mapsto> 10, ''bob'' \<mapsto> 5]\<rparr>"

lemma sample_bank_solvent: "solvent sample_bank" "funds sample_bank = 15"
  by (auto simp: solvent_def funds_def bal_def sample_bank_def goint_max_def)

text \<open>
  C18. A deposit does what the ledger over unbounded integers does: it fails exactly when the
  amount is negative, otherwise adds the amount to the account (created when missing) and
  to the money in the bank, and keeps the bank solvent, as long as the total fits an \<open>int\<close>.
\<close>

theorem deposit_refines_ledger:
  assumes "solvent t" "funds t + sint n \<le> goint_max"
  shows "(case snd (Deposit a n t) of None \<Rightarrow> Some (ledger_of (fst (Deposit a n t))) | Some _ \<Rightarrow> None)
           = spec_deposit a (sint n) (ledger_of t)
       \<and> solvent (fst (Deposit a n t))
       \<and> funds (fst (Deposit a n t)) = funds t + (if snd (Deposit a n t) = None then sint n else 0)
       \<and> (snd (Deposit a n t) = None \<or> fst (Deposit a n t) = t)"
  using Deposit_refines [OF assms, of a] by (auto simp: Deposit_cases)

theorem deposit_refines_ledger_witness:
  "solvent (fst (Deposit ''carol'' 7 sample_bank)) \<and> funds (fst (Deposit ''carol'' 7 sample_bank)) = 22"
  using deposit_refines_ledger [of sample_bank 7 "''carol''"] sample_bank_solvent
  by (simp add: goint_max_def Deposit_cases)

text \<open>
  C19. A transfer between two different accounts does what the ledger does: it fails exactly
  when the source is missing, the amount is negative or larger than the balance, and then
  changes nothing; otherwise it moves the amount. The money in the bank stays the same and
  no balance becomes negative.
\<close>

theorem transfer_refines_ledger:
  assumes "solvent t" "a \<noteq> b"
  shows "(case snd (Transfer a b n t) of None \<Rightarrow> Some (ledger_of (fst (Transfer a b n t))) | Some _ \<Rightarrow> None)
           = spec_transfer a b (sint n) (ledger_of t)
       \<and> solvent (fst (Transfer a b n t))
       \<and> funds (fst (Transfer a b n t)) = funds t
       \<and> (snd (Transfer a b n t) = None \<or> fst (Transfer a b n t) = t)"
  using Transfer_refines [OF assms, of n] Transfer_error_unchanged [of a b n t]
  by (cases "snd (Transfer a b n t)") auto

theorem transfer_refines_ledger_witness:
  "solvent (fst (Transfer ''alice'' ''bob'' 4 sample_bank))
   \<and> snd (Transfer ''alice'' ''bob'' 4 sample_bank) = None
   \<and> bal (fst (Transfer ''alice'' ''bob'' 4 sample_bank)) ''bob'' = 9
   \<and> snd (Transfer ''alice'' ''bob'' 11 sample_bank) = Some (no_funds_error ''alice'' 10 11)"
  using transfer_refines_ledger [of sample_bank "''alice''" "''bob''" 4] sample_bank_solvent
  by (simp add: Transfer_cases transfer_writes_def sample_bank_def bal_def)

text \<open>
  C20. A transfer from an account to itself is accepted and creates money: the balance grows
  by the amount.
\<close>

theorem self_transfer_creates_money:
  assumes "balances t a = Some v" "0 \<le> sint n" "sint n \<le> sint v" "sint v + sint n \<le> goint_max"
  shows "snd (Transfer a a n t) = None
       \<and> bal (fst (Transfer a a n t)) a = bal t a + sint n
       \<and> (\<forall>b. b \<noteq> a \<longrightarrow> bal (fst (Transfer a a n t)) b = bal t b)"
  using Transfer_self [OF assms(1-3)] assms sint_goint_add [of v n] by (simp add: bal_def goint_min_def)

theorem self_transfer_creates_money_witness:
  "bal (fst (Transfer ''alice'' ''alice'' 10 sample_bank)) ''alice'' = 20"
  using self_transfer_creates_money [of sample_bank "''alice''" 10 10]
  by (simp add: sample_bank_def goint_max_def bal_def)

end
