(* ===== verification/Events.thy ===== *)
theory Events
  imports Json_Messages Router Transaction
begin

text \<open>
  The events of the bank (\<open>transaction/types.go\<close>, \<open>transaction/event_listener.go\<close>): a line
  of input is parsed into a deposit or a transfer, which is sent in JSON. The payload of a
  \<open>router.Msg\<close> is a value of type \<open>interface{}\<close>: here, one of the two structs.
\<close>

section \<open>Deposits and transfers\<close>

record deposit =
  d_Account :: string
  d_Amount :: goint

record transfer =
  x_FromAccount :: string
  x_ToAccount :: string
  x_Amount :: goint

datatype event = DepositOf deposit | TransferOf transfer

definition DepositEvent :: string where "DepositEvent = ''DEPOSIT''"
definition TransferEvent :: string where "TransferEvent = ''TRANSFER''"
definition DepositPath :: string where "DepositPath = ''/transaction/deposit''"
definition TransferPath :: string where "TransferPath = ''/transaction/transfer''"

definition deposit_struct :: "deposit \<Rightarrow> struct" where
  "deposit_struct d = [(''account'', FStr (d_Account d)), (''amount'', FInt (d_Amount d))]"

definition deposit_of :: "struct \<Rightarrow> deposit" where
  "deposit_of fs = \<lparr>d_Account = str_at fs 0, d_Amount = int_at fs 1\<rparr>"

definition Deposit_Encode :: "deposit \<Rightarrow> go_error + string" where
  "Deposit_Encode d = Inr (struct_text (deposit_struct d))"

text \<open>\<open>Decode\<close> into a new value; on an error it returns the value filled in part as well.\<close>

definition Deposit_Decode :: "string \<Rightarrow> deposit \<times> go_error option" where
  "Deposit_Decode data =
     (case unmarshal data (deposit_struct \<lparr>d_Account = [], d_Amount = 0\<rparr>) of (fs, e) \<Rightarrow> (deposit_of fs, e))"

definition transfer_struct :: "transfer \<Rightarrow> struct" where
  "transfer_struct x =
     [(''from_account'', FStr (x_FromAccount x)), (''to_account'', FStr (x_ToAccount x)), (''amount'', FInt (x_Amount x))]"

definition transfer_of :: "struct \<Rightarrow> transfer" where
  "transfer_of fs = \<lparr>x_FromAccount = str_at fs 0, x_ToAccount = str_at fs 1, x_Amount = int_at fs 2\<rparr>"

definition Transfer_Encode :: "transfer \<Rightarrow> go_error + string" where
  "Transfer_Encode x = Inr (struct_text (transfer_struct x))"

definition Transfer_Decode :: "string \<Rightarrow> transfer \<times> go_error option" where
  "Transfer_Decode data =
     (case unmarshal data (transfer_struct \<lparr>x_FromAccount = [], x_ToAccount = [], x_Amount = 0\<rparr>) of
        (fs, e) \<Rightarrow> (transfer_of fs, e))"

text \<open>\<open>json.Marshal\<close> of the payload, as \<open>NewTOMsg\<close> does it.\<close>

definition marshal_event :: "event \<Rightarrow> go_error + string" where
  "marshal_event v = (case v of DepositOf d \<Rightarrow> Deposit_Encode d | TransferOf x \<Rightarrow> Transfer_Encode x)"

section \<open>Parsing a line\<close>

definition EncodeTransactionsMsg :: "string \<Rightarrow> go_error + event router_Msg" where
  "EncodeTransactionsMsg msg =
     (let fields = Fields msg in
      if length fields = 0 then Inl (Errorf ''invalid event format, empty fields'')
      else if fields ! 0 = DepositEvent then
        (if length fields \<noteq> 3 then Inl (Errorf ''invalid deposit event format'')
         else case Atoi (fields ! 2) of
           Inl e \<Rightarrow> Inl e
         | Inr amount \<Rightarrow> Inr (NewMsg DepositPath (DepositOf \<lparr>d_Account = fields ! 1, d_Amount = amount\<rparr>)))
      else if fields ! 0 = TransferEvent then
        (if length fields \<noteq> 5 then Inl (Errorf ''invalid transfer event format'')
         else case Atoi (fields ! 4) of
           Inl e \<Rightarrow> Inl e
         | Inr amount \<Rightarrow>
             Inr (NewMsg TransferPath
               (TransferOf \<lparr>x_FromAccount = fields ! 1, x_ToAccount = fields ! 3, x_Amount = amount\<rparr>)))
      else Inl (Errorf ''unrecognized event type''))"

text \<open>
  The pipeline: the messages it puts on its channel, in order, before it closes it. Lines
  that do not parse are skipped. It reads standard input, whatever reader it is given.
\<close>

definition TransactionEventListenerPipeline :: "string \<Rightarrow> string \<Rightarrow> event router_Msg list" where
  "TransactionEventListenerPipeline reader stdin =
     concat (map (\<lambda>line. case EncodeTransactionsMsg line of Inl e \<Rightarrow> [] | Inr m \<Rightarrow> [m]) (fst (scan_lines stdin)))"

section \<open>What was written is read back\<close>

text \<open>The text of an event, as the generator of inputs writes it.\<close>

definition event_line :: "event \<Rightarrow> string" where
  "event_line v =
     (case v of
        DepositOf d \<Rightarrow> unwords [DepositEvent, d_Account d, dec_int (sint (d_Amount d))]
      | TransferOf x \<Rightarrow>
          unwords [TransferEvent, x_FromAccount x, ''->'', x_ToAccount x, dec_int (sint (x_Amount x))])"

definition event_msg :: "event \<Rightarrow> event router_Msg" where
  "event_msg v = NewMsg (case v of DepositOf d \<Rightarrow> DepositPath | TransferOf x \<Rightarrow> TransferPath) v"

definition event_words :: "event \<Rightarrow> bool" where
  "event_words v =
     (case v of DepositOf d \<Rightarrow> is_word (d_Account d) | TransferOf x \<Rightarrow> is_word (x_FromAccount x) \<and> is_word (x_ToAccount x))"

lemma is_word_marks: "is_word DepositEvent" "is_word TransferEvent" "is_word ''->''"
  by (simp_all add: is_word_def word_char_def ascii_space_def DepositEvent_def TransferEvent_def)

lemma EncodeTransactionsMsg_line: "event_words v \<Longrightarrow> EncodeTransactionsMsg (event_line v) = Inr (event_msg v)"
proof (cases v)
  case (DepositOf d)
  assume "event_words v"
  then have "Fields (event_line v) = [DepositEvent, d_Account d, dec_int (sint (d_Amount d))]"
    using DepositOf is_word_dec_int is_word_marks by (simp add: event_line_def event_words_def Fields_unwords)
  then show ?thesis
    using DepositOf by (cases d) (simp add: EncodeTransactionsMsg_def event_msg_def Atoi_dec_int eval_nat_numeral)
next
  case (TransferOf x)
  assume "event_words v"
  then have "Fields (event_line v) = [TransferEvent, x_FromAccount x, ''->'', x_ToAccount x, dec_int (sint (x_Amount x))]"
    using TransferOf is_word_dec_int is_word_marks by (simp add: event_line_def event_words_def Fields_unwords)
  then show ?thesis
    using TransferOf
    by (cases x) (simp add: EncodeTransactionsMsg_def event_msg_def Atoi_dec_int eval_nat_numeral DepositEvent_def TransferEvent_def)
qed

lemma ascii_event_names [simp]:
  "utf8_valid ''account''" "utf8_valid ''amount''" "utf8_valid ''from_account''" "utf8_valid ''to_account''"
  by (rule utf8_valid_ascii, simp)+

lemma Deposit_Decode_Encode:
  "utf8_valid (d_Account d) \<Longrightarrow> Deposit_Decode (struct_text (deposit_struct d)) = (d, None)"
  using unmarshal_struct_text [of "deposit_struct d" "deposit_struct \<lparr>d_Account = [], d_Amount = 0\<rparr>"]
  by (simp add: deposit_struct_def Deposit_Decode_def deposit_of_def field_valid_def same_kind_def)

lemma Transfer_Decode_Encode:
  "utf8_valid (x_FromAccount x) \<Longrightarrow> utf8_valid (x_ToAccount x) \<Longrightarrow>
     Transfer_Decode (struct_text (transfer_struct x)) = (x, None)"
  using unmarshal_struct_text [of "transfer_struct x" "transfer_struct \<lparr>x_FromAccount = [], x_ToAccount = [], x_Amount = 0\<rparr>"]
  by (simp add: transfer_struct_def Transfer_Decode_def transfer_of_def field_valid_def same_kind_def eval_nat_numeral)

lemma utf8_valid_word: "is_word w \<Longrightarrow> utf8_valid w"
  by (intro utf8_valid_ascii) (auto simp: is_word_def word_char_def)

text \<open>Errors: what is refused.\<close>

lemma EncodeTransactionsMsg_ok:
  "EncodeTransactionsMsg msg = Inr m \<longleftrightarrow>
     (\<exists>a t n. Fields msg = [DepositEvent, a, t] \<and> Atoi t = Inr n
        \<and> m = NewMsg DepositPath (DepositOf \<lparr>d_Account = a, d_Amount = n\<rparr>))
     \<or> (\<exists>a x b t n. Fields msg = [TransferEvent, a, x, b, t] \<and> Atoi t = Inr n
        \<and> m = NewMsg TransferPath (TransferOf \<lparr>x_FromAccount = a, x_ToAccount = b, x_Amount = n\<rparr>))"
proof -
  have d: "TransferEvent \<noteq> DepositEvent" by (simp add: DepositEvent_def TransferEvent_def)
  have l3: "length fs = 3 \<longleftrightarrow> (\<exists>a b c. fs = [a, b, c])" for fs :: "string list"
    by (auto simp: eval_nat_numeral length_Suc_conv)
  have l5: "length fs = 5 \<longleftrightarrow> (\<exists>a b c d e. fs = [a, b, c, d, e])" for fs :: "string list"
    by (auto simp: eval_nat_numeral length_Suc_conv)
  define fs where "fs = Fields msg"
  consider "fs = []" | "fs \<noteq> []" "fs ! 0 = DepositEvent" | "fs \<noteq> []" "fs ! 0 = TransferEvent"
    | "fs \<noteq> []" "fs ! 0 \<noteq> DepositEvent" "fs ! 0 \<noteq> TransferEvent" by blast
  then show ?thesis
  proof cases
    case 2
    then show ?thesis
      using d by (cases "length fs = 3")
        (auto simp: EncodeTransactionsMsg_def fs_def [symmetric] l3 Let_def split: sum.splits)
  next
    case 3
    then show ?thesis
      using d by (cases "length fs = 5")
        (auto simp: EncodeTransactionsMsg_def fs_def [symmetric] l5 Let_def split: sum.splits)
  qed (auto simp: EncodeTransactionsMsg_def fs_def [symmetric] Let_def)
qed

section \<open>Properties\<close>

text \<open>
  C24. A line that was printed for an event is parsed into that event, for accounts that are
  words and every amount an \<open>int\<close> can hold; and the struct sent for it is read back equal.
\<close>

theorem event_line_roundtrip:
  assumes "event_words v"
  shows "EncodeTransactionsMsg (event_line v) = Inr (event_msg v)
       \<and> (\<exists>b. marshal_event v = Inr b
            \<and> (case v of DepositOf d \<Rightarrow> Deposit_Decode b = (d, None) | TransferOf x \<Rightarrow> Transfer_Decode b = (x, None)))"
  using EncodeTransactionsMsg_line [OF assms] assms Deposit_Decode_Encode Transfer_Decode_Encode utf8_valid_word
  by (auto simp: marshal_event_def Deposit_Encode_def Transfer_Encode_def event_words_def split: event.splits)

definition sample_transfer :: transfer where
  "sample_transfer = \<lparr>x_FromAccount = ''alice'', x_ToAccount = ''bob'', x_Amount = 12\<rparr>"

theorem event_line_roundtrip_witness:
  "EncodeTransactionsMsg (''TRANSFER alice -> bob '' @ dec_int 12 @ '' '') = Inr (NewMsg TransferPath (TransferOf sample_transfer))"
  using event_line_roundtrip [of "TransferOf sample_transfer"]
  by (simp add: event_words_def is_word_def word_char_def ascii_space_def event_line_def unwords_def event_msg_def
      sample_transfer_def TransferEvent_def)

text \<open>
  A line is accepted exactly when its fields are a deposit's (the keyword, the account, a
  number) or a transfer's (the keyword, an account, any field, an account, a number); every
  other line is refused with an error. The field between the two accounts is not looked at.
\<close>

theorem event_line_accepted:
  "(\<exists>m. EncodeTransactionsMsg msg = Inr m) \<longleftrightarrow>
     (\<exists>a t n. Fields msg = [DepositEvent, a, t] \<and> Atoi t = Inr n)
   \<or> (\<exists>a x b t n. Fields msg = [TransferEvent, a, x, b, t] \<and> Atoi t = Inr n)"
  unfolding EncodeTransactionsMsg_ok by blast

end
