(* ===== verification/Processor.thy ===== *)
theory Processor
  imports Events Total_Ording
begin

text \<open>
  The processor of delivered messages (\<open>transaction/processor.go\<close>): it decodes a deposit or
  a transfer, prints it, applies it to the bank and, for a deposit, prints the balances (for a
  transfer they are logged only). Its state is the bank. \<open>orders\<close> gives the orders of
  iteration over the maps of balances, which may depend on the bank; Go picks them at will.
\<close>

datatype bank_handler = ProcessDeposit | ProcessTransfer

definition NewProcessor :: transaction where
  "NewProcessor = NewTransaction"

definition RegisteTransactionHandler :: "('b, bank_handler) totalording \<Rightarrow> ('b, bank_handler) totalording" where
  "RegisteTransactionHandler d = TO_Bind TransferPath ProcessTransfer (TO_Bind DepositPath ProcessDeposit d)"

type_synonym orders = "transaction \<Rightarrow> string list \<times> string list"

definition snapshot_line :: "orders \<Rightarrow> transaction \<Rightarrow> string" where
  "snapshot_line orders t =
     BalancesSnapshotStdSortedString (fst (orders t)) (snd (orders t)) t @ [newline]"

definition deposit_line :: "deposit \<Rightarrow> string" where
  "deposit_line d = ''DEPOSIT '' @ d_Account d @ '' '' @ dec_int (sint (d_Amount d)) @ [newline]"

definition transfer_line :: "transfer \<Rightarrow> string" where
  "transfer_line x =
     ''TRANSFER '' @ x_FromAccount x @ '' '' @ x_ToAccount x @ '' '' @ dec_int (sint (x_Amount x)) @ [newline]"

definition processDeposit ::
  "orders \<Rightarrow> string TOMsg \<Rightarrow> transaction \<Rightarrow> (transaction, string effect) call" where
  "processDeposit orders msg t =
     (case Deposit_Decode (t_Body msg) of
        (d, Some e) \<Rightarrow> Some (t, [], Some (Wrap e ''process deposit failed''))
      | (d, None) \<Rightarrow>
          (case Deposit (d_Account d) (d_Amount d) t of
             (t1, Some e) \<Rightarrow> Some (t1, [Print (deposit_line d)], Some (Wrap e ''process deposit failed''))
           | (t1, None) \<Rightarrow> Some (t1, [Print (deposit_line d), Print (snapshot_line orders t1)], None)))"

definition processTransfer ::
  "orders \<Rightarrow> string TOMsg \<Rightarrow> transaction \<Rightarrow> (transaction, string effect) call" where
  "processTransfer orders msg t =
     (case Transfer_Decode (t_Body msg) of
        (x, Some e) \<Rightarrow> Some (t, [], Some (Wrap e ''process transfer failed''))
      | (x, None) \<Rightarrow>
          (case Transfer (x_FromAccount x) (x_ToAccount x) (x_Amount x) t of
             (t1, Some e) \<Rightarrow> Some (t1, [Print (transfer_line x)], Some (Wrap e ''process transfer failed''))
           | (t1, None) \<Rightarrow> Some (t1, [Print (transfer_line x)], None)))"

definition bank_exec ::
  "orders \<Rightarrow> bank_handler \<Rightarrow> string TOMsg \<Rightarrow> transaction \<Rightarrow> (transaction, string effect) call" where
  "bank_exec orders f msg t =
     (case f of ProcessDeposit \<Rightarrow> processDeposit orders msg t | ProcessTransfer \<Rightarrow> processTransfer orders msg t)"

definition bank_router :: "bank_handler router" where
  "bank_router = t_router (RegisteTransactionHandler (NewTotalOrder :: (string, bank_handler) totalording))"

lemma bank_router_eq: "bank_router = [DepositPath \<mapsto> ProcessDeposit, TransferPath \<mapsto> ProcessTransfer]"
  by (simp add: bank_router_def RegisteTransactionHandler_def TO_Bind_def Bind_def NewTotalOrder_def New_router_def
      DepositPath_def TransferPath_def fun_upd_twist)

lemma bank_paths [simp]: "DepositPath \<noteq> TransferPath" "TransferPath \<noteq> DepositPath"
  by (simp_all add: DepositPath_def TransferPath_def)

section \<open>What a message does to the bank\<close>

text \<open>The event a message carries, when it carries one.\<close>

definition event_of :: "string TOMsg \<Rightarrow> event option" where
  "event_of m =
     (if t_Path m = DepositPath
      then (case Deposit_Decode (t_Body m) of (d, None) \<Rightarrow> Some (DepositOf d) | (d, Some e) \<Rightarrow> None)
      else if t_Path m = TransferPath
      then (case Transfer_Decode (t_Body m) of (x, None) \<Rightarrow> Some (TransferOf x) | (x, Some e) \<Rightarrow> None)
      else None)"

definition apply_event :: "event \<Rightarrow> transaction \<Rightarrow> transaction" where
  "apply_event v t =
     (case v of DepositOf d \<Rightarrow> fst (Deposit (d_Account d) (d_Amount d) t)
      | TransferOf x \<Rightarrow> fst (Transfer (x_FromAccount x) (x_ToAccount x) (x_Amount x) t))"

lemma bank_Run:
  "\<exists>es err. Run (bank_exec orders) bank_router (t_Path m) m t =
     Some (case event_of m of None \<Rightarrow> t | Some v \<Rightarrow> apply_event v t, es, err) \<and> (\<forall>e\<in>set es. \<exists>x. e = Print x)"
proof -
  consider "t_Path m = DepositPath" | "t_Path m = TransferPath" | "t_Path m \<noteq> DepositPath" "t_Path m \<noteq> TransferPath"
    by blast
  then show ?thesis
  proof cases
    case 1
    obtain d e where D: "Deposit_Decode (t_Body m) = (d, e)" by fastforce
    obtain t1 e1 where T: "Deposit (d_Account d) (d_Amount d) t = (t1, e1)" by fastforce
    show ?thesis
      using 1 D T by (cases e; cases e1)
        (auto simp: Run_def bank_router_eq bank_exec_def processDeposit_def event_of_def apply_event_def)
  next
    case 2
    obtain x e where D: "Transfer_Decode (t_Body m) = (x, e)" by fastforce
    obtain t1 e1 where T: "Transfer (x_FromAccount x) (x_ToAccount x) (x_Amount x) t = (t1, e1)" by fastforce
    show ?thesis
      using 2 D T by (cases e; cases e1)
        (auto simp: Run_def bank_router_eq bank_exec_def processTransfer_def event_of_def apply_event_def)
  next
    case 3
    then show ?thesis by (auto simp: Run_def bank_router_eq event_of_def)
  qed
qed

text \<open>An event that was encoded is the event the processor acts on.\<close>

definition event_valid :: "event \<Rightarrow> bool" where
  "event_valid v =
     (case v of DepositOf d \<Rightarrow> utf8_valid (d_Account d)
      | TransferOf x \<Rightarrow> utf8_valid (x_FromAccount x) \<and> utf8_valid (x_ToAccount x))"

lemma event_of_marshal:
  assumes "event_valid v"
  shows "\<exists>b. marshal_event v = Inr b \<and> event_of \<lparr>t_Path = m_Path (event_msg v), t_Body = b\<rparr> = Some v"
  using assms Deposit_Decode_Encode Transfer_Decode_Encode
  by (cases v) (auto simp: event_valid_def marshal_event_def Deposit_Encode_def Transfer_Encode_def event_of_def
      event_msg_def NewMsg_def)

section \<open>The bank as a ledger\<close>

definition ledger_event :: "event \<Rightarrow> ledger \<Rightarrow> ledger" where
  "ledger_event v l =
     (case (case v of DepositOf d \<Rightarrow> spec_deposit (d_Account d) (sint (d_Amount d)) l
            | TransferOf x \<Rightarrow> spec_transfer (x_FromAccount x) (x_ToAccount x) (sint (x_Amount x)) l) of
        None \<Rightarrow> l | Some l' \<Rightarrow> l')"

text \<open>The money that comes in, and the events whose two accounts differ.\<close>

definition deposited :: "event \<Rightarrow> int" where
  "deposited v = (case v of DepositOf d \<Rightarrow> max 0 (sint (d_Amount d)) | TransferOf x \<Rightarrow> 0)"

definition two_accounts :: "event \<Rightarrow> bool" where
  "two_accounts v = (case v of DepositOf d \<Rightarrow> True | TransferOf x \<Rightarrow> x_FromAccount x \<noteq> x_ToAccount x)"

lemma apply_event_refines:
  assumes t: "solvent t" and f: "funds t + deposited v \<le> goint_max" and v: "two_accounts v"
  shows "ledger_of (apply_event v t) = ledger_event v (ledger_of t) \<and> solvent (apply_event v t)
       \<and> funds (apply_event v t) = funds t + deposited v"
proof (cases v)
  case (DepositOf d)
  show ?thesis
  proof (cases "sint (d_Amount d) < 0")
    case True
    then show ?thesis using t DepositOf
      by (simp add: apply_event_def ledger_event_def Deposit_cases spec_deposit_def deposited_def)
  next
    case False
    then have f': "funds t + sint (d_Amount d) \<le> goint_max" using f DepositOf by (simp add: deposited_def)
    show ?thesis
      using Deposit_refines [OF t f', of "d_Account d"] False DepositOf
      by (simp add: apply_event_def ledger_event_def deposited_def Deposit_cases spec_deposit_def)
  qed
next
  case (TransferOf x)
  then have ne: "x_FromAccount x \<noteq> x_ToAccount x" using v by (simp add: two_accounts_def)
  obtain t1 e where T: "Transfer (x_FromAccount x) (x_ToAccount x) (x_Amount x) t = (t1, e)" by fastforce
  show ?thesis
  proof (cases e)
    case None
    then show ?thesis
      using Transfer_refines [OF t ne, of "x_Amount x"] T TransferOf
      by (auto simp: apply_event_def ledger_event_def deposited_def split: option.splits)
  next
    case (Some y)
    then have "t1 = t" using Transfer_error_unchanged [of _ _ _ t] T by (metis fst_conv snd_conv)
    then show ?thesis
      using Transfer_refines [OF t ne, of "x_Amount x"] T TransferOf Some
      by (auto simp: apply_event_def ledger_event_def deposited_def split: option.splits)
  qed
qed

lemma apply_events_refines:
  assumes "solvent t" "funds t + (\<Sum>v\<leftarrow>vs. deposited v) \<le> goint_max" "\<forall>v\<in>set vs. two_accounts v"
  shows "ledger_of (fold apply_event vs t) = fold ledger_event vs (ledger_of t) \<and> solvent (fold apply_event vs t)
       \<and> funds (fold apply_event vs t) = funds t + (\<Sum>v\<leftarrow>vs. deposited v)"
  using assms
proof (induction vs arbitrary: t)
  case (Cons v vs)
  have d: "0 \<le> deposited u" for u by (simp add: deposited_def split: event.split)
  have s: "0 \<le> (\<Sum>v\<leftarrow>vs. deposited v)" by (rule sum_list_nonneg) (auto simp: d)
  have "funds t + deposited v \<le> goint_max" "two_accounts v" using Cons.prems s by simp_all
  from apply_event_refines [OF Cons.prems(1) this] Cons.IH [of "apply_event v t"] Cons.prems(2,3)
  show ?case by (simp add: add.assoc)
qed simp

lemma solvent_NewTransaction: "solvent NewTransaction" "funds NewTransaction = 0"
  by (simp_all add: NewTransaction_def solvent_def funds_def bal_def goint_max_def)

section \<open>Properties\<close>

text \<open>
  C22. Every event that was marshalled is the event the processor acts on when it is delivered:
  the bank changes as the event says, and a deposit that is accepted prints its line and the
  balances after it.
\<close>

theorem processor_applies_event:
  assumes "event_valid v"
  shows "\<exists>b es err. marshal_event v = Inr b
     \<and> Run (bank_exec orders) bank_router (m_Path (event_msg v)) \<lparr>t_Path = m_Path (event_msg v), t_Body = b\<rparr> t
        = Some (apply_event v t, es, err)
     \<and> (\<forall>d. v = DepositOf d \<longrightarrow> 0 \<le> sint (d_Amount d) \<longrightarrow>
          es = [Print (deposit_line d), Print (snapshot_line orders (apply_event v t))] \<and> err = None)"
proof -
  obtain b where b: "marshal_event v = Inr b" "event_of \<lparr>t_Path = m_Path (event_msg v), t_Body = b\<rparr> = Some v"
    using event_of_marshal [OF assms] by blast
  let ?m = "\<lparr>t_Path = m_Path (event_msg v), t_Body = b\<rparr>"
  obtain es err where r: "Run (bank_exec orders) bank_router (m_Path (event_msg v)) ?m t = Some (apply_event v t, es, err)"
    using bank_Run [of orders ?m t] b(2) by auto
  have "es = [Print (deposit_line d), Print (snapshot_line orders (apply_event v t))] \<and> err = None"
    if d: "v = DepositOf d" "0 \<le> sint (d_Amount d)" for d
  proof -
    have "Deposit_Decode b = (d, None)"
      using assms b(1) d Deposit_Decode_Encode [of d] by (auto simp: event_valid_def marshal_event_def Deposit_Encode_def)
    then show ?thesis
      using r d by (auto simp: event_msg_def NewMsg_def Run_def bank_router_eq bank_exec_def processDeposit_def
          apply_event_def Deposit_cases)
  qed
  then show ?thesis using b(1) r by blast
qed

definition sample_deposit :: deposit where
  "sample_deposit = \<lparr>d_Account = ''carol'', d_Amount = 7\<rparr>"

theorem processor_applies_event_witness:
  "\<exists>b. Run (bank_exec (\<lambda>t. ([''alice'', ''bob'', ''carol''], [''carol'', ''alice'', ''bob''])))
         bank_router DepositPath \<lparr>t_Path = DepositPath, t_Body = b\<rparr> sample_bank
     = Some (fst (Deposit ''carol'' 7 sample_bank),
         [Print (''DEPOSIT carol 7'' @ [newline]), Print (''BALANCES alice:10 bob:5 carol:7'' @ [newline])], None)"
proof -
  let ?o = "\<lambda>t. ([''alice'', ''bob'', ''carol''], [''carol'', ''alice'', ''bob''])"
  have "event_valid (DepositOf sample_deposit)"
    using utf8_valid_ascii [of "''carol''"] by (simp add: event_valid_def sample_deposit_def)
  from processor_applies_event [OF this, of ?o sample_bank]
  obtain b where "Run (bank_exec ?o) bank_router DepositPath \<lparr>t_Path = DepositPath, t_Body = b\<rparr> sample_bank
      = Some (apply_event (DepositOf sample_deposit) sample_bank,
          [Print (deposit_line sample_deposit), Print (snapshot_line ?o (apply_event (DepositOf sample_deposit) sample_bank))], None)"
    by (auto simp: event_msg_def NewMsg_def sample_deposit_def)
  moreover have "dec_int 7 = ''7''" "dec_int 10 = ''10''" "dec_int 5 = ''5''"
    by (simp_all add: dec_int_def dec_nat.simps digit_char_def char_of_eq_iff)
  ultimately show ?thesis
    by (intro exI [of _ b]) (simp add: apply_event_def sample_deposit_def deposit_line_def snapshot_line_def BalancesSnapshotStdSortedString_def
        BalancesSnapshot_def Deposit_cases sample_bank_def account_text_def)
qed

text \<open>
  C21. The bank implements a ledger over unbounded integers: for any sequence of events without
  transfers from an account to itself, and whose deposits together fit an \<open>int\<close>, the balances
  after all events are those of the ledger, no balance is negative and the money in the bank
  is the sum of the accepted deposits.
\<close>

theorem bank_refines_ledger:
  assumes "(\<Sum>v\<leftarrow>vs. deposited v) \<le> goint_max" "\<forall>v\<in>set vs. two_accounts v"
  shows "ledger_of (fold apply_event vs NewProcessor) = fold ledger_event vs Map.empty
       \<and> solvent (fold apply_event vs NewProcessor)
       \<and> funds (fold apply_event vs NewProcessor) = (\<Sum>v\<leftarrow>vs. deposited v)"
proof -
  have "ledger_of NewTransaction = Map.empty" by (simp add: ledger_of_def NewTransaction_def fun_eq_iff)
  then show ?thesis
    using apply_events_refines [of NewTransaction vs] solvent_NewTransaction assms by (simp add: NewProcessor_def)
qed

theorem bank_refines_ledger_witness:
  "bal (fold apply_event [DepositOf sample_deposit, TransferOf \<lparr>x_FromAccount = ''carol'', x_ToAccount = ''dan'', x_Amount = 9\<rparr>,
       TransferOf \<lparr>x_FromAccount = ''carol'', x_ToAccount = ''dan'', x_Amount = 3\<rparr>] NewProcessor) ''dan'' = 3"
proof -
  let ?vs = "[DepositOf sample_deposit, TransferOf \<lparr>x_FromAccount = ''carol'', x_ToAccount = ''dan'', x_Amount = 9\<rparr>,
       TransferOf \<lparr>x_FromAccount = ''carol'', x_ToAccount = ''dan'', x_Amount = 3\<rparr>]"
  have l: "ledger_of (fold apply_event ?vs NewProcessor) = fold ledger_event ?vs Map.empty"
    using bank_refines_ledger [of ?vs] by (simp add: deposited_def two_accounts_def sample_deposit_def goint_max_def)
  have "fold ledger_event ?vs Map.empty ''dan'' = Some 3"
    by (simp add: ledger_event_def spec_deposit_def spec_transfer_def ledger_add_def sample_deposit_def)
  then show ?thesis using ledger_of_bal [of "fold apply_event ?vs NewProcessor" "''dan''"] unfolding l by simp
qed

end
