(* ===== verification/Bank_Cluster.thy ===== *)
theory Bank_Cluster
  imports Total_Order Processor
begin

text \<open>
  The bank on top of the group: every node applies the events of the messages it delivers.
  The bank meets what the layers below ask of the layer above, so a group of banks is a
  replicated state machine.
\<close>

section \<open>The processor as an upper layer\<close>

lemma bank_exec_prints: "only_prints (bank_exec orders)"
  by (auto simp: only_prints_def bank_exec_def processDeposit_def processTransfer_def
      split: bank_handler.splits prod.splits option.splits)

lemma bank_exec_returns: "always_returns (bank_exec orders)"
  by (auto simp: always_returns_def bank_exec_def processDeposit_def processTransfer_def
      split: bank_handler.splits prod.splits option.splits)

text \<open>Orders of iteration that list the keys of the maps, each once.\<close>

definition orders_ok :: "orders \<Rightarrow> bool" where
  "orders_ok orders \<longleftrightarrow>
     (\<forall>t. finite (dom (balances t)) \<longrightarrow>
        set (fst (orders t)) = dom (balances t) \<and> distinct (snd (orders t)) \<and> set (snd (orders t)) = dom (balances t))"

lemma snapshot_line_orders:
  "orders_ok o1 \<Longrightarrow> orders_ok o2 \<Longrightarrow> finite (dom (balances t)) \<Longrightarrow> snapshot_line o1 t = snapshot_line o2 t"
  using sorted_string_order_independent [of "snd (o1 t)" t "fst (o1 t)"]
    sorted_string_order_independent [of "snd (o2 t)" t "fst (o2 t)"]
  by (simp add: snapshot_line_def orders_ok_def)

lemma finite_Deposit: "finite (dom (balances t)) \<Longrightarrow> finite (dom (balances (fst (Deposit a n t))))"
  by (simp add: Deposit_cases)

lemma bank_exec_orders:
  assumes "orders_ok o1" "orders_ok o2" "finite (dom (balances t))"
  shows "bank_exec o1 f msg t = bank_exec o2 f msg t"
proof (cases f)
  case ProcessDeposit
  obtain d e where D: "Deposit_Decode (t_Body msg) = (d, e)" by fastforce
  obtain t1 e1 where T: "Deposit (d_Account d) (d_Amount d) t = (t1, e1)" by fastforce
  then have "finite (dom (balances t1))" using finite_Deposit [OF assms(3), of "d_Account d" "d_Amount d"] by simp
  then show ?thesis
    using snapshot_line_orders [OF assms(1,2)] D T ProcessDeposit
    by (cases e; cases e1) (simp_all add: bank_exec_def processDeposit_def)
next
  case ProcessTransfer
  then show ?thesis by (simp add: bank_exec_def processTransfer_def)
qed

section \<open>Replaying delivered messages\<close>

definition events :: "string codec \<Rightarrow> string list \<Rightarrow> event list" where
  "events cd xs =
     concat (map (\<lambda>x. case dec_TOMsg cd x of Inl e \<Rightarrow> []
                      | Inr m \<Rightarrow> (case event_of m of None \<Rightarrow> [] | Some v \<Rightarrow> [v])) xs)"

lemma bank_replay:
  "replay cd (bank_exec orders) bank_router xs t = Some (t', out) \<Longrightarrow> t' = fold apply_event (events cd xs) t"
proof (induction xs arbitrary: t out)
  case (Cons x xs)
  show ?case
  proof (cases "dec_TOMsg cd x")
    case (Inl e)
    then show ?thesis using Cons by (simp add: events_def)
  next
    case (Inr m)
    obtain es err where R: "Run (bank_exec orders) bank_router (t_Path m) m t =
        Some (case event_of m of None \<Rightarrow> t | Some v \<Rightarrow> apply_event v t, es, err)" using bank_Run by blast
    obtain out2 where "replay cd (bank_exec orders) bank_router xs
        (case event_of m of None \<Rightarrow> t | Some v \<Rightarrow> apply_event v t) = Some (t', out2)"
      using Cons.prems Inr R by (auto split: option.splits)
    from Cons.IH [OF this] Inr show ?thesis by (simp add: events_def split: option.split)
  qed
qed (simp add: events_def)

section \<open>The group of three of the configuration\<close>

lemma bank_cluster:
  "\<forall>p\<in>set ms. utf8_valid p \<Longrightarrow> cluster json_codec utf8_valid (bank_exec orders) (set ms)"
  using json.message_codec_axioms bank_exec_prints by (simp add: cluster_def cluster_axioms_def)

text \<open>The nodes of \<open>lib/mp1/config/3\<close>; every order of iteration is the sorted one.\<close>

definition sorted_orders :: orders where
  "sorted_orders t = (sorted_list_of_set (dom (balances t)), sorted_list_of_set (dom (balances t)))"

lemma sorted_orders_ok: "orders_ok sorted_orders"
  by (simp add: orders_ok_def sorted_orders_def)

definition config_nodes :: "string list" where
  "config_nodes = [''A'', ''B'', ''C'']"

interpretation banks: cluster json_codec utf8_valid "bank_exec sorted_orders" "set config_nodes" bank_router NewProcessor
  by (rule bank_cluster) (simp add: config_nodes_def utf8_valid_ascii)

section \<open>Properties\<close>

text \<open>
  C23. What a bank prints does not depend on the orders in which Go iterates over the map of
  balances: any two orders that list every account once give the same new state, output and
  error for every message.
\<close>

theorem bank_output_deterministic:
  assumes "orders_ok o1" "orders_ok o2" "finite (dom (balances t))"
  shows "bank_exec o1 f msg t = bank_exec o2 f msg t"
  using bank_exec_orders [OF assms] .

definition reversed_orders :: orders where
  "reversed_orders t = (rev (sorted_list_of_set (dom (balances t))), rev (sorted_list_of_set (dom (balances t))))"

theorem bank_output_deterministic_witness:
  "\<forall>f msg. bank_exec sorted_orders f msg sample_bank = bank_exec reversed_orders f msg sample_bank"
proof (intro allI)
  fix f :: bank_handler and msg :: "string TOMsg"
  have "orders_ok reversed_orders" by (simp add: orders_ok_def reversed_orders_def)
  moreover have "finite (dom (balances sample_bank))" by (simp add: sample_bank_def)
  ultimately show "bank_exec sorted_orders f msg sample_bank = bank_exec reversed_orders f msg sample_bank"
    by (rule bank_output_deterministic [OF sorted_orders_ok])
qed

end
