(* ===== verification/Sample_Bank.thy ===== *)
theory Sample_Bank
  imports Sample_Run Bank_Cluster
begin

text \<open>
  A run of two banks over JSON: one deposit is multicast, both nodes propose, the agreement is
  announced and both deliver it. The run is computed with the laws of the codec.
\<close>

lemma utf8_valid_Cons: "of_char c < (128 :: nat) \<Longrightarrow> utf8_valid (c # s) = utf8_valid s"
  by (simp add: utf8_valid.simps [of "c # s"] rune_len_ascii)

lemma uid_valid: "utf8_valid (uid (CHR ''1''))" "utf8_valid (uid (CHR ''2''))" "utf8_valid (uid (CHR ''3''))" "utf8_valid (uid (CHR ''4''))"
  by (rule utf8_valid_ascii, simp add: uid_def)+

lemma json_encodes:
  "enc_BMsg json_codec bm = Inr (struct_text (BMsg_struct bm))" "enc_RMsg json_codec rm = Inr (struct_text (RMsg_struct rm))"
  "enc_Ask json_codec a = Inr (struct_text (Ask_struct a))" "enc_Reply json_codec p = Inr (struct_text (Reply_struct p))"
  "enc_Announce json_codec n = Inr (struct_text (Announce_struct n))" "enc_TOMsg json_codec t = Inr (struct_text (TOMsg_struct t))"
  "digest json_codec = SHA1"
  by (simp_all add: json_codec_def BMsg_Encode_def RMsg_Encode_def TOAskProposalSeqMsg_Encode_def TOReplyProposalSeqMsg_Encode_def
      TOAnnounceAgreementSeqMsg_Encode_def TOMsg_Encode_def)

lemma json_decodes:
  "utf8_valid (b_SrcID bm) \<Longrightarrow> utf8_valid (b_Path bm) \<Longrightarrow> dec_BMsg json_codec (struct_text (BMsg_struct bm)) = (bm, None)"
  "utf8_valid (r_ID rm) \<Longrightarrow> utf8_valid (r_Path rm) \<Longrightarrow> dec_RMsg json_codec (struct_text (RMsg_struct rm)) = Inr rm"
  "utf8_valid (a_SrcID a) \<Longrightarrow> utf8_valid (a_MsgID a) \<Longrightarrow> dec_Ask json_codec (struct_text (Ask_struct a)) = Inr a"
  "utf8_valid (p_ProcessID p) \<Longrightarrow> utf8_valid (p_MsgID p) \<Longrightarrow> dec_Reply json_codec (struct_text (Reply_struct p)) = Inr p"
  "utf8_valid (n_ProcessID n) \<Longrightarrow> utf8_valid (n_MsgID n) \<Longrightarrow> dec_Announce json_codec (struct_text (Announce_struct n)) = Inr n"
  "utf8_valid (t_Path t) \<Longrightarrow> dec_TOMsg json_codec (struct_text (TOMsg_struct t)) = Inr t"
  by (simp_all add: json_codec_def BMsg_Decode_Encode RMsg_Decode_Encode Ask_Decode_Encode Reply_Decode_Encode
      Announce_Decode_Encode TOMsg_Decode_mended mend_valid)

definition bank_start :: "(string, bank_handler, transaction) system" where
  "bank_start = initial [''a'', ''b''] [''/transaction/deposit'' \<mapsto> ProcessDeposit, ''/transaction/transfer'' \<mapsto> ProcessTransfer] NewTransaction"

lemmas bank_evaluate = evaluate_node valid_paths
  json_encodes json_decodes utf8_valid_Cons utf8_valid_append SHA1_valid uid_valid bank_exec_def processDeposit_def Deposit_Decode_Encode
  bank_start_def NewTransaction_def Deposit_cases

lemma bank_performs:
  "\<exists>s. perform_all json_codec utf8_valid (bank_exec sorted_orders) [''a'', ''b''] ''/transaction/deposit''
        (struct_text (deposit_struct \<lparr>d_Account = ''carol'', d_Amount = 7\<rparr>)) sample_actions bank_start = Some s
    \<and> processor (nodes s ''a'') = \<lparr>balances = [''carol'' \<mapsto> 7]\<rparr> \<and> processor (nodes s ''b'') = \<lparr>balances = [''carol'' \<mapsto> 7]\<rparr>"
  unfolding sample_actions_def by (simp add: bank_evaluate)

lemma bank_start_eq: "bank_start = initial sample_nodes bank_router NewProcessor"
  by (simp add: bank_start_def sample_nodes_def bank_router_eq DepositPath_def TransferPath_def NewProcessor_def)

lemma bank_sample_run:
  "\<exists>s. run json_codec utf8_valid (bank_exec sorted_orders) sample_nodes bank_router NewProcessor 10 s
    \<and> processor (nodes s ''a'') = \<lparr>balances = [''carol'' \<mapsto> 7]\<rparr> \<and> processor (nodes s ''b'') = \<lparr>balances = [''carol'' \<mapsto> 7]\<rparr>"
proof -
  obtain s where s: "perform_all json_codec utf8_valid (bank_exec sorted_orders) sample_nodes ''/transaction/deposit''
        (struct_text (deposit_struct \<lparr>d_Account = ''carol'', d_Amount = 7\<rparr>)) sample_actions bank_start = Some s"
    and p: "processor (nodes s ''a'') = \<lparr>balances = [''carol'' \<mapsto> 7]\<rparr>" "processor (nodes s ''b'') = \<lparr>balances = [''carol'' \<mapsto> 7]\<rparr>"
    using bank_performs unfolding sample_nodes_def by blast
  have "run json_codec utf8_valid (bank_exec sorted_orders) sample_nodes bank_router NewProcessor 0 bank_start"
    unfolding bank_start_eq by (rule run.start)
  from perform_all_run [OF this _ s] have "run json_codec utf8_valid (bank_exec sorted_orders) sample_nodes bank_router NewProcessor 10 s"
    by (simp add: sample_nodes_def sample_actions_def eval_nat_numeral)
  then show ?thesis using p by blast
qed

end
