(* ===== verification/Node_Life.thy ===== *)
theory Node_Life
  imports Total_Order
begin

text \<open>
  One node among others that may do anything: lines with any content arrive, writes fail, and
  members are ejected. What remains true of the node, and when a handler does not return.
\<close>

section \<open>The shape of a node\<close>

definition queue_ok :: "('b, 'h) totalording \<Rightarrow> bool" where
  "queue_ok t \<longleftrightarrow>
     pq_heap (holdQueue t)
   \<and> (\<forall>mid a. holdQueueMap t mid = Some a \<longrightarrow> (\<exists>x. pq_view (holdQueue t) a = Some x \<and> msgID x = mid))"

definition node_ok :: "('b, 'h, 'p) node \<Rightarrow> bool" where
  "node_ok nd \<longleftrightarrow>
     clients_ok (bmulticast nd) \<and> b_routes (bmulticast nd) \<and> r_routes (rmulticast nd) \<and> queue_ok (totalOrder nd)"

text \<open>A call that returns, in a state that keeps a property.\<close>

definition returns :: "('s \<Rightarrow> bool) \<Rightarrow> ('s, 'e) call \<Rightarrow> bool" where
  "returns P r \<longleftrightarrow> (\<exists>s es err. r = Some (s, es, err) \<and> P s)"

lemma returnsI [intro]: "P s \<Longrightarrow> returns P (Some (s, es, err))"
  by (simp add: returns_def)

lemma returns_weaken: "returns P r \<Longrightarrow> (\<And>s. P s \<Longrightarrow> Q s) \<Longrightarrow> returns Q r"
  by (auto simp: returns_def)

lemma returns_not_None: "returns P r \<Longrightarrow> r \<noteq> None"
  by (auto simp: returns_def)

lemma returns_bind:
  "returns P r \<Longrightarrow> (\<And>s es err. P s \<Longrightarrow> returns Q (f s es err)) \<Longrightarrow>
     returns Q (case r of None \<Rightarrow> None | Some (s, es, err) \<Rightarrow> f s es err)"
  by (auto simp: returns_def)

lemma returns_bind2:
  "returns P r \<Longrightarrow> (\<And>s t es err. P (s, t) \<Longrightarrow> returns Q (f s t es err)) \<Longrightarrow>
     returns Q (case r of None \<Rightarrow> None | Some ((s, t), es, err) \<Rightarrow> f s t es err)"
  by (auto simp: returns_def)

section \<open>Sending\<close>

definition sends_ok :: "bmulticast \<Rightarrow> bmulticast \<Rightarrow> bool" where
  "sends_ok b b' \<longleftrightarrow> clients_ok b' \<and> b_router b' = b_router b"

lemma sends_ok_refl: "clients_ok b \<Longrightarrow> sends_ok b b"
  by (simp add: sends_ok_def)

lemma sends_ok_eject: "clients_ok b \<Longrightarrow> sends_ok b (b\<lparr>senders := (senders b)(d := None)\<rparr>)"
  by (auto simp: sends_ok_def clients_ok_def ran_def)

lemma sends_ok_trans: "sends_ok b b' \<Longrightarrow> sends_ok b' b'' \<Longrightarrow> sends_ok b b''"
  by (simp add: sends_ok_def)

lemma multicast_loop_sends: "clients_ok b \<Longrightarrow> returns (sends_ok b) (multicast_loop ok path x ds b)"
proof (induction ds arbitrary: b)
  case Nil
  then show ?case by (auto intro: sends_ok_refl)
next
  case (Cons d ds)
  note ej = sends_ok_eject [OF Cons.prems, of d]
  consider "senders b d = None" | c where "senders b d = Some (Some c)"
    using clients_okD [OF Cons.prems, of d] by (metis not_None_eq)
  then show ?case
  proof cases
    case 1
    then show ?thesis using Cons by simp
  next
    case 2
    then show ?thesis
      using Cons.IH [OF Cons.prems] Cons.IH [of "b\<lparr>senders := (senders b)(d := None)\<rparr>"] ej sends_ok_trans [OF ej]
      by (auto simp: eject_eq sends_ok_def returns_def)
  qed
qed

lemma B_Multicast_sends: "clients_ok b \<Longrightarrow> returns (sends_ok b) (B_Multicast cd self ok order path data b)"
  by (auto simp: B_Multicast_def intro: sends_ok_refl multicast_loop_sends split: sum.split)

lemma R_Multicast_sends: "clients_ok b \<Longrightarrow> returns (sends_ok b) (R_Multicast cd self ok order uuid path data b)"
  by (auto simp: R_Multicast_def intro: sends_ok_refl returns_bind [OF B_Multicast_sends] split: sum.split)

lemma B_Unicast_sends: "clients_ok b \<Longrightarrow> returns (sends_ok b) (B_Unicast cd self ok d path data b)"
  using clients_okD [of b d]
  by (auto simp: B_Unicast_def eject_eq intro: sends_ok_refl sends_ok_eject split: sum.split option.split)

lemma aggregate_sends:
  "clients_ok b \<Longrightarrow> returns (sends_ok b) (aggregateVotesAndMulticast cd self ok order uuid votes b)"
  by (auto simp: aggregateVotesAndMulticast_def intro: sends_ok_refl R_Multicast_sends split: sum.split)

section \<open>The hold queue\<close>

lemma queue_ok_same: "queue_ok t \<Longrightarrow> holdQueue t' = holdQueue t \<Longrightarrow> holdQueueMap t' = holdQueueMap t \<Longrightarrow> queue_ok t'"
  by (simp add: queue_ok_def)

lemma queue_ok_hold:
  assumes "queue_ok t"
  shows "queue_ok (hold_message ask seq t)"
proof -
  have h: "pq_heap (holdQueue t)" using assms by (simp add: queue_ok_def)
  note V = hold_message_view(1,2,4) [OF h, of ask seq] and A = hold_message_view(3) [OF h]
  have "\<exists>x. pq_view (holdQueue (hold_message ask seq t)) a = Some x \<and> msgID x = mid"
    if "holdQueueMap (hold_message ask seq t) mid = Some a" for mid a
  proof (cases "mid = a_MsgID ask")
    case True
    then show ?thesis using that V(2) by (subst (asm) V(3)) auto
  next
    case False
    then have "holdQueueMap t mid = Some a" using that by (subst (asm) V(3)) simp
    then obtain x where "pq_view (holdQueue t) a = Some x" "msgID x = mid" using assms by (auto simp: queue_ok_def)
    moreover from this have "a \<noteq> length (mem (holdQueue t))" using A by auto
    ultimately show ?thesis using V(2) by simp
  qed
  then show ?thesis using V(1) by (simp add: queue_ok_def)
qed

lemma queue_ok_update:
  assumes q: "queue_ok t" and a: "holdQueueMap t mid = Some a"
  shows "queue_ok (t\<lparr>holdQueue := pq_Update a pid seq (holdQueue t)\<rparr>)"
proof -
  let ?h = "holdQueue t"
  obtain x where x: "pq_view ?h a = Some x" using q a by (auto simp: queue_ok_def)
  then have i: "a \<in> set (pq ?h)" "msgID (item_at ?h a) = msgID x" by (auto simp: pq_view_def split: if_splits)
  have "pq_heap ?h" using q by (simp add: queue_ok_def)
  note U = pq_Update_correct [OF this i(1), of pid seq]
  have "\<exists>y. pq_view (pq_Update a pid seq ?h) b = Some y \<and> msgID y = m" if "holdQueueMap t m = Some b" for m b
  proof -
    obtain y where "pq_view ?h b = Some y" "msgID y = m" using q \<open>holdQueueMap t m = Some b\<close> by (auto simp: queue_ok_def)
    then show ?thesis using U(2) i(2) x by auto
  qed
  then show ?thesis using U(1) by (simp add: queue_ok_def)
qed

lemma queue_ok_pop:
  assumes q: "queue_ok t" and a: "pq_Peek (holdQueue t) = Some a"
  obtains h' where "hold_pop (holdQueue t) = Some (h', a)" "length (pq h') < length (pq (holdQueue t))"
    "queue_ok (t\<lparr>holdQueueMap := (holdQueueMap t)(msgID (item_at (holdQueue t) a) := None), holdQueue := h'\<rparr>)"
proof -
  have h: "pq_heap (holdQueue t)" using q by (simp add: queue_ok_def)
  obtain h' where p: "hold_pop (holdQueue t) = Some (h', a)" "pq_heap h'"
    "pq_view h' = (pq_view (holdQueue t))(a := None)" "length (pq h') < length (pq (holdQueue t))"
    using hold_pop_correct [OF h a] by blast
  have "pq_view (holdQueue t) a = Some ((item_at (holdQueue t) a)\<lparr>index := 0\<rparr>)" using pq_Peek_least(1) [OF h a] .
  then have "queue_ok (t\<lparr>holdQueueMap := (holdQueueMap t)(msgID (item_at (holdQueue t) a) := None), holdQueue := h'\<rparr>)"
    using q p(2,3) by (fastforce simp: queue_ok_def split: if_splits)
  then show ?thesis using that p by blast
qed

lemma deliver_loop_ok:
  fixes ex :: "'h \<Rightarrow> 'b TOMsg \<Rightarrow> 'p \<Rightarrow> ('p, 'b effect) call"
  assumes ex: "always_returns ex"
  shows "queue_ok t \<Longrightarrow> returns (\<lambda>(t', pr'). queue_ok t') (deliver_loop cd ex alive now t pr)"
proof (induction "length (pq (holdQueue t))" arbitrary: t pr rule: less_induct)
  case less
  show ?case
  proof (cases "pq_Peek (holdQueue t)")
    case None
    then show ?thesis using less.prems by (auto simp: deliver_loop.simps [of cd ex alive now t pr])
  next
    case (Some a)
    let ?x = "item_at (holdQueue t) a"
    obtain h' where pop: "hold_pop (holdQueue t) = Some (h', a)" "length (pq h') < length (pq (holdQueue t))"
      "queue_ok (t\<lparr>holdQueueMap := (holdQueueMap t)(msgID ?x := None), holdQueue := h'\<rparr>)"
      using queue_ok_pop [OF less.prems Some] .
    let ?t = "t\<lparr>holdQueueMap := (holdQueueMap t)(msgID ?x := None), holdQueue := h'\<rparr>"
    have IH: "returns (\<lambda>(t', pr'). queue_ok t') (deliver_loop cd ex alive now ?t p1)" for p1
      using less.hyps [of ?t] pop by simp
    have crash: "queue_ok (t\<lparr>crashNodeTimeout := c\<rparr>)" for c by (rule queue_ok_same [OF less.prems]) simp_all
    show ?thesis
    proof (cases "agreed ?x \<and> (\<exists>m. dec_TOMsg cd (body ?x) = Inr m)")
      case True
      then obtain m where m: "agreed ?x" "dec_TOMsg cd (body ?x) = Inr m" by blast
      obtain p1 es err where r: "Run ex (t_router t) (t_Path m) m pr = Some (p1, es, err)"
        using Run_returns [OF ex, of "t_router t" "t_Path m" m pr] by auto
      show ?thesis
        using Some pop(1) m r IH [of p1]
        by (auto simp: deliver_loop.simps [of cd ex alive now t pr] Let_def returns_def)
    next
      case False
      then show ?thesis
        using Some pop(1,3) less.prems crash
        by (auto simp: deliver_loop.simps [of cd ex alive now t pr] Let_def split: option.split sum.split)
    qed
  qed
qed

section \<open>The handlers of the total-order layer\<close>

lemma handle_ask_ok:
  assumes "queue_ok t" "clients_ok b"
  shows "returns (\<lambda>(t', b'). queue_ok t' \<and> sends_ok b b') (handle_ask cd self ok msg (t, b))"
proof (cases "dec_Ask cd (r_Body msg)")
  case (Inl e)
  then show ?thesis using assms by (auto simp: handle_ask_sections intro: sends_ok_refl)
next
  case (Inr ask)
  have "queue_ok (t\<lparr>maxProposalSeqNumOfSelf := k\<rparr>)" for k by (rule queue_ok_same [OF assms(1)]) simp_all
  then show ?thesis
    using Inr by (auto simp: handle_ask_sections Let_def intro!: returns_bind [OF B_Unicast_sends [OF assms(2)]] queue_ok_hold)
qed

lemma handle_announce_ok:
  fixes ex :: "'h \<Rightarrow> 'b TOMsg \<Rightarrow> 'p \<Rightarrow> ('p, 'b effect) call"
  assumes "always_returns ex" "queue_ok t"
  shows "returns (\<lambda>(t', p'). queue_ok t') (handle_announce cd ex alive now msg (t, p))"
proof (cases "dec_Announce cd (r_Body msg)")
  case (Inl e)
  then show ?thesis using assms by (auto simp: handle_announce_def)
next
  case (Inr ann)
  let ?t = "t\<lparr>maxAgreementSeqNumOfGroup := MaxUint64 (maxAgreementSeqNumOfGroup t) (n_AgreementSeq ann)\<rparr>"
  have q: "queue_ok ?t" by (rule queue_ok_same [OF assms(2)]) simp_all
  show ?thesis
  proof (cases "holdQueueMap t (n_MsgID ann)")
    case None
    then show ?thesis using Inr q by (auto simp: handle_announce_def)
  next
    case (Some a)
    have "queue_ok (?t\<lparr>holdQueue := pq_Update a (n_ProcessID ann) (n_AgreementSeq ann) (holdQueue ?t)\<rparr>)"
      using queue_ok_update [OF q, of "n_MsgID ann" a] Some by simp
    from deliver_loop_ok [OF assms(1) this] show ?thesis using Inr Some by (simp add: handle_announce_def)
  qed
qed

lemma collect_vote_ok:
  assumes "queue_ok t" "clients_ok b" "waitVotesChannel t \<noteq> []"
  shows "returns (\<lambda>(t', b'). queue_ok t' \<and> sends_ok b b') (collect_vote cd self ok order uuid (t, b))"
proof -
  obtain v rest where v: "waitVotesChannel t = v # rest" using assms(3) by (cases "waitVotesChannel t") auto
  have "queue_ok (t\<lparr>waitVotesChannel := w, waitProposalCounter := c\<rparr>)" for w c
    by (rule queue_ok_same [OF assms(1)]) simp_all
  then show ?thesis
    using v assms(2)
    by (auto simp: collect_vote_def Let_def intro!: returns_bind [OF aggregate_sends [OF assms(2)]] intro: sends_ok_refl)
qed

lemma recount_loop_ok:
  "queue_ok t \<Longrightarrow> clients_ok b \<Longrightarrow>
     returns (\<lambda>(t', b'). queue_ok t' \<and> sends_ok b b') (recount_loop cd self ok order n mids (t, b))"
proof (induction mids arbitrary: t b)
  case Nil
  then show ?case by (auto intro: sends_ok_refl)
next
  case (Cons m mids)
  obtain mid uuid where m: "m = (mid, uuid)" by (cases m)
  have t: "queue_ok (t\<lparr>waitProposalCounter := c\<rparr>)" for c by (rule queue_ok_same [OF Cons.prems(1)]) simp_all
  have step: "returns (\<lambda>(t', b'). queue_ok t' \<and> sends_ok b b')
      (case recount_loop cd self ok order n mids (t\<lparr>waitProposalCounter := c\<rparr>, b1) of None \<Rightarrow> None
       | Some (tb, es2, err2) \<Rightarrow> Some (tb, es @ es2, err2))" if b1: "sends_ok b b1" for b1 c es
  proof (rule returns_bind [OF Cons.IH [OF t]])
    show "clients_ok b1" using b1 by (simp add: sends_ok_def)
    fix tb es2 err2 assume "case tb of (t', b') \<Rightarrow> queue_ok t' \<and> sends_ok b1 b'"
    then show "returns (\<lambda>(t', b'). queue_ok t' \<and> sends_ok b b') (Some (tb, es @ es2, err2))"
      using sends_ok_trans [OF b1] by (cases tb) auto
  qed
  have all: "returns (\<lambda>(t', b'). queue_ok t' \<and> sends_ok b b')
      (case aggregateVotesAndMulticast cd self ok order uuid votes b of None \<Rightarrow> None
       | Some (b1, es, err) \<Rightarrow>
           (case recount_loop cd self ok order n mids (t\<lparr>waitProposalCounter := c\<rparr>, b1) of None \<Rightarrow> None
            | Some (tb, es2, err2) \<Rightarrow> Some (tb, es @ es2, err2)))" for votes c
    by (rule returns_bind [OF aggregate_sends [OF Cons.prems(2)] step])
  show ?case
    using Cons.IH [OF Cons.prems] all by (cases "waitProposalCounter t mid") (simp_all add: m)
qed

section \<open>The handlers of the node\<close>

lemma node_ok_sends:
  assumes "node_ok nd" "queue_ok t" "sends_ok (bmulticast nd) b"
  shows "node_ok (nd\<lparr>totalOrder := t, bmulticast := b\<rparr>)"
  using assms by (auto simp: node_ok_def sends_ok_def b_routes_def)

lemma exec_r_ok:
  fixes ex :: "'h \<Rightarrow> 'b TOMsg \<Rightarrow> 'p \<Rightarrow> ('p, 'b effect) call"
  assumes "always_returns ex" "node_ok nd"
  shows "returns node_ok (exec_r cd ex e f msg nd)"
proof -
  have n: "queue_ok (totalOrder nd)" "clients_ok (bmulticast nd)" using assms(2) by (simp_all add: node_ok_def)
  show ?thesis
  proof (cases f)
    case AskProposalSeq
    then show ?thesis
      using node_ok_sends [OF assms(2)] by (auto simp: exec_r_def intro!: returns_bind2 [OF handle_ask_ok [OF n]])
  next
    case AnnounceAgreementSeq
    have "node_ok (nd\<lparr>totalOrder := t, processor := p\<rparr>)" if "queue_ok t" for t p
      using assms(2) that by (simp add: node_ok_def)
    then show ?thesis
      using AnnounceAgreementSeq
      by (auto simp: exec_r_def intro!: returns_bind2 [OF handle_announce_ok [OF assms(1) n(1)]])
  qed
qed

lemma Run_r_ok:
  fixes ex :: "'h \<Rightarrow> 'b TOMsg \<Rightarrow> 'p \<Rightarrow> ('p, 'b effect) call"
  assumes "always_returns ex" "node_ok nd"
  shows "returns node_ok (Run (exec_r cd ex e) r path msg nd)"
  using exec_r_ok [OF assms] assms(2) by (auto simp: Run_def split: option.split)

lemma r_deliver_ok:
  fixes ex :: "'h \<Rightarrow> 'b TOMsg \<Rightarrow> 'p \<Rightarrow> ('p, 'b effect) call"
  assumes "always_returns ex" "node_ok nd"
  shows "returns node_ok (r_deliver cd ex e msg nd)"
proof (cases "dec_RMsg cd (b_Body msg)")
  case (Inl er)
  then show ?thesis using assms(2) by (auto simp: r_deliver_def)
next
  case (Inr rm)
  define r where "r = fst (AddMsgIfNotExist (r_ID rm) (rmulticast nd))"
  define nd1 where "nd1 = nd\<lparr>rmulticast := r\<rparr>"
  have n1: "node_ok nd1" using assms(2) by (simp add: node_ok_def nd1_def r_def r_routes_def)
  have n2: "node_ok (nd1\<lparr>bmulticast := b\<rparr>)" if "sends_ok (bmulticast nd) b" for b
    using n1 that assms(2) by (auto simp: node_ok_def nd1_def sends_ok_def b_routes_def)
  have c: "clients_ok (bmulticast nd)" using assms(2) by (simp add: node_ok_def)
  obtain new where a: "AddMsgIfNotExist (r_ID rm) (rmulticast nd) = (r, new)"
    by (cases "AddMsgIfNotExist (r_ID rm) (rmulticast nd)") (simp add: r_def)
  obtain b es err where B: "B_Multicast cd (SelfNodeID nd) (env_ok e) (env_order e) RMulticastPath
      (enc_RMsg cd \<lparr>r_ID = r_ID rm, r_Path = r_Path rm, r_Body = r_Body rm\<rparr>) (bmulticast nd) = Some (b, es, err)"
      "sends_ok (bmulticast nd) b"
    using B_Multicast_sends [OF c] unfolding returns_def by metis
  have s: "SelfNodeID nd1 = SelfNodeID nd" "bmulticast nd1 = bmulticast nd" by (simp_all add: nd1_def)
  have "returns node_ok (case Run (exec_r cd ex e) (r_router r) (r_Path rm) rm (nd1\<lparr>bmulticast := b\<rparr>) of
      None \<Rightarrow> None | Some (nd2, es2, err) \<Rightarrow> Some (nd2, es @ es2, err))"
    by (rule returns_bind [OF Run_r_ok [OF assms(1) n2 [OF B(2)]]]) auto
  then show ?thesis
    using Run_r_ok [OF assms(1) n1] n1 n2 [OF B(2)]
    by (cases err) (auto simp: r_deliver_def Inr a nd1_def [symmetric] s B(1) Let_def)
qed

text \<open>The lines that a node does not get past.\<close>

definition line_blocks :: "'b codec \<Rightarrow> 'b \<Rightarrow> ('b, 'h, 'p) node \<Rightarrow> bool" where
  "line_blocks cd line nd =
     (let msg = fst (dec_BMsg cd line) in
      b_Path msg = BMulticastPath
      \<or> b_Path msg = WaitProposalSeqPath \<and> \<not> isl (dec_Reply cd (b_Body msg))
        \<and> waitVotesCapacity \<le> length (waitVotesChannel (totalOrder nd)))"

lemma reply_deliver_ok:
  assumes "node_ok nd" "isl (dec_Reply cd (b_Body msg)) \<or> length (waitVotesChannel (totalOrder nd)) < waitVotesCapacity"
  shows "returns node_ok (reply_deliver cd msg nd)"
proof -
  have q: "queue_ok (totalOrder nd)" using assms(1) by (simp add: node_ok_def)
  have "queue_ok ((totalOrder nd)\<lparr>waitVotesChannel := w\<rparr>)" for w by (rule queue_ok_same [OF q]) simp_all
  then have "node_ok (nd\<lparr>totalOrder := (totalOrder nd)\<lparr>waitVotesChannel := w\<rparr>\<rparr>)" for w
    using assms(1) by (simp add: node_ok_def)
  then show ?thesis
    using assms by (cases "dec_Reply cd (b_Body msg)") (auto simp: reply_deliver_def handle_reply_def Let_def)
qed

lemma handle_line_ok:
  fixes ex :: "'h \<Rightarrow> 'b TOMsg \<Rightarrow> 'p \<Rightarrow> ('p, 'b effect) call"
  assumes "always_returns ex" "node_ok nd"
  shows "if line_blocks cd line nd then handle_line cd ex e line nd = None
     else returns node_ok (handle_line cd ex e line nd)"
proof -
  obtain msg err where m: "dec_BMsg cd line = (msg, err)" by (cases "dec_BMsg cd line")
  have b: "b_routes (bmulticast nd)" using assms(2) by (simp add: node_ok_def)
  have h: "handle_line cd ex e line nd = b_run cd ex e BMulticastPath msg nd" by (simp add: handle_line_def m)
  show ?thesis
  proof (cases "b_Path msg = BMulticastPath")
    case True
    then show ?thesis using b_run_diverges [OF b True] h m by (simp add: line_blocks_def)
  next
    case False
    note r = b_run_path [OF b False, of cd ex e, folded h]
    have none: "reply_deliver cd msg nd = None" if "line_blocks cd line nd" "b_Path msg = WaitProposalSeqPath"
      using that by (cases "dec_Reply cd (b_Body msg)")
        (auto simp: line_blocks_def m reply_deliver_def handle_reply_def Let_def)
    have some: "returns node_ok (reply_deliver cd msg nd)" if "\<not> line_blocks cd line nd" "b_Path msg = WaitProposalSeqPath"
      using that by (intro reply_deliver_ok [OF assms(2)]) (auto simp: line_blocks_def m not_le)
    show ?thesis
    proof (cases "b_Path msg = WaitProposalSeqPath")
      case True
      then show ?thesis using r none some by (simp add: paths_distinct)
    next
      case w: False
      then have "\<not> line_blocks cd line nd" using False by (simp add: line_blocks_def m)
      then show ?thesis using r w r_deliver_ok [OF assms, of cd e msg] assms(2) by auto
    qed
  qed
qed

lemma TO_Multicast_sends:
  "clients_ok b \<Longrightarrow> returns (sends_ok b) (TO_Multicast cd self ok order uuid1 uuid2 path data b)"
  by (auto simp: TO_Multicast_def intro: sends_ok_refl returns_bind [OF R_Multicast_sends] split: sum.split)

lemma node_multicast_ok:
  assumes "node_ok nd"
  shows "returns node_ok (node_multicast cd e path data nd)"
proof -
  have "node_ok (nd\<lparr>bmulticast := b\<rparr>)" if "sends_ok (bmulticast nd) b" for b
    using assms that by (auto simp: node_ok_def sends_ok_def b_routes_def)
  then show ?thesis
    using assms unfolding node_multicast_def
    by (intro returns_bind [OF TO_Multicast_sends]) (auto simp: node_ok_def)
qed

lemma node_collect_ok:
  assumes "node_ok nd" "waitVotesChannel (totalOrder nd) \<noteq> []"
  shows "returns node_ok (node_collect cd e nd)"
  unfolding node_collect_def
  using assms(1) node_ok_sends [OF assms(1)]
  by (intro returns_bind2 [OF collect_vote_ok [OF _ _ assms(2)]]) (auto simp: node_ok_def)

lemma node_member_update_ok:
  assumes "node_ok nd"
  shows "returns node_ok (node_member_update cd e n mids nd)"
  unfolding node_member_update_def collect_update_def
  using assms node_ok_sends [OF assms]
  by (intro returns_bind2 [OF recount_loop_ok]) (auto simp: node_ok_def)

section \<open>A life\<close>

text \<open>Everything a started node does, with any input and any failures.\<close>

inductive life ::
  "'b codec \<Rightarrow> ('h \<Rightarrow> 'b TOMsg \<Rightarrow> 'p \<Rightarrow> ('p, 'b effect) call) \<Rightarrow> ('b, 'h, 'p) node \<Rightarrow> ('b, 'h, 'p) node \<Rightarrow> bool"
  for cd exec where
  line: "handle_line cd exec e line nd = Some (nd', es, err) \<Longrightarrow> life cd exec nd nd'"
| multicast: "node_multicast cd e path data nd = Some (nd', es, err) \<Longrightarrow> life cd exec nd nd'"
| collect: "node_collect cd e nd = Some (nd', es, err) \<Longrightarrow> life cd exec nd nd'"
| update: "node_member_update cd e n mids nd = Some (nd', es, err) \<Longrightarrow> life cd exec nd nd'"

lemma started_node_ok: "node_ok (started ms tr p0 p :: ('b, 'h, 'p) node)"
proof -
  have "wired (set ms) tr p (started ms tr p0 p :: ('b, 'h, 'p) node)" by (rule started_wired)
  then show ?thesis by (simp add: node_ok_def wired_def members_ok_def queue_ok_def started_fields empty_heap)
qed

lemma life_step_ok:
  assumes "always_returns exec" "life cd exec nd nd'" "node_ok nd"
  shows "node_ok nd'"
  using assms(2)
proof cases
  case (line e line es err)
  then show ?thesis using handle_line_ok [OF assms(1,3), of cd line e] by (auto simp: returns_def split: if_splits)
next
  case (multicast e path data es err)
  then show ?thesis using node_multicast_ok [OF assms(3), of cd e path data] by (simp add: returns_def)
next
  case (collect e es err)
  then have "waitVotesChannel (totalOrder nd) \<noteq> []" by (auto simp: node_collect_def collect_vote_def)
  then show ?thesis using node_collect_ok [OF assms(3), of cd e] collect by (simp add: returns_def)
next
  case (update e n mids es err)
  then show ?thesis using node_member_update_ok [OF assms(3), of cd e n mids] by (simp add: returns_def)
qed

lemma life_ok:
  assumes "always_returns exec" "(life cd exec)\<^sup>*\<^sup>* (started ms tr p0 p) nd"
  shows "node_ok nd"
  using assms(2) by (induction rule: rtranclp_induct) (auto intro: started_node_ok life_step_ok [OF assms(1)])

end
