(* ===== verification/Broker.thy ===== *)
theory Broker
  imports Prelude
begin

text \<open>
  \<open>lib/broker/broker.go\<close>: one goroutine that hands every published message to all
  subscribers. Its clients talk to it over buffered channels; a client whose send finds the
  buffer full waits (its step is not enabled). The select of the loop takes any branch that
  is ready. A subscriber's buffer has five places: when it is full the message is dropped for
  that subscriber. Channels are numbers; \<open>published\<close> and \<open>taken\<close> record what went through.
\<close>

datatype loop_status = Running | Returned | Panicked

record 'm broker =
  stopCh_closed :: bool
  publishCh :: "'m list"
  subCh :: "nat list"
  unsubCh :: "nat list"
  subs :: "nat set"
  boxes :: "nat \<Rightarrow> 'm list"
  made :: nat
  unsubscribing :: "nat set"
  closed :: "nat set"
  status :: loop_status
  published :: "'m list"
  taken :: "nat \<Rightarrow> 'm list"

definition New_broker :: "'m broker" where
  "New_broker =
     \<lparr>stopCh_closed = False, publishCh = [], subCh = [], unsubCh = [], subs = {}, boxes = (\<lambda>_. []), made = 0,
      unsubscribing = {}, closed = {}, status = Running, published = [], taken = (\<lambda>_. [])\<rparr>"

definition box_capacity :: nat where
  "box_capacity = 5"

section \<open>The calls of the clients\<close>

text \<open>\<open>Subscribe\<close> makes the channel and sends it; it is returned to the caller.\<close>

definition Subscribe :: "'m broker \<Rightarrow> (nat \<times> 'm broker) option" where
  "Subscribe b =
     (if length (subCh b) < 1
      then Some (made b, b\<lparr>boxes := (boxes b)(made b := []), subCh := subCh b @ [made b], made := made b + 1\<rparr>)
      else None)"

text \<open>\<open>Unsubscribe\<close> is two steps: it sends the channel, and then closes it.\<close>

definition Unsubscribe_send :: "nat \<Rightarrow> 'm broker \<Rightarrow> 'm broker option" where
  "Unsubscribe_send c b =
     (if length (unsubCh b) < 1
      then Some (b\<lparr>unsubCh := unsubCh b @ [c], unsubscribing := insert c (unsubscribing b)\<rparr>) else None)"

definition Unsubscribe_close :: "nat \<Rightarrow> 'm broker \<Rightarrow> 'm broker option" where
  "Unsubscribe_close c b =
     (if c \<in> unsubscribing b \<and> c \<notin> closed b
      then Some (b\<lparr>unsubscribing := unsubscribing b - {c}, closed := insert c (closed b)\<rparr>) else None)"

definition Publish :: "'m \<Rightarrow> 'm broker \<Rightarrow> 'm broker option" where
  "Publish m b = (if length (publishCh b) < 1 then Some (b\<lparr>publishCh := publishCh b @ [m]\<rparr>) else None)"

text \<open>\<open>Stop\<close>; closing a closed channel panics.\<close>

definition Stop :: "'m broker \<Rightarrow> 'm broker option" where
  "Stop b = (if stopCh_closed b then None else Some (b\<lparr>stopCh_closed := True\<rparr>))"

text \<open>A subscriber takes the next message from its channel.\<close>

definition receive_box :: "nat \<Rightarrow> 'm broker \<Rightarrow> 'm broker option" where
  "receive_box c b =
     (case boxes b c of [] \<Rightarrow> None
      | m # ms \<Rightarrow> Some (b\<lparr>boxes := (boxes b)(c := ms), taken := (taken b)(c := taken b c @ [m])\<rparr>))"

section \<open>The loop\<close>

text \<open>The branches of the select. Sending on a closed channel panics, also inside a select.\<close>

definition put :: "'m \<Rightarrow> 'm list \<Rightarrow> 'm list" where
  "put m ms = (if length ms < box_capacity then ms @ [m] else ms)"

definition on_stop :: "'m broker \<Rightarrow> 'm broker option" where
  "on_stop b = (if stopCh_closed b then Some (b\<lparr>status := Returned\<rparr>) else None)"

definition on_sub :: "'m broker \<Rightarrow> 'm broker option" where
  "on_sub b = (case subCh b of [] \<Rightarrow> None | c # cs \<Rightarrow> Some (b\<lparr>subCh := cs, subs := insert c (subs b)\<rparr>))"

definition on_unsub :: "'m broker \<Rightarrow> 'm broker option" where
  "on_unsub b = (case unsubCh b of [] \<Rightarrow> None | c # cs \<Rightarrow> Some (b\<lparr>unsubCh := cs, subs := subs b - {c}\<rparr>))"

definition on_publish :: "'m broker \<Rightarrow> 'm broker option" where
  "on_publish b =
     (case publishCh b of [] \<Rightarrow> None
      | m # ms \<Rightarrow>
          if subs b \<inter> closed b \<noteq> {} then Some (b\<lparr>publishCh := ms, status := Panicked\<rparr>)
          else Some (b\<lparr>publishCh := ms, boxes := (\<lambda>c. if c \<in> subs b then put m (boxes b c) else boxes b c),
                       published := published b @ [m]\<rparr>))"

inductive loop_step :: "'m broker \<Rightarrow> 'm broker \<Rightarrow> bool" where
  stop: "status b = Running \<Longrightarrow> on_stop b = Some b' \<Longrightarrow> loop_step b b'"
| sub: "status b = Running \<Longrightarrow> on_sub b = Some b' \<Longrightarrow> loop_step b b'"
| unsub: "status b = Running \<Longrightarrow> on_unsub b = Some b' \<Longrightarrow> loop_step b b'"
| publish: "status b = Running \<Longrightarrow> on_publish b = Some b' \<Longrightarrow> loop_step b b'"

text \<open>A step of the broker or of a client; \<open>u\<close> tells whether clients unsubscribe.\<close>

inductive broker_step :: "bool \<Rightarrow> 'm broker \<Rightarrow> 'm broker \<Rightarrow> bool" for u where
  loop: "loop_step b b' \<Longrightarrow> broker_step u b b'"
| subscribe: "Subscribe b = Some (c, b') \<Longrightarrow> broker_step u b b'"
| unsubscribe_send: "u \<Longrightarrow> Unsubscribe_send c b = Some b' \<Longrightarrow> broker_step u b b'"
| unsubscribe_close: "u \<Longrightarrow> Unsubscribe_close c b = Some b' \<Longrightarrow> broker_step u b b'"
| publish: "Publish m b = Some b' \<Longrightarrow> broker_step u b b'"
| stop: "Stop b = Some b' \<Longrightarrow> broker_step u b b'"
| receive: "receive_box c b = Some b' \<Longrightarrow> broker_step u b b'"

inductive_cases loop_stepE: "loop_step b b'"
inductive_cases broker_stepE: "broker_step u b b'"

inductive broker_run :: "bool \<Rightarrow> 'm broker \<Rightarrow> bool" for u where
  start: "broker_run u New_broker"
| step: "broker_run u b \<Longrightarrow> broker_step u b b' \<Longrightarrow> broker_run u b'"

lemmas broker_ops = Subscribe_def Unsubscribe_send_def Unsubscribe_close_def Publish_def Stop_def receive_box_def
  on_stop_def on_sub_def on_unsub_def on_publish_def

section \<open>Invariants\<close>

text \<open>
  No buffer is over its capacity; a subscriber's messages, taken and waiting, are published
  ones in the order they were published; channels not yet made are empty.
\<close>

definition broker_inv :: "'m broker \<Rightarrow> bool" where
  "broker_inv b \<longleftrightarrow>
     length (publishCh b) \<le> 1 \<and> length (subCh b) \<le> 1 \<and> length (unsubCh b) \<le> 1
   \<and> (\<forall>c. length (boxes b c) \<le> box_capacity)
   \<and> (\<forall>c. subseq (taken b c @ boxes b c) (published b))
   \<and> (\<forall>c. made b \<le> c \<longrightarrow> taken b c = [] \<and> boxes b c = [])"

lemma subseq_snoc: "subseq xs ys \<Longrightarrow> subseq xs (ys @ [m])"
  by (rule list_emb_prefix)

lemma subseq_put: "subseq (xs @ ms) ys \<Longrightarrow> subseq (xs @ put m ms) (ys @ [m])"
  using list_emb_append_mono [of "(=)" "xs @ ms" ys "[m]" "[m]"] subseq_snoc [of "xs @ ms" ys m]
  by (auto simp: put_def)

lemma length_put: "length ms \<le> box_capacity \<Longrightarrow> length (put m ms) \<le> box_capacity"
  by (simp add: put_def)

lemma broker_inv_step:
  assumes "broker_inv b" "broker_step u b b'" "subs b \<subseteq> {..<made b}"
  shows "broker_inv b'"
  using assms(2)
proof cases
  case loop
  from loop(1) show ?thesis
  proof cases
    case publish
    obtain m ms where m: "publishCh b = m # ms" using publish(2) by (auto simp: on_publish_def split: list.splits)
    show ?thesis
    proof (cases "subs b \<inter> closed b = {}")
      case True
      then have b': "b' = b\<lparr>publishCh := ms, boxes := (\<lambda>c. if c \<in> subs b then put m (boxes b c) else boxes b c),
          published := published b @ [m]\<rparr>" using publish(2) m by (simp add: on_publish_def)
      have "subseq (taken b c @ boxes b' c) (published b')" for c
        using assms(1) subseq_put [of "taken b c" "boxes b c" "published b" m] subseq_snoc [of "taken b c @ boxes b c"]
        by (simp add: b' broker_inv_def)
      moreover have "c \<notin> subs b" if "made b \<le> c" for c using assms(3) that by auto
      ultimately show ?thesis
        using assms(1) m by (simp add: broker_inv_def b' length_put)
    qed (use assms(1) m publish(2) in \<open>auto simp: broker_inv_def on_publish_def\<close>)
  qed (use assms(1) in \<open>auto simp: broker_inv_def broker_ops split: list.splits if_splits\<close>)
next
  case (receive c)
  then obtain m ms where m: "boxes b c = m # ms"
    "b' = b\<lparr>boxes := (boxes b)(c := ms), taken := (taken b)(c := taken b c @ [m])\<rparr>"
    by (auto simp: receive_box_def split: list.splits)
  then have "length (m # ms) \<le> box_capacity" "subseq (taken b c @ m # ms) (published b)" "\<not> made b \<le> c"
    using assms(1) unfolding broker_inv_def by (metis list.distinct(1))+
  then show ?thesis using assms(1) m(2) by (auto simp: broker_inv_def)
qed (use assms(1) in \<open>auto simp: broker_inv_def broker_ops split: if_splits\<close>)

definition subs_made :: "'m broker \<Rightarrow> bool" where
  "subs_made b \<longleftrightarrow> subs b \<subseteq> {..<made b} \<and> set (subCh b) \<subseteq> {..<made b}"

lemma subs_made_step: "subs_made b \<Longrightarrow> broker_step u b b' \<Longrightarrow> subs_made b'"
  by (erule broker_stepE; (erule loop_stepE)?)
     (auto simp: subs_made_def broker_ops split: list.splits if_splits)

lemma broker_run_inv: "broker_run u b \<Longrightarrow> broker_inv b \<and> subs_made b"
proof (induction rule: broker_run.induct)
  case start
  show ?case by (simp add: New_broker_def broker_inv_def subs_made_def)
next
  case (step b b')
  then show ?case using broker_inv_step [of b u b'] subs_made_step [of b u b'] by (auto simp: subs_made_def)
qed

text \<open>When no client unsubscribes, no channel is ever closed and the loop does not panic.\<close>

lemma never_panics: "broker_run False b \<Longrightarrow> status b \<noteq> Panicked \<and> closed b = {}"
proof (induction rule: broker_run.induct)
  case start
  show ?case by (simp add: New_broker_def)
next
  case (step b b')
  from step.hyps(2) step.IH show ?case
    by (elim broker_stepE loop_stepE) (auto simp: broker_ops split: list.splits if_splits)
qed

text \<open>The loop is never blocked by a subscriber: a waiting message can always be handled.\<close>

lemma publish_enabled: "status b = Running \<Longrightarrow> publishCh b \<noteq> [] \<Longrightarrow> \<exists>b'. loop_step b b' \<and> on_publish b = Some b'"
proof -
  assume "status b = Running" "publishCh b \<noteq> []"
  moreover from this obtain b' where "on_publish b = Some b'" by (cases "publishCh b"; cases "subs b \<inter> closed b = {}") (auto simp: on_publish_def)
  ultimately show ?thesis using loop_step.publish by blast
qed

text \<open>Unsubscribing can bring the loop down: the channel is closed before the loop forgets it.\<close>

definition panic_state :: "nat broker" where
  "panic_state =
     New_broker\<lparr>subs := {0}, made := 1, unsubCh := [0], closed := {0}, status := Panicked\<rparr>"

lemma unsubscribe_panics: "broker_run True panic_state"
proof -
  have "broker_run True (New_broker :: nat broker)" by (rule broker_run.start)
  then have "broker_run True (New_broker\<lparr>subCh := [0], made := 1\<rparr> :: nat broker)"
    by (rule broker_run.step, intro broker_step.subscribe [of _ 0]) (simp add: New_broker_def Subscribe_def fun_eq_iff)
  then have "broker_run True (New_broker\<lparr>subs := {0}, made := 1\<rparr> :: nat broker)"
    by (rule broker_run.step, intro broker_step.loop loop_step.sub) (simp_all add: New_broker_def on_sub_def)
  then have "broker_run True (New_broker\<lparr>subs := {0}, made := 1, unsubCh := [0], unsubscribing := {0}\<rparr> :: nat broker)"
    by (rule broker_run.step, intro broker_step.unsubscribe_send [of _ 0]) (simp_all add: New_broker_def Unsubscribe_send_def)
  then have "broker_run True (New_broker\<lparr>subs := {0}, made := 1, unsubCh := [0], closed := {0}\<rparr> :: nat broker)"
    by (rule broker_run.step, intro broker_step.unsubscribe_close [of _ 0]) (simp_all add: New_broker_def Unsubscribe_close_def)
  then have "broker_run True (New_broker\<lparr>subs := {0}, made := 1, unsubCh := [0], closed := {0}, publishCh := [7]\<rparr> :: nat broker)"
    by (rule broker_run.step, intro broker_step.publish [of 7]) (simp add: New_broker_def Publish_def)
  then show ?thesis
    by (rule broker_run.step, intro broker_step.loop loop_step.publish)
       (simp_all add: New_broker_def on_publish_def panic_state_def)
qed

section \<open>Properties\<close>

text \<open>
  C33. In every state of the broker and its clients, no buffer is over its capacity, and what a
  subscriber has taken and what waits for it are published messages, in the order in which
  they were published: messages may be dropped, never reordered, repeated or made up.
\<close>

theorem broker_keeps_order:
  assumes "broker_run u b"
  shows "subseq (taken b c @ boxes b c) (published b) \<and> length (boxes b c) \<le> box_capacity
       \<and> length (publishCh b) \<le> 1 \<and> length (subCh b) \<le> 1 \<and> length (unsubCh b) \<le> 1"
  using broker_run_inv [OF assms] by (simp add: broker_inv_def)

lemma sample_broker_run:
  "broker_run False (New_broker\<lparr>subs := {0}, made := 1, boxes := (\<lambda>_. [])(0 := [7]), published := [7]\<rparr> :: nat broker)"
proof -
  have "broker_run False (New_broker :: nat broker)" by (rule broker_run.start)
  then have "broker_run False (New_broker\<lparr>subCh := [0], made := 1\<rparr> :: nat broker)"
    by (rule broker_run.step, intro broker_step.subscribe [of _ 0]) (simp add: New_broker_def Subscribe_def fun_eq_iff)
  then have "broker_run False (New_broker\<lparr>subs := {0}, made := 1\<rparr> :: nat broker)"
    by (rule broker_run.step, intro broker_step.loop loop_step.sub) (simp_all add: New_broker_def on_sub_def)
  then have "broker_run False (New_broker\<lparr>subs := {0}, made := 1, publishCh := [7]\<rparr> :: nat broker)"
    by (rule broker_run.step, intro broker_step.publish [of 7]) (simp add: New_broker_def Publish_def)
  then show ?thesis
    by (rule broker_run.step, intro broker_step.loop loop_step.publish)
       (simp_all add: New_broker_def on_publish_def put_def box_capacity_def fun_eq_iff)
qed

theorem broker_keeps_order_witness:
  "\<exists>b :: nat broker. broker_run False b \<and> boxes b 0 = [7] \<and> subseq [7] (published b)"
proof (intro exI conjI)
  show "broker_run False (New_broker\<lparr>subs := {0}, made := 1, boxes := (\<lambda>_. [])(0 := [7]), published := [7]\<rparr> :: nat broker)"
    by (rule sample_broker_run)
  from broker_keeps_order [OF this, of 0] show "subseq [7] (published
      (New_broker\<lparr>subs := {0}, made := 1, boxes := (\<lambda>_. [])(0 := [7]), published := [7]\<rparr> :: nat broker))"
    by (simp add: New_broker_def)
qed (simp add: New_broker_def)

text \<open>
  C34. As long as no client unsubscribes, which is how the program uses it, the loop of the
  broker never panics and is never blocked by a subscriber: while it runs, a published message
  can be handled at once, and is put into the buffer of every subscriber that has room.
\<close>

theorem broker_never_blocks:
  assumes "broker_run False b" "status b = Running" "publishCh b = m # ms"
  shows "\<exists>b'. loop_step b b' \<and> status b' = Running \<and> publishCh b' = ms \<and> published b' = published b @ [m]
       \<and> (\<forall>c\<in>subs b. boxes b' c = (if length (boxes b c) < box_capacity then boxes b c @ [m] else boxes b c))"
proof -
  have "closed b = {}" using never_panics [OF assms(1)] by simp
  then have "on_publish b = Some (b\<lparr>publishCh := ms, boxes := (\<lambda>c. if c \<in> subs b then put m (boxes b c) else boxes b c),
      published := published b @ [m]\<rparr>)" using assms(3) by (simp add: on_publish_def)
  from loop_step.publish [OF assms(2) this] show ?thesis using assms(2) by (fastforce simp: put_def)
qed

theorem broker_never_blocks_witness:
  "\<exists>b b' :: nat broker. publishCh b = [7] \<and> loop_step b b' \<and> status b' = Running \<and> published b' = [7]"
proof -
  let ?b = "New_broker\<lparr>publishCh := [7]\<rparr> :: nat broker"
  have "broker_run False ?b"
    by (rule broker_run.step [OF broker_run.start], intro broker_step.publish [of 7]) (simp add: New_broker_def Publish_def)
  from broker_never_blocks [OF this, of 7 "[]"]
  obtain b' where "loop_step ?b b'" "status b' = Running" "published b' = [7]" by (auto simp: New_broker_def)
  then show ?thesis by (intro exI [of _ ?b] exI [of _ b']) (simp add: New_broker_def)
qed

end
