(* ===== verification/Crash.thy ===== *)
theory Crash
  imports Cluster Broker
begin

text \<open>
  Groups in which members crash, between two handler runs or in the middle of one: a crashed
  node takes no more steps, a write to it may fail, and the node that notices ejects it and
  recounts the votes it waits for. Lines that a node sent before it crashed still arrive. The
  calls of \<open>Multicast\<close> are recorded.
\<close>

section \<open>The state of a group\<close>

text \<open>
  A member count is published on the broker of its node, whose loop puts it into the buffer of
  the collector; there it is dropped when five others wait. \<open>calls\<close> maps the uuid that a call
  of \<open>Multicast\<close> drew for its message to the caller, the path and the data.
\<close>

type_synonym 'b calls = "string \<Rightarrow> (string \<times> string \<times> (go_error + 'b)) option"

record ('b, 'h, 'p) faulty =
  sys :: "('b, 'h, 'p) system"
  dead :: "string set"
  announcing :: "string \<Rightarrow> nat list"   \<comment> \<open>counts that the loop of the broker has not taken yet\<close>
  counts :: "string \<Rightarrow> nat list"       \<comment> \<open>counts that the collector has not taken yet\<close>
  calls :: "'b calls"

fun published_counts :: "'b effect list \<Rightarrow> nat list" where
  "published_counts [] = []"
| "published_counts (e # es) =
     (case e of effect.Publish n \<Rightarrow> n # published_counts es | _ \<Rightarrow> published_counts es)"

definition commit_counts ::
  "string \<Rightarrow> string set \<Rightarrow> ('b, 'h, 'p) node \<Rightarrow> 'b effect list \<Rightarrow> ('b, 'h, 'p) faulty \<Rightarrow> ('b, 'h, 'p) faulty" where
  "commit_counts p us nd es f =
     f\<lparr>sys := commit p us nd es (sys f), announcing := (announcing f)(p := announcing f p @ published_counts es)\<rparr>"

text \<open>Writes to a node that has not crashed succeed.\<close>

definition crash_stop :: "string set \<Rightarrow> string set \<Rightarrow> env \<Rightarrow> bool" where
  "crash_stop M D e \<longleftrightarrow>
     (\<forall>path d. d \<notin> D \<longrightarrow> env_ok e path d) \<and> distinct (env_order e) \<and> set (env_order e) = M"

section \<open>Steps\<close>

text \<open>
  A handler run of the node \<open>p\<close> that draws the uuids \<open>us\<close>: what it takes from the state, the
  node after it and its effects.
\<close>

inductive handler_run ::
  "'b codec \<Rightarrow> (string \<Rightarrow> bool) \<Rightarrow> ('h \<Rightarrow> 'b TOMsg \<Rightarrow> 'p \<Rightarrow> ('p, 'b effect) call) \<Rightarrow> string set \<Rightarrow>
     ('b, 'h, 'p) faulty \<Rightarrow> string \<Rightarrow> string set \<Rightarrow> ('b, 'h, 'p) faulty \<Rightarrow> ('b, 'h, 'p) node \<Rightarrow> 'b effect list \<Rightarrow> bool"
  for cd valid exec M f p where
  multicast: "crash_stop M (dead f) e \<Longrightarrow>
     fresh valid (sys f) (env_uuid1 e) \<Longrightarrow> fresh valid (sys f) (env_uuid2 e) \<Longrightarrow>
     node_multicast cd e path data (nodes (sys f) p) = Some (nd, es, err) \<Longrightarrow>
     handler_run cd valid exec M f p {env_uuid1 e, env_uuid2 e}
       (f\<lparr>calls := (calls f)(env_uuid1 e \<mapsto> (p, path, data))\<rparr>) nd es"
| receive: "q \<in> M \<Longrightarrow> crash_stop M (dead f) e \<Longrightarrow> chan (sys f) q p = line # rest \<Longrightarrow>
     handle_line cd exec e line (nodes (sys f) p) = Some (nd, es, err) \<Longrightarrow>
     handler_run cd valid exec M f p {} (f\<lparr>sys := take_line q p (sys f)\<rparr>) nd es"
| collect: "crash_stop M (dead f) e \<Longrightarrow> fresh valid (sys f) (env_uuid1 e) \<Longrightarrow>
     node_collect cd e (nodes (sys f) p) = Some (nd, es, err) \<Longrightarrow>
     handler_run cd valid exec M f p {env_uuid1 e} f nd es"
| recount: "crash_stop M (dead f) e \<Longrightarrow> counts f p = n # ns \<Longrightarrow>
     distinct (map fst mids) \<Longrightarrow> set (map fst mids) = dom (waitProposalCounter (totalOrder (nodes (sys f) p))) \<Longrightarrow>
     distinct (map snd mids) \<Longrightarrow> \<forall>u\<in>set (map snd mids). fresh valid (sys f) u \<Longrightarrow>
     node_member_update cd e (Some (int n)) mids (nodes (sys f) p) = Some (nd, es, err) \<Longrightarrow>
     handler_run cd valid exec M f p (set (map snd mids)) (f\<lparr>counts := (counts f)(p := ns)\<rparr>) nd es"

text \<open>
  A node that crashes in the middle of a handler run has made the first \<open>k\<close> of its effects: part
  of the writes of a multicast, say. Nobody looks at the memory of a dead node.
\<close>

inductive faulty_step ::
  "'b codec \<Rightarrow> (string \<Rightarrow> bool) \<Rightarrow> ('h \<Rightarrow> 'b TOMsg \<Rightarrow> 'p \<Rightarrow> ('p, 'b effect) call) \<Rightarrow> string set \<Rightarrow>
     ('b, 'h, 'p) faulty \<Rightarrow> ('b, 'h, 'p) faulty \<Rightarrow> bool"
  for cd valid exec M where
  handler: "p \<in> M - dead f \<Longrightarrow> handler_run cd valid exec M f p us f0 nd es \<Longrightarrow>
     faulty_step cd valid exec M f (commit_counts p us nd es f0)"
| crash_within: "p \<in> M - dead f \<Longrightarrow> handler_run cd valid exec M f p us f0 nd es \<Longrightarrow>
     faulty_step cd valid exec M f ((commit_counts p us nd (take k es) f0)\<lparr>dead := insert p (dead f)\<rparr>)"
| crash: "p \<in> M \<Longrightarrow> faulty_step cd valid exec M f (f\<lparr>dead := insert p (dead f)\<rparr>)"
| broker: "p \<in> M - dead f \<Longrightarrow> announcing f p = n # ns \<Longrightarrow>
     faulty_step cd valid exec M f
       (f\<lparr>announcing := (announcing f)(p := ns), counts := (counts f)(p := put n (counts f p))\<rparr>)"

definition faulty_initial :: "string list \<Rightarrow> 'h router \<Rightarrow> 'p \<Rightarrow> ('b, 'h, 'p) faulty" where
  "faulty_initial ms tr p0 =
     \<lparr>sys = initial ms tr p0, dead = {}, announcing = (\<lambda>_. []), counts = (\<lambda>_. []), calls = Map.empty\<rparr>"

text \<open>The body that a call asked to multicast, found by the id of its message.\<close>

definition call_body :: "'b codec \<Rightarrow> 'b calls \<Rightarrow> string \<Rightarrow> 'b list" where
  "call_body cd C mid =
     (case C (take 36 mid) of
        Some (q, path, Inr d) \<Rightarrow> (case enc_TOMsg cd \<lparr>t_Path = path, t_Body = d\<rparr> of Inr y \<Rightarrow> [y] | Inl _ \<Rightarrow> [])
      | _ \<Rightarrow> [])"

text \<open>Without a crash these are the steps of a failure-free run.\<close>

lemma crash_stop_calm: "crash_stop M {} e \<longleftrightarrow> calm M e"
  by (simp add: crash_stop_def calm_def)

end
