(* ===== verification/Crash_Integrity.thy ===== *)
theory Crash_Integrity
  imports Crash Total_Order
begin

text \<open>
  What is left when members crash and writes fail: no node delivers a message twice, what it
  delivers is what some call of \<open>Multicast\<close> asked for, and the state of its upper layer is the
  result of handling these bodies. The invariant is local to a node and the lines it may be
  sent; it says nothing of votes and agreements.
\<close>

section \<open>What is sent\<close>

definition sent :: "('b \<Rightarrow> bool) \<Rightarrow> 'b effect list \<Rightarrow> bool" where
  "sent Q es \<longleftrightarrow> (\<forall>e\<in>set es. case e of Write d x \<Rightarrow> Q x | CloseConn d \<Rightarrow> True | effect.Publish n \<Rightarrow> True | _ \<Rightarrow> False)"

lemma sent_simps [simp]:
  "sent Q []" "sent Q (es @ es') \<longleftrightarrow> sent Q es \<and> sent Q es'"
  "sent Q (Write d x # es) \<longleftrightarrow> Q x \<and> sent Q es" "sent Q (CloseConn d # es) \<longleftrightarrow> sent Q es"
  "sent Q (effect.Publish n # es) \<longleftrightarrow> sent Q es"
  by (auto simp: sent_def)

lemma sent_delivered: "sent Q es \<Longrightarrow> delivered es = []"
  by (induction es) (auto simp: sent_def split: effect.splits)

lemma sent_printed: "sent Q es \<Longrightarrow> printed es = []"
  by (induction es) (auto simp: sent_def split: effect.splits)

lemma sent_writes: "sent Q es \<Longrightarrow> x \<in> set (writes_to d es) \<Longrightarrow> Q x"
  by (induction es) (auto simp: sent_def split: effect.splits if_splits)

definition sends :: "('b \<Rightarrow> bool) \<Rightarrow> bmulticast \<Rightarrow> (bmulticast, 'b effect) call \<Rightarrow> bool" where
  "sends Q b r \<longleftrightarrow> (\<forall>b' es err. r = Some (b', es, err) \<longrightarrow> b_router b' = b_router b \<and> sent Q es)"

lemma sends_simps [simp]: "sends Q b None" "sends Q b (Some (b, [], err))"
  by (simp_all add: sends_def)

lemma sendsD:
  "sends Q b r \<Longrightarrow> r = Some (b', es, err) \<Longrightarrow> b_router b' = b_router b"
  "sends Q b r \<Longrightarrow> r = Some (b', es, err) \<Longrightarrow> sent Q es"
  by (auto simp: sends_def)

lemma sends_bind:
  assumes "sends Q b1 r" "b_router b1 = b_router b" "sent Q es"
  shows "sends Q b (case r of None \<Rightarrow> None | Some (b2, es2, err) \<Rightarrow> Some (b2, es @ es2, err))"
  using assms by (cases r) (auto simp: sends_def)

lemma sends_err: "sends Q b r \<Longrightarrow> sends Q b (case r of None \<Rightarrow> None | Some (b2, es2, err) \<Rightarrow> Some (b2, es2, f err))"
  by (cases r) (auto simp: sends_def)

lemma sends_loop: "Q bytes \<Longrightarrow> sends Q b (multicast_loop ok path bytes ds b)"
proof (induction ds arbitrary: b)
  case (Cons d ds)
  note IH = Cons.IH [OF Cons.prems]
  consider "senders b d = None" | "senders b d = Some None" | c where "senders b d = Some (Some c)"
    by (metis option.exhaust)
  then show ?case
  proof cases
    case 1
    then show ?thesis using IH by simp
  next
    case 2
    then show ?thesis by simp
  next
    case 3
    then show ?thesis
      using sends_bind [OF IH, of b b "[Write d bytes]"] Cons.prems
        sends_bind [OF IH, of "b\<lparr>senders := (senders b)(d := None)\<rparr>" b
          "[CloseConn d, effect.Publish (MemberCount (b\<lparr>senders := (senders b)(d := None)\<rparr>))]"]
      by (auto simp: eject_eq)
  qed
qed simp

lemma sends_B_Multicast:
  "(\<And>y x. data = Inr y \<Longrightarrow> enc_BMsg cd \<lparr>b_SrcID = self, b_Path = path, b_Body = y\<rparr> = Inr x \<Longrightarrow> Q x) \<Longrightarrow>
     sends Q b (B_Multicast cd self ok order path data b)"
  by (auto simp: B_Multicast_def NewBMsg_def intro: sends_loop split: sum.splits)

lemma sends_B_Unicast:
  "(\<And>y x. data = Inr y \<Longrightarrow> enc_BMsg cd \<lparr>b_SrcID = self, b_Path = path, b_Body = y\<rparr> = Inr x \<Longrightarrow> Q x) \<Longrightarrow>
     sends Q b (B_Unicast cd self ok d path data b)"
  by (auto simp: B_Unicast_def NewBMsg_def sends_def eject_eq split: sum.splits option.splits if_splits)

lemma sends_R_Multicast:
  assumes "\<And>y z x. data = Inr y \<Longrightarrow> enc_RMsg cd \<lparr>r_ID = uuid @ ''-'' @ digest cd y, r_Path = path, r_Body = y\<rparr> = Inr z \<Longrightarrow>
     enc_BMsg cd \<lparr>b_SrcID = self, b_Path = RMulticastPath, b_Body = z\<rparr> = Inr x \<Longrightarrow> Q x"
  shows "sends Q b (R_Multicast cd self ok order uuid path data b)"
proof (cases data)
  case (Inr y)
  let ?rm = "\<lparr>r_ID = uuid @ ''-'' @ digest cd y, r_Path = path, r_Body = y\<rparr>"
  have "sends Q b (B_Multicast cd self ok order RMulticastPath (enc_RMsg cd ?rm) b)"
    by (rule sends_B_Multicast) (use Inr assms in blast)
  from sends_err [OF this] show ?thesis by (simp add: R_Multicast_def NewRMsg_def Inr)
qed (simp add: R_Multicast_def NewRMsg_def)

section \<open>Lines\<close>

text \<open>
  \<open>A\<close> maps the id of a message to the id of the one reliable message that asks for its number,
  and to its body.
\<close>

definition safe_r :: "'b codec \<Rightarrow> (string \<Rightarrow> bool) \<Rightarrow> (string \<Rightarrow> (string \<times> 'b) option) \<Rightarrow> 'b RMsg \<Rightarrow> bool" where
  "safe_r cd valid A rm \<longleftrightarrow> valid (r_ID rm) \<and>
     (r_Path rm = AnnounceAgreementSeqPath
      \<or> r_Path rm = AskProposalSeqPath \<and> (\<exists>ask. dec_Ask cd (r_Body rm) = Inr ask \<and> A (a_MsgID ask) = Some (r_ID rm, a_Body ask)))"

definition safe_line :: "'b codec \<Rightarrow> (string \<Rightarrow> bool) \<Rightarrow> (string \<Rightarrow> (string \<times> 'b) option) \<Rightarrow> 'b \<Rightarrow> bool" where
  "safe_line cd valid A line \<longleftrightarrow> (let bm = fst (dec_BMsg cd line) in
     b_Path bm = WaitProposalSeqPath
     \<or> b_Path bm = RMulticastPath \<and> (\<exists>rm. dec_RMsg cd (b_Body bm) = Inr rm \<and> safe_r cd valid A rm))"

lemma safe_r_mono: "safe_r cd valid A rm \<Longrightarrow> A \<subseteq>\<^sub>m A' \<Longrightarrow> safe_r cd valid A' rm"
  by (auto simp: safe_r_def map_le_def dom_def)

lemma safe_line_mono: "safe_line cd valid A line \<Longrightarrow> A \<subseteq>\<^sub>m A' \<Longrightarrow> safe_line cd valid A' line"
  using safe_r_mono by (fastforce simp: safe_line_def Let_def)

context message_codec
begin

lemma safe_reply:
  "valid self \<Longrightarrow> enc_BMsg cd \<lparr>b_SrcID = self, b_Path = WaitProposalSeqPath, b_Body = y\<rparr> = Inr x \<Longrightarrow> safe_line cd valid A x"
  using BMsg_roundtrip [of "\<lparr>b_SrcID = self, b_Path = WaitProposalSeqPath, b_Body = y\<rparr>"] valid_paths
  by (auto simp: safe_line_def)

lemma safe_sent:
  assumes "valid self" "safe_r cd valid A rm" "enc_RMsg cd rm = Inr z"
    "enc_BMsg cd \<lparr>b_SrcID = self, b_Path = RMulticastPath, b_Body = z\<rparr> = Inr x"
  shows "safe_line cd valid A x"
proof -
  have "valid (r_ID rm)" "valid (r_Path rm)" using assms(2) valid_paths by (auto simp: safe_r_def)
  then have "dec_RMsg cd z = Inr rm" using RMsg_roundtrip [of rm] assms(3) by auto
  then show ?thesis
    using BMsg_roundtrip [of "\<lparr>b_SrcID = self, b_Path = RMulticastPath, b_Body = z\<rparr>"] assms(1,2,4) valid_paths
    by (auto simp: safe_line_def)
qed

lemma safe_announcement:
  assumes "valid self" "valid uuid"
  shows "sends (safe_line cd valid A) b (R_Multicast cd self ok order uuid AnnounceAgreementSeqPath data b)"
proof (rule sends_R_Multicast)
  fix y z x
  let ?rm = "\<lparr>r_ID = uuid @ ''-'' @ digest cd y, r_Path = AnnounceAgreementSeqPath, r_Body = y\<rparr>"
  assume "enc_RMsg cd ?rm = Inr z" "enc_BMsg cd \<lparr>b_SrcID = self, b_Path = RMulticastPath, b_Body = z\<rparr> = Inr x"
  moreover have "safe_r cd valid A ?rm"
    using valid_append [OF assms(2) valid_append [OF valid_dash valid_digest]] by (simp add: safe_r_def)
  ultimately show "safe_line cd valid A x" using safe_sent [OF assms(1)] by blast
qed

lemma safe_aggregate:
  "valid self \<Longrightarrow> valid uuid \<Longrightarrow>
     sends (safe_line cd valid A) b (aggregateVotesAndMulticast cd self ok order uuid votes b)"
  by (auto simp: aggregateVotesAndMulticast_def intro: safe_announcement split: sum.split)

end

section \<open>The hold queue\<close>

text \<open>
  \<open>B\<close> are the messages whose request was handled, with their bodies, \<open>ds\<close> those delivered: the
  queue holds others of \<open>B\<close>, each once.
\<close>

definition fair :: "(string \<Rightarrow> 'b option) \<Rightarrow> string list \<Rightarrow> ('b, 'h) totalording \<Rightarrow> bool" where
  "fair B ds t \<longleftrightarrow>
     pq_heap (holdQueue t) \<and> distinct ds \<and> set ds \<subseteq> dom B
   \<and> (\<forall>mid a. holdQueueMap t mid = Some a \<longleftrightarrow> (\<exists>x. pq_view (holdQueue t) a = Some x \<and> msgID x = mid))
   \<and> (\<forall>a x. pq_view (holdQueue t) a = Some x \<longrightarrow> msgID x \<notin> set ds \<and> B (msgID x) = Some (body x))"

lemma fairD:
  assumes "fair B ds t"
  shows "pq_heap (holdQueue t)" "distinct ds" "set ds \<subseteq> dom B"
    "holdQueueMap t mid = Some a \<longleftrightarrow> (\<exists>x. pq_view (holdQueue t) a = Some x \<and> msgID x = mid)"
    "pq_view (holdQueue t) a = Some x \<Longrightarrow> msgID x \<notin> set ds \<and> B (msgID x) = Some (body x)"
  using assms unfolding fair_def by blast+

lemma fairI:
  assumes "pq_heap (holdQueue t)" "distinct ds" "set ds \<subseteq> dom B"
    "\<And>mid a. holdQueueMap t mid = Some a \<longleftrightarrow> (\<exists>x. pq_view (holdQueue t) a = Some x \<and> msgID x = mid)"
    "\<And>a x. pq_view (holdQueue t) a = Some x \<Longrightarrow> msgID x \<notin> set ds \<and> B (msgID x) = Some (body x)"
  shows "fair B ds t"
  unfolding fair_def by (intro conjI allI impI) (use assms in \<open>blast+\<close>)

lemma fair_same: "fair B ds t \<Longrightarrow> holdQueue t' = holdQueue t \<Longrightarrow> holdQueueMap t' = holdQueueMap t \<Longrightarrow> fair B ds t'"
  by (simp add: fair_def)

lemma fair_mono:
  assumes f: "fair B ds t" and B: "B \<subseteq>\<^sub>m B'"
  shows "fair B' ds t"
proof (rule fairI)
  show "set ds \<subseteq> dom B'" using fairD(3) [OF f] map_le_implies_dom_le [OF B] by blast
  show "msgID x \<notin> set ds \<and> B' (msgID x) = Some (body x)" if "pq_view (holdQueue t) a = Some x" for a x
    using fairD(5) [OF f that] map_leD [OF B] by blast
qed (use fairD(1,2,4) [OF f] in simp_all)

lemma fair_hold:
  assumes f: "fair B ds t" and new: "B (a_MsgID ask) = None" "B \<subseteq>\<^sub>m B'" "B' (a_MsgID ask) = Some (a_Body ask)"
  shows "fair B' ds (hold_message ask seq t)"
proof -
  note V = hold_message_view(1,2,4) [OF fairD(1) [OF f], of ask seq] and A = hold_message_view(3) [OF fairD(1) [OF f]]
  let ?a = "length (mem (holdQueue t))"
  have old: "holdQueueMap t (a_MsgID ask) = None" using fairD(4,5) [OF f] new(1) by (metis not_None_eq option.distinct(1))
  have m: "holdQueueMap (hold_message ask seq t) = (holdQueueMap t)(a_MsgID ask \<mapsto> ?a)" by (subst V(3)) simp
  show ?thesis
  proof (rule fairI)
    show "holdQueueMap (hold_message ask seq t) mid = Some a \<longleftrightarrow>
        (\<exists>x. pq_view (holdQueue (hold_message ask seq t)) a = Some x \<and> msgID x = mid)" for mid a
      using fairD(4) [OF f, of mid a] A old fairD(5) [OF f, of a] new(1) unfolding m V(2) by auto
    show "set ds \<subseteq> dom B'" using fairD(3) [OF f] map_le_implies_dom_le [OF new(2)] by blast
    show "msgID x \<notin> set ds \<and> B' (msgID x) = Some (body x)" if "pq_view (holdQueue (hold_message ask seq t)) a = Some x" for a x
      using that fairD(3) [OF f] fairD(5) [OF f, of a x] new(1,3) map_leD [OF new(2), of "msgID x"]
      unfolding V(2) by (auto split: if_splits)
  qed (use V(1) fairD(2) [OF f] in auto)
qed

lemma fair_update:
  assumes f: "fair B ds t" and a: "holdQueueMap t mid = Some a"
  shows "fair B ds (t\<lparr>holdQueue := pq_Update a pid seq (holdQueue t)\<rparr>)"
proof -
  obtain x where x: "pq_view (holdQueue t) a = Some x" "msgID x = mid" using fairD(4) [OF f] a by blast
  then have i: "a \<in> set (pq (holdQueue t))" "msgID (item_at (holdQueue t) a) = mid"
    by (auto simp: pq_view_def split: if_splits)
  note U = pq_Update_correct [OF fairD(1) [OF f] i(1), of pid seq]
  have same: "body (item_at (holdQueue t) a) = body x" using x(1) by (auto simp: pq_view_def split: if_splits)
  have view: "(\<exists>y. pq_view (pq_Update a pid seq (holdQueue t)) b = Some y \<and> msgID y = m \<and> body y = z) \<longleftrightarrow>
      (\<exists>y. pq_view (holdQueue t) b = Some y \<and> msgID y = m \<and> body y = z)" for b m z
    using U(2) i(2) x same by auto
  show ?thesis
  proof (rule fairI)
    fix b y
    assume "pq_view (holdQueue (t\<lparr>holdQueue := pq_Update a pid seq (holdQueue t)\<rparr>)) b = Some y"
    then obtain z where "pq_view (holdQueue t) b = Some z" "msgID z = msgID y" "body z = body y"
      using view [of b "msgID y" "body y"] by auto
    then show "msgID y \<notin> set ds \<and> B (msgID y) = Some (body y)" using fairD(5) [OF f, of b z] by simp
  next
    fix m b
    have "(\<exists>y. pq_view (pq_Update a pid seq (holdQueue t)) b = Some y \<and> msgID y = m) \<longleftrightarrow>
        (\<exists>y. pq_view (holdQueue t) b = Some y \<and> msgID y = m)" using view by blast
    then show "holdQueueMap (t\<lparr>holdQueue := pq_Update a pid seq (holdQueue t)\<rparr>) m = Some b \<longleftrightarrow>
        (\<exists>y. pq_view (holdQueue (t\<lparr>holdQueue := pq_Update a pid seq (holdQueue t)\<rparr>)) b = Some y \<and> msgID y = m)"
      using fairD(4) [OF f, of m b] by simp
  qed (use U(1) fairD(2,3) [OF f] in simp_all)
qed

lemma fair_pop:
  assumes f: "fair B ds t" and a: "pq_Peek (holdQueue t) = Some a"
  obtains h' where "B (msgID (item_at (holdQueue t) a)) = Some (body (item_at (holdQueue t) a))" "hold_pop (holdQueue t) = Some (h', a)" "length (pq h') < length (pq (holdQueue t))"
    "fair B (ds @ [msgID (item_at (holdQueue t) a)])
       (t\<lparr>holdQueueMap := (holdQueueMap t)(msgID (item_at (holdQueue t) a) := None), holdQueue := h'\<rparr>)"
    "fair B ds
       (t\<lparr>holdQueueMap := (holdQueueMap t)(msgID (item_at (holdQueue t) a) := None), holdQueue := h'\<rparr>)"
proof -
  let ?mid = "msgID (item_at (holdQueue t) a)"
  obtain h' where p: "hold_pop (holdQueue t) = Some (h', a)" "pq_heap h'"
    "pq_view h' = (pq_view (holdQueue t))(a := None)" "length (pq h') < length (pq (holdQueue t))"
    using hold_pop_correct [OF fairD(1) [OF f] a] by blast
  let ?t = "t\<lparr>holdQueueMap := (holdQueueMap t)(?mid := None), holdQueue := h'\<rparr>"
  have x: "pq_view (holdQueue t) a = Some ((item_at (holdQueue t) a)\<lparr>index := 0\<rparr>)"
    using pq_Peek_least(1) [OF fairD(1) [OF f] a] .
  then have mid: "?mid \<notin> set ds" "B ?mid = Some (body (item_at (holdQueue t) a))" "holdQueueMap t ?mid = Some a"
    using fairD(5) [OF f x] fairD(4) [OF f, of ?mid a] by auto
  have other: "msgID y \<noteq> ?mid" if "pq_view (holdQueue t) b = Some y" "b \<noteq> a" for b y
    using that fairD(4) [OF f, of "msgID y" b] mid(3) by auto
  have m: "holdQueueMap ?t mid = Some b \<longleftrightarrow> (\<exists>x. pq_view (holdQueue ?t) b = Some x \<and> msgID x = mid)" for mid b
    using fairD(4) [OF f, of mid b] other x p(3) by auto
  have left: "b \<noteq> a \<and> pq_view (holdQueue t) b = Some y" if "pq_view (holdQueue ?t) b = Some y" for b y
    using that p(3) by (auto split: if_splits)
  have "fair B (ds @ [?mid]) ?t"
  proof (rule fairI)
    show "msgID y \<notin> set (ds @ [?mid]) \<and> B (msgID y) = Some (body y)" if "pq_view (holdQueue ?t) b = Some y" for b y
      using left [OF that] other [of b y] fairD(5) [OF f, of b y] by auto
  qed (use p(2) m mid(1,2) fairD(2,3) [OF f] in auto)
  moreover have "fair B ds ?t"
  proof (rule fairI)
    show "msgID y \<notin> set ds \<and> B (msgID y) = Some (body y)" if "pq_view (holdQueue ?t) b = Some y" for b y
      using left [OF that] fairD(5) [OF f, of b y] by simp
  qed (use p(2) m fairD(2,3) [OF f] in auto)
  ultimately show ?thesis using that p(1,4) mid(2) by blast
qed

text \<open>The delivery loop hands the bodies to the layer above, which only prints.\<close>

lemma deliver_loop_fair:
  fixes ex :: "'h \<Rightarrow> 'b TOMsg \<Rightarrow> 'p \<Rightarrow> ('p, 'b effect) call"
  assumes ex: "only_prints ex"
  shows "fair B ds t \<Longrightarrow> deliver_loop cd ex alive now t pr = Some ((t', pr'), es, err) \<Longrightarrow>
     fair B (ds @ delivered es) t' \<and> (\<forall>d. writes_to d es = []) \<and> t_router t' = t_router t
   \<and> replay cd ex (t_router t) (map (\<lambda>mid. the (B mid)) (delivered es)) pr = Some (pr', printed es)"
proof (induction "length (pq (holdQueue t))" arbitrary: t ds pr t' pr' es err rule: less_induct)
  case less
  note f = less.prems(1) and run = less.prems(2) [unfolded deliver_loop.simps [of cd ex alive now t pr]]
  have crash: "fair B ds (t\<lparr>crashNodeTimeout := c\<rparr>)" for c by (rule fair_same [OF f]) simp_all
  show ?case
  proof (cases "pq_Peek (holdQueue t)")
    case None
    then show ?thesis using f run by simp
  next
    case (Some a)
    let ?x = "item_at (holdQueue t) a"
    obtain h' where b: "B (msgID ?x) = Some (body ?x)"
      and pop: "hold_pop (holdQueue t) = Some (h', a)" "length (pq h') < length (pq (holdQueue t))"
      "fair B (ds @ [msgID ?x]) (t\<lparr>holdQueueMap := (holdQueueMap t)(msgID ?x := None), holdQueue := h'\<rparr>)"
      "fair B ds (t\<lparr>holdQueueMap := (holdQueueMap t)(msgID ?x := None), holdQueue := h'\<rparr>)"
      using fair_pop [OF f Some] .
    let ?t = "t\<lparr>holdQueueMap := (holdQueueMap t)(msgID ?x := None), holdQueue := h'\<rparr>"
    show ?thesis
    proof (cases "agreed ?x \<and> (\<exists>m. dec_TOMsg cd (body ?x) = Inr m)")
      case True
      then obtain m where m: "agreed ?x" "dec_TOMsg cd (body ?x) = Inr m" by blast
      from run Some pop(1) m obtain p1 es1 err1 es2
        where r: "Run ex (t_router t) (t_Path m) m pr = Some (p1, es1, err1)"
          and l: "deliver_loop cd ex alive now ?t p1 = Some ((t', pr'), es2, err)"
          and es: "es = TODeliver (proposalSeqNum ?x) (processID ?x) (msgID ?x) # es1 @ es2"
        by (auto simp: Let_def split: option.splits)
      have "length (pq (holdQueue ?t)) < length (pq (holdQueue t))" using pop(2) by simp
      from less.hyps [OF this pop(3) l] show ?thesis
        using es prints_effects [OF Run_only_prints [OF ex r]] b m(2) r by simp
    next
      case False
      then show ?thesis
        using run Some pop(1,3,4) f crash b
        by (auto simp: Let_def split: option.splits sum.splits if_splits)
    qed
  qed
qed

section \<open>A node\<close>

definition seen :: "(string \<Rightarrow> (string \<times> 'b) option) \<Rightarrow> string set \<Rightarrow> string \<Rightarrow> 'b option" where
  "seen A R mid = (case A mid of None \<Rightarrow> None | Some (rid, y) \<Rightarrow> if rid \<in> R then Some y else None)"

definition body_in :: "(string \<Rightarrow> (string \<times> 'b) option) \<Rightarrow> string \<Rightarrow> 'b" where
  "body_in A mid = snd (the (A mid))"

text \<open>A node whose log is \<open>l\<close>; its upper layer started in \<open>p0\<close> with the router \<open>tr\<close>.\<close>

definition fair_node ::
  "'b codec \<Rightarrow> ('h \<Rightarrow> 'b TOMsg \<Rightarrow> 'p \<Rightarrow> ('p, 'b effect) call) \<Rightarrow> 'h router \<Rightarrow> 'p \<Rightarrow>
     (string \<Rightarrow> (string \<times> 'b) option) \<Rightarrow> string \<Rightarrow> 'b effect list \<Rightarrow> ('b, 'h, 'p) node \<Rightarrow> bool" where
  "fair_node cd ex tr p0 A p l nd \<longleftrightarrow>
     SelfNodeID nd = p \<and> b_routes (bmulticast nd) \<and> r_routes (rmulticast nd) \<and> t_router (totalOrder nd) = tr
   \<and> fair (seen A (received (rmulticast nd))) (delivered l) (totalOrder nd)
   \<and> replay cd ex tr (map (body_in A) (delivered l)) p0 = Some (processor nd, printed l)"

lemma seen_Some: "seen A R mid = Some y \<longleftrightarrow> (\<exists>rid. A mid = Some (rid, y) \<and> rid \<in> R)"
  by (simp add: seen_def split: option.split)

lemma seen_mono:
  assumes "A \<subseteq>\<^sub>m A'" "R \<subseteq> R'"
  shows "seen A R \<subseteq>\<^sub>m seen A' R'"
proof -
  have "seen A' R' mid = Some y" if "seen A R mid = Some y" for mid y
    using that map_leD [OF assms(1)] assms(2) by (auto simp: seen_Some)
  then show ?thesis by (auto simp: map_le_def dom_def)
qed

lemma dom_seen:
  assumes "mid \<in> dom (seen A R)"
  shows "mid \<in> dom A" "the (seen A R mid) = body_in A mid"
proof -
  obtain y where y: "seen A R mid = Some y" using assms by blast
  then obtain rid where "A mid = Some (rid, y)" by (auto simp: seen_Some)
  with y show "mid \<in> dom A" "the (seen A R mid) = body_in A mid" by (simp_all add: domI body_in_def)
qed

lemma map_body_in:
  assumes "set ds \<subseteq> dom A" "A \<subseteq>\<^sub>m A'"
  shows "map (body_in A') ds = map (body_in A) ds"
proof (rule map_cong [OF refl])
  show "body_in A' mid = body_in A mid" if "mid \<in> set ds" for mid
    using that assms by (simp add: body_in_def map_le_def subset_iff)
qed

lemma fair_node_known:
  assumes "fair_node cd ex tr p0 A p l nd"
  shows "distinct (delivered l)" "set (delivered l) \<subseteq> dom A"
proof -
  have f: "fair (seen A (received (rmulticast nd))) (delivered l) (totalOrder nd)" using assms by (simp add: fair_node_def)
  show "distinct (delivered l)" using fairD(2) [OF f] .
  show "set (delivered l) \<subseteq> dom A" using subset_trans [OF fairD(3) [OF f] subsetI [OF dom_seen(1)]] .
qed

lemma fair_node_mono:
  assumes f: "fair_node cd ex tr p0 A p l nd" and A: "A \<subseteq>\<^sub>m A'"
  shows "fair_node cd ex tr p0 A' p l nd"
proof -
  have "fair (seen A' (received (rmulticast nd))) (delivered l) (totalOrder nd)"
    by (rule fair_mono [OF _ seen_mono [OF A order_refl]]) (use f in \<open>simp add: fair_node_def\<close>)
  with f show ?thesis unfolding fair_node_def map_body_in [OF fair_node_known(2) [OF f] A] by blast
qed

lemma fair_node_update:
  assumes "fair_node cd ex tr p0 A p l nd" "b_router b = b_router (bmulticast nd)" "t_router t = t_router (totalOrder nd)"
    "fair (seen A (received (rmulticast nd))) (delivered l) t"
  shows "fair_node cd ex tr p0 A p l (nd\<lparr>totalOrder := t, bmulticast := b\<rparr>)"
  using assms by (simp add: fair_node_def b_routes_def)

text \<open>What every handler run keeps.\<close>

definition keeps_fair ::
  "'b codec \<Rightarrow> (string \<Rightarrow> bool) \<Rightarrow> ('h \<Rightarrow> 'b TOMsg \<Rightarrow> 'p \<Rightarrow> ('p, 'b effect) call) \<Rightarrow> 'h router \<Rightarrow> 'p \<Rightarrow>
     (string \<Rightarrow> (string \<times> 'b) option) \<Rightarrow> string \<Rightarrow> 'b effect list \<Rightarrow> (('b, 'h, 'p) node, 'b effect) call \<Rightarrow> bool" where
  "keeps_fair cd valid ex tr p0 A p l r \<longleftrightarrow>
     (\<forall>nd es err. r = Some (nd, es, err) \<longrightarrow>
        fair_node cd ex tr p0 A p (l @ es) nd \<and> (\<forall>d. \<forall>x\<in>set (writes_to d es). safe_line cd valid A x))"

lemma keeps_fairI [intro]:
  assumes "\<And>nd es err. r = Some (nd, es, err) \<Longrightarrow> fair_node cd ex tr p0 A p (l @ es) nd"
    and "\<And>nd es err d x. r = Some (nd, es, err) \<Longrightarrow> x \<in> set (writes_to d es) \<Longrightarrow> safe_line cd valid A x"
  shows "keeps_fair cd valid ex tr p0 A p l r"
  using assms by (auto simp: keeps_fair_def)

lemma keeps_fair_quiet: "fair_node cd ex tr p0 A p l nd \<Longrightarrow> keeps_fair cd valid ex tr p0 A p l (Some (nd, [], err))"
  by (simp add: keeps_fair_def)

lemma fair_node_sent: "sent Q es \<Longrightarrow> fair_node cd ex tr p0 A p (l @ es) nd \<longleftrightarrow> fair_node cd ex tr p0 A p l nd"
  by (simp add: fair_node_def sent_delivered sent_printed)

lemma keeps_fair_sent:
  "fair_node cd ex tr p0 A p l nd \<Longrightarrow> sent (safe_line cd valid A) es \<Longrightarrow>
     keeps_fair cd valid ex tr p0 A p l (Some (nd, es, err))"
  by (auto simp: keeps_fair_def fair_node_sent [of "safe_line cd valid A"] dest: sent_writes)

lemma keeps_fair_after:
  assumes "keeps_fair cd valid ex tr p0 A p l r" "sent (safe_line cd valid A) es"
  shows "keeps_fair cd valid ex tr p0 A p l (case r of None \<Rightarrow> None | Some (nd, es2, err) \<Rightarrow> Some (nd, es @ es2, err))"
proof (cases r)
  case (Some x)
  then obtain nd es2 err where x: "r = Some (nd, es2, err)" by (cases x) simp
  have "fair_node cd ex tr p0 A p (l @ es @ es2) nd"
    using assms(1) x by (simp add: keeps_fair_def fair_node_def sent_delivered [OF assms(2)] sent_printed [OF assms(2)])
  moreover have "safe_line cd valid A y" if "y \<in> set (writes_to d (es @ es2))" for d y
    using that assms(1) x sent_writes [OF assms(2), of y d] by (auto simp: keeps_fair_def)
  ultimately show ?thesis unfolding x by (simp add: keeps_fair_def)
qed (simp add: keeps_fair_def)

lemma fair_node_delivers:
  assumes f: "fair_node cd ex tr p0 A p l nd"
    and t: "fair (seen A (received (rmulticast nd))) (delivered l @ delivered es) t" "t_router t = tr"
    and r: "replay cd ex tr (map (\<lambda>mid. the (seen A (received (rmulticast nd)) mid)) (delivered es)) (processor nd)
      = Some (pr, printed es)"
  shows "fair_node cd ex tr p0 A p (l @ es) (nd\<lparr>totalOrder := t, processor := pr\<rparr>)"
proof -
  have m: "map (\<lambda>mid. the (seen A (received (rmulticast nd)) mid)) (delivered es) = map (body_in A) (delivered es)"
    using fairD(3) [OF t(1)] by (intro map_cong refl dom_seen(2)) auto
  show ?thesis using f t r [unfolded m] by (simp add: fair_node_def replay_append)
qed

lemma fair_announce:
  fixes ex :: "'h \<Rightarrow> 'b TOMsg \<Rightarrow> 'p \<Rightarrow> ('p, 'b effect) call"
  assumes ex: "only_prints ex" and f: "fair_node cd ex tr p0 A p l nd"
  shows "keeps_fair cd valid ex tr p0 A p l (exec_r cd ex e AnnounceAgreementSeq msg nd)"
proof -
  let ?t = "totalOrder nd" and ?B = "seen A (received (rmulticast nd))"
  have t: "fair ?B (delivered l) ?t" "t_router ?t = tr" using f by (simp_all add: fair_node_def)
  have ok: "fair_node cd ex tr p0 A p l (nd\<lparr>totalOrder := t', processor := processor nd\<rparr>)"
    if "fair ?B (delivered l) t'" "t_router t' = tr" for t'
    using fair_node_delivers [of cd ex tr p0 A p l nd "[]" t' "processor nd"] f that by simp
  show ?thesis
  proof (cases "dec_Announce cd (r_Body msg)")
    case (Inl er)
    then show ?thesis using f by (auto simp: exec_r_def handle_announce_def intro: keeps_fair_quiet)
  next
    case (Inr ann)
    let ?t1 = "?t\<lparr>maxAgreementSeqNumOfGroup := MaxUint64 (maxAgreementSeqNumOfGroup ?t) (n_AgreementSeq ann)\<rparr>"
    have t1: "fair ?B (delivered l) ?t1" by (rule fair_same [OF t(1)]) simp_all
    show ?thesis
    proof (cases "holdQueueMap ?t (n_MsgID ann)")
      case None
      then show ?thesis using Inr ok [OF t1] t(2) by (auto simp: exec_r_def handle_announce_def intro!: keeps_fair_quiet)
    next
      case (Some a)
      let ?t2 = "?t1\<lparr>holdQueue := pq_Update a (n_ProcessID ann) (n_AgreementSeq ann) (holdQueue ?t1)\<rparr>"
      have t2: "fair ?B (delivered l) ?t2" using fair_update [OF t1, of "n_MsgID ann" a] Some by simp
      show ?thesis
      proof (rule keeps_fairI)
        fix nd' es err assume "exec_r cd ex e AnnounceAgreementSeq msg nd = Some (nd', es, err)"
        then obtain t' pr where nd': "nd' = nd\<lparr>totalOrder := t', processor := pr\<rparr>"
          and d: "deliver_loop cd ex (\<lambda>pid. IsNodeAlived pid (bmulticast nd)) (env_now e) ?t2 (processor nd) = Some ((t', pr), es, err)"
          using Inr Some by (auto simp: exec_r_def handle_announce_def split: option.splits)
        note D = deliver_loop_fair [OF ex t2 d]
        show "fair_node cd ex tr p0 A p (l @ es) nd'"
          unfolding nd' by (rule fair_node_delivers [OF f]) (use D t(2) in simp_all)
        show "safe_line cd valid A x" if "x \<in> set (writes_to d es)" for d x using D that by simp
      qed
    qed
  qed
qed

context message_codec
begin

lemma fair_ask:
  assumes f: "fair_node cd ex tr p0 A p l nd" and p: "valid p" and r: "received (rmulticast nd) = insert (r_ID msg) R" "r_ID msg \<notin> R"
    and old: "fair (seen A R) (delivered l) (totalOrder nd)"
    and ask: "dec_Ask cd (r_Body msg) = Inr ask" "A (a_MsgID ask) = Some (r_ID msg, a_Body ask)"
  shows "keeps_fair cd valid ex tr p0 A p l (exec_r cd ex e AskProposalSeq msg nd)"
proof -
  let ?t = "totalOrder nd" and ?seq = "next_proposal (totalOrder nd)"
  have "fair (seen A R) (delivered l) (?t\<lparr>maxProposalSeqNumOfSelf := ?seq\<rparr>)"
    by (rule fair_same [OF old]) simp_all
  then have t: "fair (seen A (received (rmulticast nd))) (delivered l) (hold_message ask ?seq (?t\<lparr>maxProposalSeqNumOfSelf := ?seq\<rparr>))"
  proof (rule fair_hold)
    show "seen A R (a_MsgID ask) = None" using r(2) ask(2) by (simp add: seen_def)
    show "seen A R \<subseteq>\<^sub>m seen A (received (rmulticast nd))" using r(1) by (intro seen_mono) auto
    show "seen A (received (rmulticast nd)) (a_MsgID ask) = Some (a_Body ask)" using r(1) ask(2) by (simp add: seen_def)
  qed
  have s: "sends (safe_line cd valid A) (bmulticast nd)
      (B_Unicast cd p (env_ok e) (a_SrcID ask) WaitProposalSeqPath data (bmulticast nd))" for data
    by (rule sends_B_Unicast) (rule safe_reply [OF p])
  have n: "SelfNodeID nd = p" using f by (simp add: fair_node_def)
  show ?thesis
    using s fair_node_update [OF f _ _ t] n
    by (auto simp: exec_r_def handle_ask_sections ask(1) Let_def sends_def intro!: keeps_fair_sent split: option.splits)
qed

lemma fair_line:
  fixes ex :: "'h \<Rightarrow> 'b TOMsg \<Rightarrow> 'p \<Rightarrow> ('p, 'b effect) call"
  assumes ex: "only_prints ex" and f: "fair_node cd ex tr p0 A p l nd" and p: "valid p" and line: "safe_line cd valid A line"
  shows "keeps_fair cd valid ex tr p0 A p l (handle_line cd ex e line nd)"
proof -
  obtain msg err where m: "dec_BMsg cd line = (msg, err)" by (cases "dec_BMsg cd line")
  have routes: "b_routes (bmulticast nd)" "r_routes (rmulticast nd)" and n: "SelfNodeID nd = p"
    and t: "fair (seen A (received (rmulticast nd))) (delivered l) (totalOrder nd)" using f by (simp_all add: fair_node_def)
  have h: "handle_line cd ex e line nd = b_run cd ex e BMulticastPath msg nd" by (simp add: handle_line_def m)
  consider "b_Path msg = WaitProposalSeqPath"
    | rm where "b_Path msg = RMulticastPath" "dec_RMsg cd (b_Body msg) = Inr rm" "safe_r cd valid A rm"
    using line by (auto simp: safe_line_def m)
  then show ?thesis
  proof cases
    case 1
    have "fair_node cd ex tr p0 A p l (nd\<lparr>totalOrder := (totalOrder nd)\<lparr>waitVotesChannel := w\<rparr>\<rparr>)" for w
      using fair_node_update [OF f refl _ fair_same [OF t], of "(totalOrder nd)\<lparr>waitVotesChannel := w\<rparr>"] by simp
    then show ?thesis
      using f 1 unfolding h by (auto simp: b_run_path [OF routes(1)] reply_deliver_def handle_reply_def Let_def
          intro: keeps_fair_quiet split: sum.splits)
  next
    case rm: 2
    show ?thesis
    proof (cases "r_ID rm \<in> received (rmulticast nd)")
      case True
      then show ?thesis
        using f rm unfolding h by (auto simp: b_run_path [OF routes(1)] r_deliver_def AddMsgIfNotExist_def intro: keeps_fair_quiet)
    next
      case False
      define nd1 where "nd1 = nd\<lparr>rmulticast := (rmulticast nd)\<lparr>received := insert (r_ID rm) (received (rmulticast nd))\<rparr>\<rparr>"
      have f1: "fair_node cd ex tr p0 A p l nd1"
        using f fair_mono [OF t seen_mono [of A A _ "received (rmulticast nd1)"]]
        by (auto simp: fair_node_def nd1_def r_routes_def)
      have f2: "fair_node cd ex tr p0 A p l (nd1\<lparr>bmulticast := b\<rparr>)" if "b_router b = b_router (bmulticast nd)" for b
        using f1 that by (simp add: fair_node_def b_routes_def nd1_def)
      have run: "keeps_fair cd valid ex tr p0 A p l (Run (exec_r cd ex e) (r_router (rmulticast nd)) (r_Path rm) rm (nd1\<lparr>bmulticast := b\<rparr>))"
        if "b_router b = b_router (bmulticast nd)" for b
      proof (cases "r_Path rm = AskProposalSeqPath")
        case True
        then obtain ask where "dec_Ask cd (r_Body rm) = Inr ask" "A (a_MsgID ask) = Some (r_ID rm, a_Body ask)"
          using rm(3) by (auto simp: safe_r_def)
        then show ?thesis
          using fair_ask [OF f2 [OF that] p, of rm "received (rmulticast nd)" ask e] False t routes(2) True
          by (simp add: nd1_def Run_def r_routes_def)
      next
        case False
        then show ?thesis
          using rm(3) fair_announce [OF ex f2 [OF that], of valid e rm] routes(2)
          by (auto simp: safe_r_def Run_def r_routes_def)
      qed
      have s: "sends (safe_line cd valid A) (bmulticast nd)
          (B_Multicast cd p (env_ok e) (env_order e) RMulticastPath (enc_RMsg cd rm) (bmulticast nd))"
        by (rule sends_B_Multicast) (use safe_sent [OF p rm(3)] in blast)
      have self: "SelfNodeID nd1 = p" "bmulticast nd1 = bmulticast nd" "nd1\<lparr>bmulticast := bmulticast nd\<rparr> = nd1"
        using n by (simp_all add: nd1_def)
      have copy: "\<lparr>r_ID = r_ID rm, r_Path = r_Path rm, r_Body = r_Body rm\<rparr> = rm" by simp
      let ?B = "B_Multicast cd p (env_ok e) (env_order e) RMulticastPath (enc_RMsg cd rm) (bmulticast nd)"
      note deliver = r_deliver_def rm(2) AddMsgIfNotExist_def False nd1_def [symmetric] self copy Let_def
      have "keeps_fair cd valid ex tr p0 A p l (r_deliver cd ex e msg nd)"
      proof (cases "b_SrcID msg = p")
        case True
        then show ?thesis using run [of "bmulticast nd"] by (simp add: deliver)
      next
        case src: False
        show ?thesis
        proof (cases ?B)
          case None
          then show ?thesis using src by (simp add: deliver keeps_fair_def)
        next
          case (Some r)
          obtain b es er where B: "?B = Some (b, es, er)" using Some by (cases r) simp
          then have b: "b_router b = b_router (bmulticast nd)" "sent (safe_line cd valid A) es" using s by (auto simp: sends_def)
          show ?thesis
            using src B keeps_fair_sent [OF f2 [OF b(1)] b(2)] keeps_fair_after [OF run [OF b(1)] b(2)]
            by (cases er) (simp_all add: deliver)
        qed
      qed
      then show ?thesis unfolding h by (simp add: b_run_path [OF routes(1)] rm(1))
    qed
  qed
qed

lemma fair_collect:
  assumes f: "fair_node cd ex tr p0 A p l nd" and p: "valid p" and u: "valid (env_uuid1 e)"
  shows "keeps_fair cd valid ex tr p0 A p l (node_collect cd e nd)"
proof (cases "waitVotesChannel (totalOrder nd)")
  case Nil
  then show ?thesis by (simp add: node_collect_def collect_vote_def keeps_fair_def)
next
  case (Cons v rest)
  have t: "fair (seen A (received (rmulticast nd))) (delivered l) (totalOrder nd)" and n: "SelfNodeID nd = p" using f by (simp_all add: fair_node_def)
  have new: "fair_node cd ex tr p0 A p l (nd\<lparr>totalOrder := (totalOrder nd)\<lparr>waitVotesChannel := w, waitProposalCounter := c\<rparr>, bmulticast := b\<rparr>)"
    if "b_router b = b_router (bmulticast nd)" for w c b
    by (rule fair_node_update [OF f that _ fair_same [OF t]]) simp_all
  define votes where "votes = (case waitProposalCounter (totalOrder nd) (v_MsgID v) of None \<Rightarrow> [] | Some vs \<Rightarrow> vs) @ [v]"
  let ?r = "aggregateVotesAndMulticast cd p (env_ok e) (env_order e) (env_uuid1 e) votes (bmulticast nd)"
  note s = sendsD [OF safe_aggregate [OF p u, of A "bmulticast nd"]]
  note collect = node_collect_def collect_vote_def Cons Let_def n votes_def [symmetric]
  show ?thesis
  proof (cases "length votes < MemberCount (bmulticast nd)")
    case True
    then show ?thesis using keeps_fair_quiet [OF new [of "bmulticast nd"]] by (simp add: collect del: append.simps length_append)
  next
    case False
    show ?thesis
    proof (cases ?r)
      case None
      then show ?thesis using False by (simp add: collect keeps_fair_def del: append.simps length_append)
    next
      case (Some r)
      obtain b es err where r: "?r = Some (b, es, err)" using Some by (cases r) simp
      then show ?thesis using False keeps_fair_sent [OF new [OF s(1) [OF r]] s(2) [OF r]] by (simp add: collect del: append.simps length_append)
    qed
  qed
qed

lemma recount_sends:
  assumes p: "valid p"
  shows "\<forall>u\<in>set (map snd mids). valid u \<Longrightarrow> recount_loop cd p ok order n mids (t, b) = Some ((t', b'), es, err) \<Longrightarrow>
     holdQueue t' = holdQueue t \<and> t_router t' = t_router t \<and> holdQueueMap t' = holdQueueMap t \<and> b_router b' = b_router b \<and> sent (safe_line cd valid A) es"
proof (induction mids arbitrary: t b t' b' es err)
  case (Cons m mids)
  obtain mid uuid where m: "m = (mid, uuid)" by (cases m)
  have u: "valid uuid" "\<forall>u\<in>set (map snd mids). valid u" using Cons.prems(1) by (auto simp: m)
  show ?case
  proof (cases "waitProposalCounter t mid")
    case None
    then show ?thesis using Cons.IH [OF u(2)] Cons.prems(2) by (simp add: m)
  next
    case (Some votes)
    show ?thesis
    proof (cases "int (length votes) < n")
      case True
      then show ?thesis using Cons.IH [OF u(2)] Cons.prems(2) Some by (simp add: m)
    next
      case False
      let ?t = "t\<lparr>waitProposalCounter := (waitProposalCounter t)(mid := None)\<rparr>"
      obtain b1 es1 er1 es2 er2 where r: "aggregateVotesAndMulticast cd p ok order uuid votes b = Some (b1, es1, er1)"
          "recount_loop cd p ok order n mids (?t, b1) = Some ((t', b'), es2, er2)" "es = es1 @ es2"
        using Cons.prems(2) Some False by (auto simp: m split: option.splits)
      then show ?thesis
        using Cons.IH [OF u(2) r(2)] safe_aggregate [OF p u(1), of A b ok order votes] by (simp add: sends_def)
    qed
  qed
qed simp

lemma fair_recount:
  assumes f: "fair_node cd ex tr p0 A p l nd" and p: "valid p" and u: "\<forall>u\<in>set (map snd mids). valid u"
  shows "keeps_fair cd valid ex tr p0 A p l (node_member_update cd e n mids nd)"
proof (cases "node_member_update cd e n mids nd")
  case (Some r)
  have t: "fair (seen A (received (rmulticast nd))) (delivered l) (totalOrder nd)" and n: "SelfNodeID nd = p" using f by (simp_all add: fair_node_def)
  from Some obtain t' b' es err where r: "r = (nd\<lparr>totalOrder := t', bmulticast := b'\<rparr>, es, err)"
      "recount_loop cd p (env_ok e) (env_order e) (case n of Some n \<Rightarrow> n | None \<Rightarrow> - 1) mids (totalOrder nd, bmulticast nd)
        = Some ((t', b'), es, err)"
    by (auto simp: node_member_update_def collect_update_def n split: option.splits)
  show ?thesis
    using recount_sends [OF p u r(2), of A] fair_node_update [OF f _ _ fair_same [OF t]]
    unfolding Some r(1) by (intro keeps_fair_sent) auto
qed (simp add: keeps_fair_def)

text \<open>A multicast asks with a new message id.\<close>

lemma fair_multicast:
  assumes f: "fair_node cd ex tr p0 A p l nd" and p: "valid p" and u: "valid (env_uuid1 e)" "valid (env_uuid2 e)"
    and new: "\<And>w. A (env_uuid1 e @ w) = None"
  shows "\<exists>A'. A \<subseteq>\<^sub>m A'
    \<and> (\<forall>mid\<in>dom A' - dom A. \<exists>d. data = Inr d \<and> enc_TOMsg cd \<lparr>t_Path = path, t_Body = d\<rparr> = Inr (body_in A' mid)
         \<and> mid = env_uuid1 e @ digest cd (body_in A' mid))
    \<and> keeps_fair cd valid ex tr p0 A' p l (node_multicast cd e path data nd)"
proof (cases "\<exists>tomsg bytes. NewTOMsg path data = Inr tomsg \<and> enc_TOMsg cd tomsg = Inr bytes")
  case True
  then obtain tomsg bytes where m: "NewTOMsg path data = Inr tomsg" "enc_TOMsg cd tomsg = Inr bytes" by blast
  let ?ask = "NewTOAskProposalSeqMsg cd (env_uuid1 e) p bytes"
  have n: "SelfNodeID nd = p" using f by (simp add: fair_node_def)
  have "valid (a_SrcID ?ask)" "valid (a_MsgID ?ask)"
    using p u(1) valid_append valid_digest by (auto simp: NewTOAskProposalSeqMsg_def)
  then obtain d where d: "enc_Ask cd ?ask = Inr d" "dec_Ask cd d = Inr ?ask" using Ask_roundtrip by blast
  let ?rm = "\<lparr>r_ID = env_uuid2 e @ ''-'' @ digest cd d, r_Path = AskProposalSeqPath, r_Body = d\<rparr>"
  define A' where "A' = A(a_MsgID ?ask \<mapsto> (r_ID ?rm, bytes))"
  have le: "A \<subseteq>\<^sub>m A'" using new by (auto simp: A'_def map_le_def dom_def NewTOAskProposalSeqMsg_def)
  have "safe_r cd valid A' ?rm"
    using d(2) valid_append [OF u(2) valid_append [OF valid_dash valid_digest]]
    by (simp add: safe_r_def A'_def NewTOAskProposalSeqMsg_def)
  then have s: "sends (safe_line cd valid A') (bmulticast nd)
      (R_Multicast cd p (env_ok e) (env_order e) (env_uuid2 e) AskProposalSeqPath (Inr d) (bmulticast nd))"
    by (intro sends_R_Multicast) (use safe_sent [OF p] in blast)
  have f': "fair_node cd ex tr p0 A' p l (nd\<lparr>bmulticast := b\<rparr>)" if "b_router b = b_router (bmulticast nd)" for b
    using fair_node_mono [OF f le] that by (simp add: fair_node_def b_routes_def)
  have "keeps_fair cd valid ex tr p0 A' p l (node_multicast cd e path data nd)"
    using s f' by (auto simp: node_multicast_def TO_Multicast_def m d(1) n sends_def intro!: keeps_fair_sent split: option.splits)
  then show ?thesis using le m by (intro exI [of _ A'])
      (auto simp: A'_def NewTOAskProposalSeqMsg_def NewTOMsg_def body_in_def split: sum.splits)
next
  case False
  then have "keeps_fair cd valid ex tr p0 A p l (node_multicast cd e path data nd)"
    using f by (auto simp: node_multicast_def TO_Multicast_def intro!: keeps_fair_quiet split: sum.splits)
  then show ?thesis by (intro exI [of _ A]) simp
qed

end

section \<open>A group in which members crash\<close>

text \<open>The message \<open>mid\<close> with the body \<open>y\<close> was multicast by a call of a member.\<close>

definition multicast_by :: "'b codec \<Rightarrow> string set \<Rightarrow> 'b calls \<Rightarrow> string \<Rightarrow> 'b \<Rightarrow> bool" where
  "multicast_by cd M C mid y \<longleftrightarrow>
     (\<exists>q\<in>M. \<exists>path d. C (take 36 mid) = Some (q, path, Inr d) \<and> enc_TOMsg cd \<lparr>t_Path = path, t_Body = d\<rparr> = Inr y
        \<and> mid = take 36 mid @ digest cd y)"

lemma multicast_by_body: "multicast_by cd M C mid y \<Longrightarrow> call_body cd C mid = [y]"
  by (auto simp: multicast_by_def call_body_def)

definition fair_system ::
  "'b codec \<Rightarrow> (string \<Rightarrow> bool) \<Rightarrow> ('h \<Rightarrow> 'b TOMsg \<Rightarrow> 'p \<Rightarrow> ('p, 'b effect) call) \<Rightarrow> string set \<Rightarrow> 'h router \<Rightarrow> 'p \<Rightarrow>
     ('b, 'h, 'p) faulty \<Rightarrow> (string \<Rightarrow> (string \<times> 'b) option) \<Rightarrow> bool" where
  "fair_system cd valid ex M tr p0 f A \<longleftrightarrow>
     (\<forall>mid\<in>dom A. take 36 mid \<in> used (sys f) \<and> multicast_by cd M (calls f) mid (body_in A mid))
   \<and> (\<forall>p\<in>M - dead f. fair_node cd ex tr p0 A p (log (sys f) p) (nodes (sys f) p))
   \<and> (\<forall>p\<in>M. distinct (delivered (log (sys f) p)) \<and> set (delivered (log (sys f) p)) \<subseteq> dom A)
   \<and> (\<forall>p\<in>M. \<forall>q. \<forall>x\<in>set (chan (sys f) p q). safe_line cd valid A x)"

lemma fair_systemD:
  assumes "fair_system cd valid ex M tr p0 f A"
  shows "mid \<in> dom A \<Longrightarrow> take 36 mid \<in> used (sys f)"
    "mid \<in> dom A \<Longrightarrow> multicast_by cd M (calls f) mid (body_in A mid)"
    "p \<in> M \<Longrightarrow> p \<notin> dead f \<Longrightarrow> fair_node cd ex tr p0 A p (log (sys f) p) (nodes (sys f) p)"
    "p \<in> M \<Longrightarrow> distinct (delivered (log (sys f) p))"
    "p \<in> M \<Longrightarrow> set (delivered (log (sys f) p)) \<subseteq> dom A"
    "p \<in> M \<Longrightarrow> x \<in> set (chan (sys f) p q) \<Longrightarrow> safe_line cd valid A x"
  using assms unfolding fair_system_def by blast+

lemma fair_systemI:
  assumes "\<And>mid. mid \<in> dom A \<Longrightarrow> take 36 mid \<in> used (sys f) \<and> multicast_by cd M (calls f) mid (body_in A mid)"
    and "\<And>p. p \<in> M \<Longrightarrow> p \<notin> dead f \<Longrightarrow> fair_node cd ex tr p0 A p (log (sys f) p) (nodes (sys f) p)"
    and "\<And>p. p \<in> M \<Longrightarrow> distinct (delivered (log (sys f) p)) \<and> set (delivered (log (sys f) p)) \<subseteq> dom A"
    and "\<And>p q x. p \<in> M \<Longrightarrow> x \<in> set (chan (sys f) p q) \<Longrightarrow> safe_line cd valid A x"
  shows "fair_system cd valid ex M tr p0 f A"
  unfolding fair_system_def by (intro conjI ballI allI) (use assms in blast)+

text \<open>The first part of the effects of a handler run.\<close>

lemma take_writes: "set (writes_to d (take k es)) \<subseteq> set (writes_to d es)"
  using append_take_drop_id [of k es] writes_to_append [of d "take k es" "drop k es"] by (metis Un_upper1 set_append)

lemma used_commit: "used (commit p us nd es s) = used s \<union> us"
  by (simp add: commit_def)

lemma take_delivered: "prefix (delivered (take k es)) (delivered es)"
  using append_take_drop_id [of k es] delivered_append [of "take k es" "drop k es"] by (metis prefixI)

text \<open>
  The node \<open>p\<close> made the first \<open>k\<close> effects of a handler run, all of them unless it is dead then.
\<close>

lemma fair_system_commit:
  assumes s: "fair_system cd valid ex M tr p0 f0 A" and A: "A \<subseteq>\<^sub>m A'"
    and calls: "\<forall>mid\<in>dom A'. take 36 mid \<in> used (sys f0) \<union> us \<and> multicast_by cd M (calls f0) mid (body_in A' mid)"
    and k: "keeps_fair cd valid ex tr p0 A' p (log (sys f0) p) (Some (nd, es, err))" and p: "p \<in> M"
    and D: "dead f0 \<subseteq> D" "p \<in> D \<or> take k es = es"
  shows "fair_system cd valid ex M tr p0 ((commit_counts p us nd (take k es) f0)\<lparr>dead := D\<rparr>) A'"
proof -
  let ?s = "commit p us nd (take k es) (sys f0)"
  have k: "fair_node cd ex tr p0 A' p (log (sys f0) p @ es) nd"
    "\<And>d x. x \<in> set (writes_to d es) \<Longrightarrow> safe_line cd valid A' x" using k by (simp_all add: keeps_fair_def)
  have le: "dom A \<subseteq> dom A'" using A by (rule map_le_implies_dom_le)
  have nodes: "fair_node cd ex tr p0 A' q (log ?s q) (nodes ?s q)" if q: "q \<in> M" "q \<notin> D" for q
  proof (cases "q = p")
    case True
    then have "take k es = es" using D(2) q(2) by blast
    then show ?thesis using k(1) True by (simp add: commit_def)
  next
    case False
    have "fair_node cd ex tr p0 A q (log (sys f0) q) (nodes (sys f0) q)"
      using fair_systemD(3) [OF s q(1)] q(2) D(1) by blast
    then show ?thesis using fair_node_mono [OF _ A] False by (simp add: commit_def)
  qed
  have known: "distinct (delivered (log ?s q)) \<and> set (delivered (log ?s q)) \<subseteq> dom A'" if q: "q \<in> M" for q
  proof (cases "q = p")
    case True
    have l: "log ?s p = log (sys f0) p @ take k es" by (simp add: commit_def)
    obtain ys where "delivered es = delivered (take k es) @ ys" using take_delivered [of k es] by (auto simp: prefix_def)
    then have "delivered (log (sys f0) p @ es) = delivered (log ?s p) @ ys" by (simp add: l)
    with fair_node_known [OF k(1)] have "distinct (delivered (log ?s p) @ ys)" "set (delivered (log ?s p) @ ys) \<subseteq> dom A'"
      by metis+
    then show ?thesis using True by auto
  next
    case False
    then show ?thesis using fair_systemD(4,5) [OF s q] le by (simp add: commit_def subset_trans [OF _ le])
  qed
  have lines: "safe_line cd valid A' x" if "q \<in> M" "x \<in> set (chan ?s q d)" for q d x
  proof -
    have "x \<in> set (chan (sys f0) q d) \<or> x \<in> set (writes_to d es)"
      using that(2) take_writes [of d k es] by (cases "q = p") (auto simp: commit_def)
    then show ?thesis using fair_systemD(6) [OF s that(1)] k(2) safe_line_mono [OF _ A] by blast
  qed
  show ?thesis
    by (rule fair_systemI) (use calls nodes known lines in \<open>simp_all add: commit_counts_def used_commit\<close>)
qed

lemma fair_initial:
  fixes cd :: "'b codec" and tr :: "'h router" and p0 :: 'p
  shows "fair_system cd valid ex (set ms) tr p0 (faulty_initial ms tr p0) Map.empty"
proof -
  have "wired (set ms) tr p (started ms tr p0 p :: ('b, 'h, 'p) node)" for p by (rule started_wired)
  then have "fair_node cd ex tr p0 Map.empty p [] (started ms tr p0 p :: ('b, 'h, 'p) node)" for p
    by (simp add: fair_node_def wired_def fair_def started_fields empty_heap)
  then show ?thesis by (simp add: fair_system_def initial_def faulty_initial_def)
qed

text \<open>A call with a new uuid leaves the others as they are.\<close>

lemma multicast_by_new:
  "u \<noteq> take 36 mid \<Longrightarrow> multicast_by cd M C mid y \<Longrightarrow> multicast_by cd M (C(u \<mapsto> c)) mid y"
  by (simp add: multicast_by_def)

lemma fair_system_take:
  assumes "fair_system cd valid ex M tr p0 f A"
  shows "fair_system cd valid ex M tr p0 (f\<lparr>sys := take_line q p (sys f)\<rparr>) A"
proof -
  have "set (chan (take_line q p (sys f)) p' q') \<subseteq> set (chan (sys f) p' q')" for p' q'
    by (rule take_line_subset)
  then have "safe_line cd valid A x" if "p' \<in> M" "x \<in> set (chan (take_line q p (sys f)) p' q')" for p' q' x
    using fair_systemD(6) [OF assms that(1)] that(2) by blast
  moreover have "nodes (take_line q p (sys f)) = nodes (sys f)" "log (take_line q p (sys f)) = log (sys f)"
    "used (take_line q p (sys f)) = used (sys f)" by (simp_all add: take_line_def)
  ultimately show ?thesis using fair_systemD [OF assms] by (intro fair_systemI) simp_all
qed

lemma handler_run_fair:
  fixes ex :: "'h \<Rightarrow> 'b TOMsg \<Rightarrow> 'p \<Rightarrow> ('p, 'b effect) call"
  assumes cd: "message_codec cd valid" and ex: "only_prints ex" and M: "\<forall>p\<in>M. valid p"
    and p: "p \<in> M - dead f" and run: "handler_run cd valid ex M f p us f0 nd es"
    and s: "fair_system cd valid ex M tr p0 f A" and D: "dead f \<subseteq> D" "p \<in> D \<or> take k es = es"
  shows "\<exists>A'. fair_system cd valid ex M tr p0 ((commit_counts p us nd (take k es) f0)\<lparr>dead := D\<rparr>) A'"
proof -
  have fp: "fair_node cd ex tr p0 A p (log (sys f) p) (nodes (sys f) p)" "valid p" "p \<in> M"
    using p fair_systemD(3) [OF s] M by auto
  have calls: "\<forall>mid\<in>dom A. take 36 mid \<in> used (sys f) \<and> multicast_by cd M (calls f) mid (body_in A mid)"
    using fair_systemD(1,2) [OF s] by blast
  show ?thesis
    using run
  proof cases
    case (multicast e path data err)
    let ?u = "env_uuid1 e"
    have us: "valid ?u" "valid (env_uuid2 e)" "length ?u = 36" "?u \<notin> used (sys f)"
      using multicast(4,5) by (simp_all add: fresh_def)
    have old: "take 36 mid \<noteq> ?u" if "mid \<in> dom A" for mid using that calls us(4) by metis
    have "A (?u @ w) = None" for w using old [of "?u @ w"] us(3) by auto
    from message_codec.fair_multicast [OF cd fp(1,2) us(1,2) this, where path = path and data = data] obtain A' where A': "A \<subseteq>\<^sub>m A'"
      "\<forall>mid\<in>dom A' - dom A. \<exists>d. data = Inr d \<and> enc_TOMsg cd \<lparr>t_Path = path, t_Body = d\<rparr> = Inr (body_in A' mid)
         \<and> mid = ?u @ digest cd (body_in A' mid)"
      "keeps_fair cd valid ex tr p0 A' p (log (sys f) p) (Some (nd, es, err))"
      using multicast(6) by metis
    let ?f = "f\<lparr>calls := (calls f)(?u \<mapsto> (p, path, data))\<rparr>"
    have s0: "fair_system cd valid ex M tr p0 ?f A"
      by (rule fair_systemI)
         (use fair_systemD [OF s] multicast_by_new [OF old [symmetric] fair_systemD(2) [OF s]] in simp_all)
    have c: "\<forall>mid\<in>dom A'. take 36 mid \<in> used (sys f0) \<union> us \<and> multicast_by cd M (calls f0) mid (body_in A' mid)"
      unfolding multicast(1,2)
    proof
      fix mid assume mid: "mid \<in> dom A'"
      show "take 36 mid \<in> used (sys ?f) \<union> {?u, env_uuid2 e} \<and> multicast_by cd M (calls ?f) mid (body_in A' mid)"
      proof (cases "mid \<in> dom A")
        case True
        then have "body_in A' mid = body_in A mid" using map_body_in [OF _ A'(1), of "[mid]"] by simp
        then show ?thesis using fair_systemD(1,2) [OF s0 True] by simp
      next
        case False
        then obtain d where d: "data = Inr d" "enc_TOMsg cd \<lparr>t_Path = path, t_Body = d\<rparr> = Inr (body_in A' mid)"
          "mid = ?u @ digest cd (body_in A' mid)" using A'(2) mid by blast
        have "take 36 mid = ?u" using us(3) by (subst d(3)) simp
        then show ?thesis using d fp(3) unfolding multicast_by_def by auto
      qed
    qed
    have "keeps_fair cd valid ex tr p0 A' p (log (sys f0) p) (Some (nd, es, err))" "dead f0 \<subseteq> D"
      using A'(3) D(1) by (simp_all add: multicast(2))
    from fair_system_commit [OF s0 [folded multicast(2)] A'(1) c this(1) fp(3) this(2) D(2)] show ?thesis by (intro exI)
  next
    case (receive q e line rest err)
    have "safe_line cd valid A line" using fair_systemD(6) [OF s receive(3)] receive(5) by (metis list.set_intros(1))
    from message_codec.fair_line [OF cd ex fp(1,2) this, of e]
    have "keeps_fair cd valid ex tr p0 A p (log (sys f0) p) (Some (nd, es, err))"
      by (simp add: receive take_line_def)
    moreover have "\<forall>mid\<in>dom A. take 36 mid \<in> used (sys f0) \<union> us \<and> multicast_by cd M (calls f0) mid (body_in A mid)"
      "dead f0 \<subseteq> D" using calls D(1) by (simp_all add: receive(2) take_line_def)
    moreover have "fair_system cd valid ex M tr p0 f0 A" unfolding receive(2) by (rule fair_system_take [OF s])
    ultimately show ?thesis using fair_system_commit [OF _ map_le_refl _ _ fp(3) _ D(2)] by (intro exI)
  next
    case (collect e err)
    have "valid (env_uuid1 e)" using collect(4) by (simp add: fresh_def)
    from message_codec.fair_collect [OF cd fp(1,2) this]
    have "keeps_fair cd valid ex tr p0 A p (log (sys f) p) (Some (nd, es, err))" by (simp add: collect(5))
    moreover have "\<forall>mid\<in>dom A. take 36 mid \<in> used (sys f) \<union> us \<and> multicast_by cd M (calls f) mid (body_in A mid)"
      using calls by simp
    ultimately show ?thesis
      unfolding collect(2) using fair_system_commit [OF s map_le_refl _ _ fp(3) D] by (intro exI)
  next
    case (recount e n ns mids err)
    have "\<forall>u\<in>set (map snd mids). valid u" using recount(8) by (auto simp: fresh_def)
    from message_codec.fair_recount [OF cd fp(1,2) this, of e "Some (int n)"]
    have "keeps_fair cd valid ex tr p0 A p (log (sys f) p) (Some (nd, es, err))" by (simp only: recount(9))
    then have "keeps_fair cd valid ex tr p0 A p (log (sys f0) p) (Some (nd, es, err))" by (simp add: recount(2))
    moreover have "fair_system cd valid ex M tr p0 f0 A"
      unfolding recount(2) by (rule fair_systemI) (use fair_systemD [OF s] in simp_all)
    moreover have "\<forall>mid\<in>dom A. take 36 mid \<in> used (sys f0) \<union> us \<and> multicast_by cd M (calls f0) mid (body_in A mid)"
      "dead f0 \<subseteq> D" using calls D(1) by (simp_all add: recount(2))
    ultimately show ?thesis
      using fair_system_commit [OF _ map_le_refl _ _ fp(3) _ D(2)] by (intro exI)
  qed
qed

lemma faulty_step_fair:
  assumes "message_codec cd valid" "only_prints ex" "\<forall>p\<in>M. valid p"
    and step: "faulty_step cd valid ex M f f'" and s: "fair_system cd valid ex M tr p0 f A"
  shows "\<exists>A'. fair_system cd valid ex M tr p0 f' A'"
  using step
proof cases
  case (handler p us f0 nd es)
  have "dead f0 = dead f" using handler(3) by cases simp_all
  then have "(commit_counts p us nd es f0)\<lparr>dead := dead f\<rparr> = f'" using handler(1) by (simp add: commit_counts_def)
  then show ?thesis
    using handler_run_fair [OF assms(1-3) handler(2,3) s order_refl, of "length es"] by auto
next
  case (crash_within p us f0 nd es k)
  then show ?thesis using handler_run_fair [OF assms(1-3) crash_within(2,3) s, of "insert p (dead f)" k] by auto
next
  case (crash p)
  have "fair_system cd valid ex M tr p0 f' A"
    unfolding crash(1) by (rule fair_systemI) (use fair_systemD [OF s] in simp_all)
  then show ?thesis by (intro exI)
next
  case (broker p n ns)
  have "fair_system cd valid ex M tr p0 f' A"
    unfolding broker(1) by (rule fair_systemI) (use fair_systemD [OF s] in simp_all)
  then show ?thesis by (intro exI)
qed

lemma faulty_run_fair:
  assumes "message_codec cd valid" "only_prints ex" "\<forall>p\<in>set ms. valid p"
    and "(faulty_step cd valid ex (set ms))\<^sup>*\<^sup>* (faulty_initial ms tr p0) f"
  shows "\<exists>A. fair_system cd valid ex (set ms) tr p0 f A"
  using assms(4)
proof (induction rule: rtranclp_induct)
  case base
  show ?case using fair_initial [of cd valid ex ms tr p0] by auto
next
  case (step f f')
  then show ?case using faulty_step_fair [OF assms(1-3) step(2)] by blast
qed

text \<open>The summary: what a group in which members crash delivers, and the state it leaves.\<close>

lemma fair_system_summary:
  assumes s: "fair_system cd valid ex M tr p0 f A" and p: "p \<in> M"
  shows "distinct (delivered (log (sys f) p))"
    "\<forall>mid\<in>set (delivered (log (sys f) p)). \<exists>y. multicast_by cd M (calls f) mid y"
    "p \<notin> dead f \<Longrightarrow>
       replay cd ex tr (concat (map (call_body cd (calls f)) (delivered (log (sys f) p)))) p0
         = Some (processor (nodes (sys f) p), printed (log (sys f) p))"
proof -
  have known: "set (delivered (log (sys f) p)) \<subseteq> dom A"
    and calls: "\<forall>mid\<in>dom A. multicast_by cd M (calls f) mid (body_in A mid)"
    using fair_systemD(2,5) [OF s] p by blast+
  then show "\<forall>mid\<in>set (delivered (log (sys f) p)). \<exists>y. multicast_by cd M (calls f) mid y" by blast
  show "distinct (delivered (log (sys f) p))" using fair_systemD(4) [OF s p] .
  have "concat (map (call_body cd (calls f)) ds) = map (body_in A) ds" if "set ds \<subseteq> dom A" for ds
    using that by (induction ds) (simp_all add: multicast_by_body [OF bspec [OF calls]])
  from this [OF known] show "p \<notin> dead f \<Longrightarrow>
       replay cd ex tr (concat (map (call_body cd (calls f)) (delivered (log (sys f) p)))) p0
         = Some (processor (nodes (sys f) p), printed (log (sys f) p))"
    using fair_systemD(3) [OF s p] unfolding fair_node_def by simp
qed

end
