(* ===== verification/Lock_Gap.thy ===== *)
theory Lock_Gap
  imports Crash_Integrity Quiescence
begin

text \<open>
  What happens between the two critical sections of the handler of a request
  (\<open>total_ording.go\<close>): it numbers the message under the locks of the counters, releases them,
  and only then takes the lock of the hold queue. Another connection may run a handler of the
  same node in between. This theory gives the two sections steps of their own. When no node
  uses that gap for another activity, the runs are those of whole handlers.
\<close>

section \<open>The handler of a request in two parts\<close>

text \<open>
  The first part, from the line to the end of the first critical section: the request is seen
  for the first time, relayed unless this node sent it, and numbered. What is left to do is the
  request and its number.
\<close>

definition begin_ask ::
  "'b codec \<Rightarrow> env \<Rightarrow> 'b \<Rightarrow> ('b, 'h, 'p) node \<Rightarrow>
     (('b, 'h, 'p) node \<times> 'b effect list \<times> 'b TOAskProposalSeqMsg \<times> uint64) option" where
  "begin_ask cd e line nd =
     (let msg = fst (dec_BMsg cd line) in
      if b_router (bmulticast nd) BMulticastPath \<noteq> Some BDeliver \<or> b_router (bmulticast nd) (b_Path msg) \<noteq> Some RDeliver
      then None
      else case dec_RMsg cd (b_Body msg) of
        Inl er \<Rightarrow> None
      | Inr rmsg \<Rightarrow>
          (let (r, new) = AddMsgIfNotExist (r_ID rmsg) (rmulticast nd) in
           if \<not> new \<or> r_router r (r_Path rmsg) \<noteq> Some AskProposalSeq then None
           else case (if b_SrcID msg \<noteq> SelfNodeID nd
                      then B_Multicast cd (SelfNodeID nd) (env_ok e) (env_order e) RMulticastPath (enc_RMsg cd rmsg) (bmulticast nd)
                      else Some (bmulticast nd, [], None)) of
             Some (b, es, None) \<Rightarrow>
               (case dec_Ask cd (r_Body rmsg) of
                  Inl er \<Rightarrow> None
                | Inr askMsg \<Rightarrow>
                    (let (seq, t) = number_ask (totalOrder nd)
                     in Some (nd\<lparr>rmulticast := r, bmulticast := b, totalOrder := t\<rparr>, es, askMsg, seq)))
           | _ \<Rightarrow> None))"

text \<open>The second part: the message is held and its sender gets the reply.\<close>

definition end_ask ::
  "'b codec \<Rightarrow> env \<Rightarrow> 'b TOAskProposalSeqMsg \<Rightarrow> uint64 \<Rightarrow> ('b, 'h, 'p) node \<Rightarrow>
     (('b, 'h, 'p) node, 'b effect) call" where
  "end_ask cd e askMsg seq nd =
     (case hold_and_reply cd (SelfNodeID nd) (env_ok e) askMsg seq (totalOrder nd, bmulticast nd) of
        None \<Rightarrow> None
      | Some ((t, b), es, err) \<Rightarrow> Some (nd\<lparr>totalOrder := t, bmulticast := b\<rparr>, es, err))"

text \<open>One right after the other they are the handler of the line.\<close>

lemma begin_end_ask:
  fixes nd :: "('b, 'h, 'p) node"
  assumes "begin_ask cd e line nd = Some (nd1, es1, askMsg, seq)"
  shows "handle_line cd exec e line nd =
     (case end_ask cd e askMsg seq nd1 of None \<Rightarrow> None | Some (nd2, es2, err) \<Rightarrow> Some (nd2, es1 @ es2, err))"
proof -
  obtain msg er where m: "dec_BMsg cd line = (msg, er)" by (cases "dec_BMsg cd line")
  let ?r = "rmulticast nd"
  from assms obtain rmsg b where
    d: "b_router (bmulticast nd) BMulticastPath = Some BDeliver" "b_router (bmulticast nd) (b_Path msg) = Some RDeliver"
      "dec_RMsg cd (b_Body msg) = Inr rmsg" "r_ID rmsg \<notin> received ?r" "r_router ?r (r_Path rmsg) = Some AskProposalSeq"
    and b: "(if b_SrcID msg \<noteq> SelfNodeID nd
        then B_Multicast cd (SelfNodeID nd) (env_ok e) (env_order e) RMulticastPath (enc_RMsg cd rmsg) (bmulticast nd)
        else Some (bmulticast nd, [], None)) = Some (b, es1, None)"
    and n: "dec_Ask cd (r_Body rmsg) = Inr askMsg" "seq = next_proposal (totalOrder nd)"
      "nd1 = nd\<lparr>rmulticast := ?r\<lparr>received := insert (r_ID rmsg) (received ?r)\<rparr>, bmulticast := b,
         totalOrder := (totalOrder nd)\<lparr>maxProposalSeqNumOfSelf := seq\<rparr>\<rparr>"
    by (auto simp: begin_ask_def m AddMsgIfNotExist_def number_ask_def Let_def
        split: if_splits sum.splits option.splits prod.splits)
  have line: "handle_line cd exec e line nd = r_deliver cd exec e msg nd"
    by (simp add: handle_line_def m b_run.simps [of cd exec e BMulticastPath] b_run.simps [of cd exec e "b_Path msg"] d(1,2))
  have copy: "\<lparr>r_ID = r_ID rmsg, r_Path = r_Path rmsg, r_Body = r_Body rmsg\<rparr> = rmsg" by simp
  show ?thesis
    unfolding line r_deliver_def end_ask_def n(3)
    using b d(3-5) n(1,2)
    by (auto simp: AddMsgIfNotExist_def copy Run_def exec_r_def handle_ask_def number_ask_def Let_def
        split: if_splits option.splits)
qed

section \<open>The system\<close>

text \<open>
  \<open>gaps\<close> holds for every node the requests that it has numbered and not yet held; \<open>called\<close> is
  the record of the calls of \<open>Multicast\<close>.
\<close>

record ('b, 'h, 'p) gapped =
  base :: "('b, 'h, 'p) system"
  gaps :: "string \<Rightarrow> ('b TOAskProposalSeqMsg \<times> uint64) list"
  called :: "'b calls"

text \<open>
  The steps of a group without failures. With \<open>overlap\<close> a node may do anything while the
  handler of a request is in the gap; without, it first finishes that handler. Nodes never wait
  for each other.
\<close>

inductive gap_step ::
  "'b codec \<Rightarrow> (string \<Rightarrow> bool) \<Rightarrow> ('h \<Rightarrow> 'b TOMsg \<Rightarrow> 'p \<Rightarrow> ('p, 'b effect) call) \<Rightarrow> string set \<Rightarrow> bool \<Rightarrow>
     ('b, 'h, 'p) gapped \<Rightarrow> ('b, 'h, 'p) gapped \<Rightarrow> bool"
  for cd valid exec M overlap where
  multicast: "p \<in> M \<Longrightarrow> overlap \<or> gaps g p = [] \<Longrightarrow> calm M e \<Longrightarrow>
     fresh valid (base g) (env_uuid1 e) \<Longrightarrow> fresh valid (base g) (env_uuid2 e) \<Longrightarrow>
     node_multicast cd e path data (nodes (base g) p) = Some (nd, es, err) \<Longrightarrow>
     gap_step cd valid exec M overlap g
       (g\<lparr>base := commit p {env_uuid1 e, env_uuid2 e} nd es (base g), called := (called g)(env_uuid1 e \<mapsto> (p, path, data))\<rparr>)"
| receive: "p \<in> M \<Longrightarrow> overlap \<or> gaps g p = [] \<Longrightarrow> calm M e \<Longrightarrow> q \<in> M \<Longrightarrow> chan (base g) q p = line # rest \<Longrightarrow>
     handle_line cd exec e line (nodes (base g) p) = Some (nd, es, err) \<Longrightarrow>
     gap_step cd valid exec M overlap g (g\<lparr>base := commit p {} nd es (take_line q p (base g))\<rparr>)"
| collect: "p \<in> M \<Longrightarrow> overlap \<or> gaps g p = [] \<Longrightarrow> calm M e \<Longrightarrow> fresh valid (base g) (env_uuid1 e) \<Longrightarrow>
     node_collect cd e (nodes (base g) p) = Some (nd, es, err) \<Longrightarrow>
     gap_step cd valid exec M overlap g (g\<lparr>base := commit p {env_uuid1 e} nd es (base g)\<rparr>)"
| number: "p \<in> M \<Longrightarrow> overlap \<or> gaps g p = [] \<Longrightarrow> calm M e \<Longrightarrow> q \<in> M \<Longrightarrow> chan (base g) q p = line # rest \<Longrightarrow>
     begin_ask cd e line (nodes (base g) p) = Some (nd, es, askMsg, seq) \<Longrightarrow>
     gap_step cd valid exec M overlap g
       (g\<lparr>base := commit p {} nd es (take_line q p (base g)), gaps := (gaps g)(p := gaps g p @ [(askMsg, seq)])\<rparr>)"
| hold: "p \<in> M \<Longrightarrow> calm M e \<Longrightarrow> gaps g p = xs @ (askMsg, seq) # ys \<Longrightarrow>
     end_ask cd e askMsg seq (nodes (base g) p) = Some (nd, es, err) \<Longrightarrow>
     gap_step cd valid exec M overlap g
       (g\<lparr>base := commit p {} nd es (base g), gaps := (gaps g)(p := xs @ ys)\<rparr>)"

definition gap_initial :: "string list \<Rightarrow> 'h router \<Rightarrow> 'p \<Rightarrow> ('b, 'h, 'p) gapped" where
  "gap_initial ms tr p0 = \<lparr>base = initial ms tr p0, gaps = (\<lambda>_. []), called = Map.empty\<rparr>"

inductive gap_run ::
  "'b codec \<Rightarrow> (string \<Rightarrow> bool) \<Rightarrow> ('h \<Rightarrow> 'b TOMsg \<Rightarrow> 'p \<Rightarrow> ('p, 'b effect) call) \<Rightarrow> string list \<Rightarrow>
     'h router \<Rightarrow> 'p \<Rightarrow> bool \<Rightarrow> nat \<Rightarrow> ('b, 'h, 'p) gapped \<Rightarrow> bool"
  for cd valid exec ms tr p0 overlap where
  start: "gap_run cd valid exec ms tr p0 overlap 0 (gap_initial ms tr p0)"
| next_step: "gap_run cd valid exec ms tr p0 overlap n g \<Longrightarrow> gap_step cd valid exec (set ms) overlap g g' \<Longrightarrow>
     gap_run cd valid exec ms tr p0 overlap (Suc n) g'"

text \<open>At rest: no line in flight, no vote waiting and no handler in the gap.\<close>

definition gap_quiescent :: "string set \<Rightarrow> ('b, 'h, 'p) gapped \<Rightarrow> bool" where
  "gap_quiescent M g \<longleftrightarrow> quiescent M (base g) \<and> (\<forall>p\<in>M. gaps g p = [])"

section \<open>Finishing the handlers that are in the gap\<close>

definition calm_env :: env where
  "calm_env = \<lparr>env_ok = (\<lambda>_ _. True), env_order = [], env_uuid1 = [], env_uuid2 = [], env_now = 0\<rparr>"

lemma end_ask_calm: "calm M e \<Longrightarrow> end_ask cd e askMsg seq nd = end_ask cd calm_env askMsg seq nd"
proof -
  assume "calm M e"
  then have "env_ok e = (\<lambda>_ _. True)" by (simp add: calm_def fun_eq_iff)
  then show ?thesis by (simp add: end_ask_def calm_env_def)
qed

definition finish :: "'b codec \<Rightarrow> ('b, 'h, 'p) gapped \<Rightarrow> string \<Rightarrow> ('b, 'h, 'p) node \<times> 'b effect list" where
  "finish cd g p =
     (case gaps g p of
        [] \<Rightarrow> (nodes (base g) p, [])
      | (askMsg, seq) # _ \<Rightarrow>
          (case end_ask cd calm_env askMsg seq (nodes (base g) p) of
             None \<Rightarrow> (nodes (base g) p, [])
           | Some (nd, es, err) \<Rightarrow> (nd, es)))"

definition settle :: "'b codec \<Rightarrow> ('b, 'h, 'p) gapped \<Rightarrow> ('b, 'h, 'p) system" where
  "settle cd g = (base g)
     \<lparr>nodes := \<lambda>p. fst (finish cd g p),
      chan := \<lambda>p d. chan (base g) p d @ writes_to d (snd (finish cd g p)),
      log := \<lambda>p. log (base g) p @ snd (finish cd g p)\<rparr>"

lemma finish_idle: "gaps g p = [] \<Longrightarrow> finish cd g p = (nodes (base g) p, [])"
  by (simp add: finish_def)

lemma finish_cong:
  "gaps g' p = gaps g p \<Longrightarrow> nodes (base g') p = nodes (base g) p \<Longrightarrow> finish cd g' p = finish cd g p"
  by (cases "gaps g p") (auto simp: finish_def split: option.split)

lemma settle_simps [simp]:
  "nodes (settle cd g) p = fst (finish cd g p)"
  "chan (settle cd g) p d = chan (base g) p d @ writes_to d (snd (finish cd g p))"
  "used (settle cd g) = used (base g)"
  "log (settle cd g) p = log (base g) p @ snd (finish cd g p)"
  by (simp_all add: settle_def)

lemma commit_simps [simp]:
  "nodes (commit p us nd es s) q = (if q = p then nd else nodes s q)"
  "chan (commit p us nd es s) q d = chan s q d @ (if q = p then writes_to d es else [])"
  "used (commit p us nd es s) = used s \<union> us"
  "log (commit p us nd es s) q = log s q @ (if q = p then es else [])"
  by (simp_all add: commit_def)

lemma take_line_chan [simp]:
  "chan (take_line q p s) r d = (if r = q \<and> d = p then tl (chan s q p) else chan s r d)"
  by (simp_all add: take_line_def)

lemma settle_node: "gaps g p = [] \<Longrightarrow> nodes (settle cd g) p = nodes (base g) p"
  by (simp add: finish_idle)

text \<open>Two systems agree when they agree in every field; a node commits to its own part of each.\<close>

lemma system_eqI:
  assumes "\<And>p. nodes s p = nodes s' p" "\<And>p d. chan s p d = chan s' p d" "used s = used s'" "\<And>p. log s p = log s' p"
  shows "(s :: ('b, 'h, 'p) system) = s'"
  using assms by (intro system.equality) (auto simp: fun_eq_iff)

text \<open>
  A step of \<open>p\<close> that starts outside the gap is, on the finished states, the step that does the
  rest of the handler at once.
\<close>

lemma settle_commit:
  assumes "gaps g p = []" and g': "base g' = commit p us nd es (base g)" "\<And>q. q \<noteq> p \<Longrightarrow> gaps g' q = gaps g q"
    and fin: "finish cd g' p = (nd', es')"
  shows "settle cd g' = commit p us nd' (es @ es') (settle cd g)"
proof -
  have other: "finish cd g' q = finish cd g q" if "q \<noteq> p" for q
    using that g' by (intro finish_cong) simp_all
  have idle: "finish cd g p = (nodes (base g) p, [])" using assms(1) by (rule finish_idle)
  show ?thesis
  proof (rule system_eqI)
    fix q d
    show "nodes (settle cd g') q = nodes (commit p us nd' (es @ es') (settle cd g)) q"
      by (cases "q = p") (simp_all add: fin other)
    show "chan (settle cd g') q d = chan (commit p us nd' (es @ es') (settle cd g)) q d"
      by (cases "q = p") (simp_all add: fin other idle g'(1))
    show "log (settle cd g') q = log (commit p us nd' (es @ es') (settle cd g)) q"
      by (cases "q = p") (simp_all add: fin other idle g'(1))
  qed (simp add: g'(1))
qed

lemma settle_take:
  assumes "chan (base g) q p = line # rest"
  shows "settle cd (g\<lparr>base := take_line q p (base g)\<rparr>) = take_line q p (settle cd g)"
    "\<exists>rest. chan (settle cd g) q p = line # rest"
proof -
  have fin: "finish cd (g\<lparr>base := take_line q p (base g)\<rparr>) r = finish cd g r" for r
    by (rule finish_cong) simp_all
  show "settle cd (g\<lparr>base := take_line q p (base g)\<rparr>) = take_line q p (settle cd g)"
  proof (rule system_eqI)
    fix r d
    show "chan (settle cd (g\<lparr>base := take_line q p (base g)\<rparr>)) r d = chan (take_line q p (settle cd g)) r d"
      using assms by (auto simp: fin)
  qed (simp_all add: fin)
  show "\<exists>rest. chan (settle cd g) q p = line # rest" using assms by simp
qed

text \<open>Holding the message changes nothing then.\<close>

lemma settle_hold:
  assumes "gaps g p = [(askMsg, seq)]" "end_ask cd calm_env askMsg seq (nodes (base g) p) = Some (nd, es, err)"
  shows "settle cd (g\<lparr>base := commit p {} nd es (base g), gaps := (gaps g)(p := [])\<rparr>) = settle cd g"
proof -
  let ?g = "g\<lparr>base := commit p {} nd es (base g), gaps := (gaps g)(p := [])\<rparr>"
  have f: "finish cd g p = (nd, es)" using assms by (simp add: finish_def)
  have f': "finish cd ?g p = (nd, [])" by (simp add: finish_def)
  have other: "finish cd ?g q = finish cd g q" if "q \<noteq> p" for q
    using that by (intro finish_cong) simp_all
  show ?thesis
  proof (rule system_eqI)
    fix q d
    show "nodes (settle cd ?g) q = nodes (settle cd g) q"
      by (cases "q = p") (simp_all add: f f' other)
    show "chan (settle cd ?g) q d = chan (settle cd g) q d"
      by (cases "q = p") (simp_all add: f f' other)
    show "log (settle cd ?g) q = log (settle cd g) q"
      by (cases "q = p") (simp_all add: f f' other)
  qed simp
qed

text \<open>What a node delivered, printed and handed to its upper layer does not wait for the rest.\<close>

lemma end_ask_quiet:
  assumes "end_ask cd e askMsg seq nd = Some (nd', es, err)"
  shows "delivered es = []" "printed es = []" "processor nd' = processor nd"
proof -
  obtain t b where "nd' = nd\<lparr>totalOrder := t, bmulticast := b\<rparr>"
    "\<exists>er. B_Unicast cd (SelfNodeID nd) (env_ok e) (a_SrcID askMsg) WaitProposalSeqPath
       (enc_Reply cd (NewTOReplyProposalSeqMsg (SelfNodeID nd) (a_MsgID askMsg) seq)) (bmulticast nd) = Some (b, es, er)"
    using assms by (auto simp: end_ask_def hold_and_reply_def Let_def split: option.splits)
  then show "processor nd' = processor nd" "delivered es = []" "printed es = []"
    by (auto simp: B_Unicast_def NewBMsg_def eject_eq split: option.splits sum.splits if_splits)
qed

lemma settle_upper:
  "delivered (log (settle cd g) p) = delivered (log (base g) p)"
  "printed (log (settle cd g) p) = printed (log (base g) p)"
  "processor (nodes (settle cd g) p) = processor (nodes (base g) p)"
proof -
  have "delivered (snd (finish cd g p)) = [] \<and> printed (snd (finish cd g p)) = []
    \<and> processor (fst (finish cd g p)) = processor (nodes (base g) p)"
    using end_ask_quiet [of cd calm_env _ _ "nodes (base g) p"]
    by (auto simp: finish_def split: list.split option.split)
  then show "delivered (log (settle cd g) p) = delivered (log (base g) p)"
    "printed (log (settle cd g) p) = printed (log (base g) p)"
    "processor (nodes (settle cd g) p) = processor (nodes (base g) p)" by simp_all
qed
section \<open>Runs that do not use the gap\<close>

text \<open>A handler run of a group without failures is a step of both coarse relations.\<close>

lemma coarse_step:
  assumes "handler_run cd valid exec M f p us f0 nd es" "p \<in> M" "dead f = {}"
    and "sys_step cd valid exec M (sys f) (commit p us nd es (sys f0))" "run cd valid exec ms tr p0 n (sys f)" "M = set ms"
    and "(faulty_step cd valid exec M)\<^sup>*\<^sup>* (faulty_initial ms tr p0) f"
  shows "run cd valid exec ms tr p0 (Suc n) (sys (commit_counts p us nd es f0))"
    "(faulty_step cd valid exec M)\<^sup>*\<^sup>* (faulty_initial ms tr p0) (commit_counts p us nd es f0)"
proof -
  have "sys (commit_counts p us nd es f0) = commit p us nd es (sys f0)" by (simp add: commit_counts_def)
  then show "run cd valid exec ms tr p0 (Suc n) (sys (commit_counts p us nd es f0))"
    using run.next_step [OF assms(5)] assms(4,6) by simp
  have "faulty_step cd valid exec M f (commit_counts p us nd es f0)"
    using faulty_step.handler [OF _ assms(1)] assms(2,3) by simp
  with assms(7) show "(faulty_step cd valid exec M)\<^sup>*\<^sup>* (faulty_initial ms tr p0) (commit_counts p us nd es f0)"
    by (rule rtranclp.rtrancl_into_rtrancl)
qed

text \<open>The coarse state \<open>f\<close> follows \<open>g\<close>: it has finished what \<open>g\<close> has begun.\<close>

definition follows ::
  "'b codec \<Rightarrow> (string \<Rightarrow> bool) \<Rightarrow> ('h \<Rightarrow> 'b TOMsg \<Rightarrow> 'p \<Rightarrow> ('p, 'b effect) call) \<Rightarrow> string list \<Rightarrow> 'h router \<Rightarrow> 'p \<Rightarrow>
     nat \<Rightarrow> ('b, 'h, 'p) gapped \<Rightarrow> ('b, 'h, 'p) faulty \<Rightarrow> bool" where
  "follows cd valid exec ms tr p0 n g f \<longleftrightarrow>
     sys f = settle cd g \<and> calls f = called g \<and> dead f = {} \<and> (\<forall>p. length (gaps g p) \<le> 1)
   \<and> (\<exists>m\<le>n. run cd valid exec ms tr p0 m (sys f))
   \<and> (faulty_step cd valid exec (set ms))\<^sup>*\<^sup>* (faulty_initial ms tr p0) f"

lemma follows_step:
  assumes f: "follows cd valid exec ms tr p0 n g f" and p: "p \<in> set ms"
    and h: "handler_run cd valid exec (set ms) f p us f0 nd es"
    and s: "sys_step cd valid exec (set ms) (sys f) (commit p us nd es (sys f0))"
    and g': "settle cd g' = commit p us nd es (sys f0)" "calls f0 = called g'" "\<forall>p. length (gaps g' p) \<le> 1"
  shows "\<exists>f'. follows cd valid exec ms tr p0 (Suc n) g' f'"
proof -
  obtain m where m: "m \<le> n" "run cd valid exec ms tr p0 m (sys f)" using f unfolding follows_def by blast
  have d: "dead f = {}" "(faulty_step cd valid exec (set ms))\<^sup>*\<^sup>* (faulty_initial ms tr p0) f"
    using f unfolding follows_def by blast+
  have "dead f0 = {}" using h d(1) by cases simp_all
  then have "follows cd valid exec ms tr p0 (Suc n) g' (commit_counts p us nd es f0)"
    using coarse_step [OF h p d(1) s m(2) refl d(2)] g' m(1) unfolding follows_def
    by (auto simp: commit_counts_def)
  then show ?thesis ..
qed

text \<open>A begun handler can be finished.\<close>

lemma begin_ask_finishes:
  fixes nd :: "('b, 'h, 'p) node"
  assumes "begin_ask cd e line nd = Some (nd1, es, askMsg, seq)" "members_ok M (bmulticast nd)" "calm M e"
  shows "end_ask cd calm_env askMsg seq nd1 \<noteq> None"
proof -
  have loop: "multicast_loop (env_ok e) path bytes (env_order e) (bmulticast nd)
      = Some (bmulticast nd, map (\<lambda>d. Write d bytes) (env_order e), None)" for path and bytes :: 'b
    using assms(3) by (intro multicast_loop_calm [OF assms(2)]) (simp_all add: calm_def)
  have "B_Multicast cd self (env_ok e) (env_order e) path data (bmulticast nd) = Some (b, es', None) \<Longrightarrow> b = bmulticast nd"
    for self path data b es'
    by (auto simp: B_Multicast_def loop split: sum.splits)
  then have "bmulticast nd1 = bmulticast nd"
    using assms(1) by (auto simp: begin_ask_def Let_def split: if_splits sum.splits option.splits prod.splits)
  then have "clients_ok (bmulticast nd1)" using assms(2) by (simp add: members_ok_def)
  then have "B_Unicast cd self ok d path data (bmulticast nd1) \<noteq> None" for self ok d path and data :: "go_error + 'b"
    using clients_okD [of "bmulticast nd1" d]
    by (auto simp: B_Unicast_def Let_def split: option.split sum.split prod.split)
  then show ?thesis by (auto simp: end_ask_def hold_and_reply_def Let_def split: option.splits prod.splits)
qed

lemma gap_step_follows:
  assumes cd: "message_codec cd valid" "only_prints exec" "\<forall>p\<in>set ms. valid p" and n: "n < 2 ^ 64"
    and f: "follows cd valid exec ms tr p0 n g f" and step: "gap_step cd valid exec (set ms) False g g'"
  shows "\<exists>f'. follows cd valid exec ms tr p0 (Suc n) g' f'"
proof -
  have sf: "sys f = settle cd g" "calls f = called g" "dead f = {}" and one: "\<forall>p. length (gaps g p) \<le> 1"
    using f by (simp_all add: follows_def)
  note calm = crash_stop_calm [of "set ms"]
  from step show ?thesis
  proof cases
    case (multicast p e path data nd es err)
    have idle: "gaps g p = []" using multicast(3) by simp
    let ?f0 = "f\<lparr>calls := (calls f)(env_uuid1 e \<mapsto> (p, path, data))\<rparr>"
    have "node_multicast cd e path data (nodes (sys f) p) = Some (nd, es, err)"
      "fresh valid (sys f) (env_uuid1 e)" "fresh valid (sys f) (env_uuid2 e)"
      using multicast(5-7) by (simp_all add: sf finish_idle [OF idle] fresh_def)
    note h = handler_run.multicast [OF _ this(2,3,1), of "set ms" exec] and s = sys_step.multicast [OF multicast(2,4) this(2,3,1), of exec]
    have fin: "finish cd g' p = (nd, [])" unfolding multicast(1) by (simp add: finish_def idle)
    have "settle cd g' = commit p {env_uuid1 e, env_uuid2 e} nd (es @ []) (settle cd g)"
      by (rule settle_commit [OF idle _ _ fin]) (simp_all add: multicast(1))
    then show ?thesis
      using follows_step [OF f multicast(2) h, of g'] s multicast(4) one by (simp add: sf calm multicast(1))
  next
    case (receive p e q line rest nd es err)
    have idle: "gaps g p = []" using receive(3) by simp
    let ?g1 = "g\<lparr>base := take_line q p (base g)\<rparr>"
    note t = settle_take [OF receive(6), of cd]
    obtain rest' where ch: "chan (sys f) q p = line # rest'" using t(2) sf(1) by auto
    have hl: "handle_line cd exec e line (nodes (sys f) p) = Some (nd, es, err)"
      using receive(7) by (simp add: sf finish_idle [OF idle])
    note h = handler_run.receive [OF receive(5) _ ch hl, of valid] and s = sys_step.receive [OF receive(2,5,4) ch hl, of valid]
    have fin: "finish cd g' p = (nd, [])" unfolding receive(1) by (simp add: finish_def idle)
    have "settle cd g' = commit p {} nd (es @ []) (settle cd ?g1)"
      by (rule settle_commit [OF _ _ _ fin]) (simp_all add: receive(1) idle)
    then show ?thesis
      using follows_step [OF f receive(2) h, of g'] s receive(4) one by (simp add: sf calm receive(1) t(1))
  next
    case (collect p e nd es err)
    have idle: "gaps g p = []" using collect(3) by simp
    have c: "node_collect cd e (nodes (sys f) p) = Some (nd, es, err)" "fresh valid (sys f) (env_uuid1 e)"
      using collect(5,6) by (simp_all add: sf finish_idle [OF idle] fresh_def)
    note h = handler_run.collect [OF _ c(2,1), of "set ms" exec] and s = sys_step.collect [OF collect(2,4) c(2,1), of exec]
    have fin: "finish cd g' p = (nd, [])" unfolding collect(1) by (simp add: finish_def idle)
    have "settle cd g' = commit p {env_uuid1 e} nd (es @ []) (settle cd g)"
      by (rule settle_commit [OF idle _ _ fin]) (simp_all add: collect(1))
    then show ?thesis
      using follows_step [OF f collect(2) h, of g'] s collect(4) one by (simp add: sf calm collect(1))
  next
    case (number p e q line rest nd es askMsg seq)
    have idle: "gaps g p = []" using number(3) by simp
    let ?g1 = "g\<lparr>base := take_line q p (base g)\<rparr>"
    note t = settle_take [OF number(6), of cd]
    obtain rest' where ch: "chan (sys f) q p = line # rest'" using t(2) sf(1) by auto
    obtain m where m: "m \<le> n" "run cd valid exec ms tr p0 m (sys f)" using f unfolding follows_def by blast
    have c: "cluster cd valid exec (set ms)" using cd by (simp add: cluster_def cluster_axioms_def)
    obtain G where G: "sys_inv cd valid exec (set ms) tr p0 m (sys f) G" using cluster.run_inv [OF c m(2) refl] m(1) n by auto
    have "members_ok (set ms) (bmulticast (nodes (base g) p))"
      using sys_invD(2) [OF G number(2)] by (simp add: wired_def sf finish_idle [OF idle])
    then obtain nd2 es2 err where e2: "end_ask cd calm_env askMsg seq nd = Some (nd2, es2, err)"
      using begin_ask_finishes [OF number(7) _ number(4)] by auto
    have hl: "handle_line cd exec e line (nodes (sys f) p) = Some (nd2, es @ es2, err)"
      using begin_end_ask [OF number(7), of exec] e2 [folded end_ask_calm [OF number(4)]]
      by (simp add: sf finish_idle [OF idle])
    note h = handler_run.receive [OF number(5) _ ch hl, of valid] and s = sys_step.receive [OF number(2,5,4) ch hl, of valid]
    have fin: "finish cd g' p = (nd2, es2)" unfolding number(1) by (simp add: finish_def idle e2)
    have "settle cd g' = commit p {} nd2 (es @ es2) (settle cd ?g1)"
      by (rule settle_commit [OF _ _ _ fin]) (simp_all add: number(1) idle)
    then show ?thesis
      using follows_step [OF f number(2) h, of g'] s number(4) one by (simp add: sf calm number(1) t(1) idle)
  next
    case (hold p e xs askMsg seq ys nd es err)
    have "length (gaps g p) \<le> 1" using one by blast
    then have gap: "gaps g p = [(askMsg, seq)]" "xs = []" "ys = []" using hold(4) by auto
    have "end_ask cd calm_env askMsg seq (nodes (base g) p) = Some (nd, es, err)" using hold(5) end_ask_calm [OF hold(3)] by metis
    then have "settle cd g' = settle cd g" unfolding hold(1) using settle_hold [OF gap(1)] gap(2,3) by simp
    moreover have "called g' = called g" "\<forall>p. length (gaps g' p) \<le> 1" using one by (simp_all add: hold(1) gap(2,3))
    ultimately have "follows cd valid exec ms tr p0 (Suc n) g' f" using f by (auto simp: follows_def intro: le_SucI)
    then show ?thesis ..
  qed
qed

lemma gap_initial_follows: "follows cd valid exec ms tr p0 0 (gap_initial ms tr p0) (faulty_initial ms tr p0)"
proof -
  have "settle cd (gap_initial ms tr p0) = initial ms tr p0"
    by (rule system_eqI) (simp_all add: finish_def gap_initial_def)
  then show ?thesis by (auto simp: follows_def gap_initial_def faulty_initial_def intro: run.start)
qed

lemma gap_run_follows:
  assumes cd: "message_codec cd valid" "only_prints exec" "\<forall>p\<in>set ms. valid p"
    and run: "gap_run cd valid exec ms tr p0 False n g" and n: "n < 2 ^ 64"
  shows "\<exists>f. follows cd valid exec ms tr p0 n g f"
  using run n
proof (induction rule: gap_run.induct)
  case start
  show ?case by (intro exI) (rule gap_initial_follows)
next
  case (next_step n g g')
  then obtain f where f: "follows cd valid exec ms tr p0 n g f" by auto
  show ?case using gap_step_follows [OF cd _ f next_step(2)] next_step(4) by simp
qed

text \<open>What the theories of the coarse runs say of the finished state.\<close>

lemma gap_run_inv:
  assumes "message_codec cd valid" "only_prints exec" "\<forall>p\<in>set ms. valid p"
    and "gap_run cd valid exec ms tr p0 False n g" "n < 2 ^ 64"
  shows "\<exists>m G. sys_inv cd valid exec (set ms) tr p0 m (settle cd g) G"
proof -
  obtain f where "follows cd valid exec ms tr p0 n g f" using gap_run_follows [OF assms] ..
  then obtain m where m: "m \<le> n" "run cd valid exec ms tr p0 m (settle cd g)" unfolding follows_def by metis
  have "cluster cd valid exec (set ms)" using assms(1-3) by (simp add: cluster_def cluster_axioms_def)
  from cluster.run_inv [OF this m(2) refl] m(1) assms(5) show ?thesis by auto
qed

lemma gap_run_calls:
  assumes "message_codec cd valid" "only_prints exec" "\<forall>p\<in>set ms. valid p"
    and "gap_run cd valid exec ms tr p0 False n g" "n < 2 ^ 64" "p \<in> set ms"
  shows "\<forall>mid\<in>set (delivered (log (base g) p)). \<exists>y. multicast_by cd (set ms) (called g) mid y"
    "replay cd exec tr (concat (map (call_body cd (called g)) (delivered (log (base g) p)))) p0
       = Some (processor (nodes (base g) p), printed (log (base g) p))"
proof -
  obtain f where "follows cd valid exec ms tr p0 n g f" using gap_run_follows [OF assms(1-5)] ..
  then have f: "sys f = settle cd g" "calls f = called g" "dead f = {}"
    "(faulty_step cd valid exec (set ms))\<^sup>*\<^sup>* (faulty_initial ms tr p0) f" unfolding follows_def by blast+
  obtain A where A: "fair_system cd valid exec (set ms) tr p0 f A" using faulty_run_fair [OF assms(1-3) f(4)] ..
  note s = fair_system_summary [OF A assms(6)]
  show "\<forall>mid\<in>set (delivered (log (base g) p)). \<exists>y. multicast_by cd (set ms) (called g) mid y"
    using s(2) unfolding f(1,2) settle_upper .
  show "replay cd exec tr (concat (map (call_body cd (called g)) (delivered (log (base g) p)))) p0
       = Some (processor (nodes (base g) p), printed (log (base g) p))"
    using s(3) unfolding f settle_upper by simp
qed

lemma settle_rest:
  assumes "gap_quiescent M g"
  shows "quiescent M (settle cd g)" "requested cd M (settle cd g) = requested cd M (base g)"
proof -
  have idle: "finish cd g p = (nodes (base g) p, [])" if "p \<in> M" for p
    using that assms by (simp add: gap_quiescent_def finish_idle)
  show "quiescent M (settle cd g)" using assms by (simp add: gap_quiescent_def quiescent_def idle)
  show "requested cd M (settle cd g) = requested cd M (base g)" by (simp add: requested_def idle)
qed

text \<open>Conversely, a run of whole handlers is one that never enters the gap.\<close>

lemma run_gap_run:
  assumes "run cd valid exec ms tr p0 n s"
  shows "\<exists>g. gap_run cd valid exec ms tr p0 overlap n g \<and> base g = s \<and> (\<forall>p. gaps g p = [])"
  using assms
proof (induction rule: run.induct)
  case start
  show ?case using gap_run.start [of cd valid exec ms tr p0 overlap] by (force simp: gap_initial_def)
next
  case (next_step n s s')
  then obtain g where g: "gap_run cd valid exec ms tr p0 overlap n g" "base g = s" "\<forall>p. gaps g p = []" by blast
  have "\<exists>g'. gap_step cd valid exec (set ms) overlap g g' \<and> base g' = s' \<and> (\<forall>p. gaps g' p = [])"
    using next_step(2)
  proof cases
    case (multicast p e path data nd es err)
    then show ?thesis using gap_step.multicast [of p "set ms" overlap g e valid cd path data nd es err exec] g(2,3) by force
  next
    case (receive p q e line rest nd es err)
    then show ?thesis using gap_step.receive [of p "set ms" overlap g e q line rest cd exec nd es err valid] g(2,3) by force
  next
    case (collect p e nd es err)
    then show ?thesis using gap_step.collect [of p "set ms" overlap g e valid cd nd es err exec] g(2,3) by force
  qed
  then show ?case using gap_run.next_step [OF g(1)] by blast
qed

end
