(* ===== verification/Gap_Run.thy ===== *)
theory Gap_Run
  imports Lock_Gap Sample_Run
begin

text \<open>
  Two runs of a group of two nodes with a handler in the gap of its locks: one in which the
  node waits for that handler, and one in which it does not, and the nodes deliver two messages
  in opposite orders although nothing fails.
\<close>

section \<open>Performing a list of actions\<close>

datatype gap_action =
    G_multicast string string string string string  \<comment> \<open>node, path, text and two uuids\<close>
  | G_receive string string                         \<comment> \<open>to, from\<close>
  | G_collect string string                         \<comment> \<open>node and its uuid\<close>
  | G_number string string                          \<comment> \<open>to, from: a request, up to the gap\<close>
  | G_hold string                                   \<comment> \<open>the rest of it\<close>

fun gap_perform ::
  "string list \<Rightarrow> bool \<Rightarrow> gap_action \<Rightarrow> (wire, unit, string list) gapped \<Rightarrow> (wire, unit, string list) gapped option" where
  "gap_perform ms overlap (G_multicast p path x u1 u2) g =
     (if p \<in> set ms \<and> (overlap \<or> gaps g p = []) \<and> fresh (\<lambda>_. True) (base g) u1 \<and> fresh (\<lambda>_. True) (base g) u2 then
        case node_multicast symbolic_codec (sample_env ms u1 u2) path (Inr (Data x)) (nodes (base g) p) of
          None \<Rightarrow> None
        | Some (nd, es, err) \<Rightarrow>
            Some (g\<lparr>base := commit p {u1, u2} nd es (base g), called := (called g)(u1 \<mapsto> (p, path, Inr (Data x)))\<rparr>)
      else None)"
| "gap_perform ms overlap (G_receive p q) g =
     (if p \<in> set ms \<and> (overlap \<or> gaps g p = []) \<and> q \<in> set ms then
        case chan (base g) q p of [] \<Rightarrow> None
        | line # rest \<Rightarrow>
            (case handle_line symbolic_codec sample_exec (sample_env ms [] []) line (nodes (base g) p) of
               None \<Rightarrow> None
             | Some (nd, es, err) \<Rightarrow> Some (g\<lparr>base := commit p {} nd es (take_line q p (base g))\<rparr>))
      else None)"
| "gap_perform ms overlap (G_collect p u) g =
     (if p \<in> set ms \<and> (overlap \<or> gaps g p = []) \<and> fresh (\<lambda>_. True) (base g) u then
        case node_collect symbolic_codec (sample_env ms u []) (nodes (base g) p) of
          None \<Rightarrow> None | Some (nd, es, err) \<Rightarrow> Some (g\<lparr>base := commit p {u} nd es (base g)\<rparr>)
      else None)"
| "gap_perform ms overlap (G_number p q) g =
     (if p \<in> set ms \<and> (overlap \<or> gaps g p = []) \<and> q \<in> set ms then
        case chan (base g) q p of [] \<Rightarrow> None
        | line # rest \<Rightarrow>
            (case begin_ask symbolic_codec (sample_env ms [] []) line (nodes (base g) p) of
               None \<Rightarrow> None
             | Some (nd, es, askMsg, seq) \<Rightarrow>
                 Some (g\<lparr>base := commit p {} nd es (take_line q p (base g)),
                         gaps := (gaps g)(p := gaps g p @ [(askMsg, seq)])\<rparr>))
      else None)"
| "gap_perform ms overlap (G_hold p) g =
     (if p \<in> set ms then
        case gaps g p of [] \<Rightarrow> None
        | (askMsg, seq) # rest \<Rightarrow>
            (case end_ask symbolic_codec (sample_env ms [] []) askMsg seq (nodes (base g) p) of
               None \<Rightarrow> None
             | Some (nd, es, err) \<Rightarrow> Some (g\<lparr>base := commit p {} nd es (base g), gaps := (gaps g)(p := rest)\<rparr>))
      else None)"

fun gap_perform_all where
  "gap_perform_all ms overlap [] g = Some g"
| "gap_perform_all ms overlap (a # as) g =
     (case gap_perform ms overlap a g of None \<Rightarrow> None | Some g' \<Rightarrow> gap_perform_all ms overlap as g')"

lemma gap_perform_step:
  assumes "distinct ms" "gap_perform ms overlap a g = Some g'"
  shows "gap_step symbolic_codec (\<lambda>_. True) sample_exec (set ms) overlap g g'"
proof -
  have e: "calm (set ms) (sample_env ms u1 u2)" for u1 u2
    using assms(1) by (simp add: calm_def sample_env_def)
  show ?thesis
  proof (cases a)
    case (G_multicast p path x u1 u2)
    then show ?thesis
      using assms(2) gap_step.multicast [OF _ _ e [of u1 u2], where p = p and g = g and cd = symbolic_codec and
          valid = "\<lambda>_. True" and exec = sample_exec and overlap = overlap]
      by (auto simp: sample_env_def split: if_splits option.splits)
  next
    case (G_receive p q)
    then show ?thesis
      using assms(2) gap_step.receive [OF _ _ e [of "[]" "[]"], where p = p and q = q and g = g and cd = symbolic_codec and
          valid = "\<lambda>_. True" and exec = sample_exec and overlap = overlap]
      by (auto split: if_splits option.splits list.splits)
  next
    case (G_collect p u)
    then show ?thesis
      using assms(2) gap_step.collect [OF _ _ e [of u "[]"], where p = p and g = g and cd = symbolic_codec and
          valid = "\<lambda>_. True" and exec = sample_exec and overlap = overlap]
      by (auto simp: sample_env_def split: if_splits option.splits)
  next
    case (G_number p q)
    then show ?thesis
      using assms(2) gap_step.number [OF _ _ e [of "[]" "[]"], where p = p and q = q and g = g and cd = symbolic_codec and
          valid = "\<lambda>_. True" and exec = sample_exec and overlap = overlap]
      by (auto split: if_splits option.splits list.splits)
  next
    case (G_hold p)
    then show ?thesis
      using assms(2) gap_step.hold [OF _ e [of "[]" "[]"], where p = p and g = g and cd = symbolic_codec and xs = "[]" and
          valid = "\<lambda>_. True" and exec = sample_exec and overlap = overlap]
      by (auto split: if_splits option.splits list.splits)
  qed
qed

lemma gap_perform_all_run:
  "gap_run symbolic_codec (\<lambda>_. True) sample_exec ms tr [] overlap n g \<Longrightarrow> distinct ms \<Longrightarrow>
     gap_perform_all ms overlap as g = Some g' \<Longrightarrow>
     gap_run symbolic_codec (\<lambda>_. True) sample_exec ms tr [] overlap (n + length as) g'"
proof (induction "as" arbitrary: n g)
  case (Cons a "as")
  then obtain g1 where g1: "gap_perform ms overlap a g = Some g1" "gap_perform_all ms overlap as g1 = Some g'"
    by (auto split: option.splits)
  from Cons.IH [OF gap_run.next_step [OF Cons.prems(1) gap_perform_step [OF Cons.prems(2) g1(1)]] Cons.prems(2) g1(2)]
  show ?case by simp
qed simp

text \<open>Evaluation, one action at a time.\<close>

definition gap_plays ::
  "string list \<Rightarrow> bool \<Rightarrow> gap_action list \<Rightarrow> (wire, unit, string list) gapped \<Rightarrow> ((wire, unit, string list) gapped \<Rightarrow> bool) \<Rightarrow> bool" where
  "gap_plays ms overlap as g P \<longleftrightarrow> (\<exists>g'. gap_perform_all ms overlap as g = Some g' \<and> P g')"

lemma gap_plays_append: "gap_plays ms ov as g (\<lambda>g. gap_plays ms ov bs g P) \<Longrightarrow> gap_plays ms ov (as @ bs) g P"
  by (induction "as" arbitrary: g) (auto simp: gap_plays_def split: option.splits)

lemma gap_plays_Nil: "P g \<Longrightarrow> gap_plays ms ov [] g P"
  by (simp add: gap_plays_def)

lemma gap_play_multicast:
  "p \<in> set ms \<Longrightarrow> ov \<or> gaps g p = [] \<Longrightarrow> fresh (\<lambda>_. True) (base g) u1 \<Longrightarrow> fresh (\<lambda>_. True) (base g) u2 \<Longrightarrow>
   nodes (base g) p = nd \<Longrightarrow>
   node_multicast symbolic_codec (sample_env ms u1 u2) path (Inr (Data x)) nd = Some (nd', es, err) \<Longrightarrow>
   g\<lparr>base := commit p {u1, u2} nd' es (base g), called := (called g)(u1 \<mapsto> (p, path, Inr (Data x)))\<rparr> = g' \<Longrightarrow>
   gap_plays ms ov as g' P \<Longrightarrow> gap_plays ms ov (G_multicast p path x u1 u2 # as) g P"
  by (auto simp: gap_plays_def)

lemma gap_play_receive:
  "p \<in> set ms \<Longrightarrow> ov \<or> gaps g p = [] \<Longrightarrow> q \<in> set ms \<Longrightarrow> chan (base g) q p = line # rest \<Longrightarrow> nodes (base g) p = nd \<Longrightarrow>
   handle_line symbolic_codec sample_exec (sample_env ms [] []) line nd = Some (nd', es, err) \<Longrightarrow>
   g\<lparr>base := commit p {} nd' es (take_line q p (base g))\<rparr> = g' \<Longrightarrow>
   gap_plays ms ov as g' P \<Longrightarrow> gap_plays ms ov (G_receive p q # as) g P"
  by (auto simp: gap_plays_def)

lemma gap_play_collect:
  "p \<in> set ms \<Longrightarrow> ov \<or> gaps g p = [] \<Longrightarrow> fresh (\<lambda>_. True) (base g) u \<Longrightarrow> nodes (base g) p = nd \<Longrightarrow>
   node_collect symbolic_codec (sample_env ms u []) nd = Some (nd', es, err) \<Longrightarrow>
   g\<lparr>base := commit p {u} nd' es (base g)\<rparr> = g' \<Longrightarrow>
   gap_plays ms ov as g' P \<Longrightarrow> gap_plays ms ov (G_collect p u # as) g P"
  by (auto simp: gap_plays_def)

lemma gap_play_number:
  "p \<in> set ms \<Longrightarrow> ov \<or> gaps g p = [] \<Longrightarrow> q \<in> set ms \<Longrightarrow> chan (base g) q p = line # rest \<Longrightarrow> nodes (base g) p = nd \<Longrightarrow>
   begin_ask symbolic_codec (sample_env ms [] []) line nd = Some (nd', es, askMsg, seq) \<Longrightarrow>
   g\<lparr>base := commit p {} nd' es (take_line q p (base g)), gaps := (gaps g)(p := gaps g p @ [(askMsg, seq)])\<rparr> = g' \<Longrightarrow>
   gap_plays ms ov as g' P \<Longrightarrow> gap_plays ms ov (G_number p q # as) g P"
  by (auto simp: gap_plays_def)

lemma gap_play_hold:
  "p \<in> set ms \<Longrightarrow> gaps g p = (askMsg, seq) # rest \<Longrightarrow> nodes (base g) p = nd \<Longrightarrow>
   end_ask symbolic_codec (sample_env ms [] []) askMsg seq nd = Some (nd', es, err) \<Longrightarrow>
   g\<lparr>base := commit p {} nd' es (base g), gaps := (gaps g)(p := rest)\<rparr> = g' \<Longrightarrow>
   gap_plays ms ov as g' P \<Longrightarrow> gap_plays ms ov (G_hold p # as) g P"
  by (auto simp: gap_plays_def)

lemmas gap_play = gap_play_multicast gap_play_receive gap_play_collect gap_play_number gap_play_hold

lemmas gap_evaluate = evaluate begin_ask_def end_ask_def gap_initial_def number_ask_def hold_and_reply_def

section \<open>A run that does not use the gap\<close>

text \<open>
  \<open>a\<close> multicasts a message; \<open>b\<close> has numbered it and not held it when \<open>a\<close> numbers, holds and
  counts its own vote.
\<close>

definition patient_actions :: "gap_action list" where
  "patient_actions =
     [G_multicast ''a'' ''/x'' ''v'' (uid CHR ''1'') (uid CHR ''2''), G_number ''b'' ''a'', G_receive ''a'' ''a'',
      G_receive ''a'' ''a'', G_collect ''a'' (uid CHR ''3''), G_hold ''b'', G_receive ''a'' ''b'', G_receive ''a'' ''b'',
      G_collect ''a'' (uid CHR ''4''), G_receive ''a'' ''a'', G_receive ''b'' ''a'',
      G_receive ''a'' ''b'', G_receive ''b'' ''b'', G_receive ''b'' ''b'']"

lemma patient_plays:
  "gap_plays [''a'', ''b''] False patient_actions (gap_initial [''a'', ''b''] [''/x'' \<mapsto> ()] [])
     (\<lambda>g. gap_quiescent {''a'', ''b''} g
       \<and> delivered (log (base g) ''a'') = [uid CHR ''1'' @ ''da39a3ee''] \<and> delivered (log (base g) ''b'') = [uid CHR ''1'' @ ''da39a3ee'']
       \<and> processor (nodes (base g) ''a'') = [''/x''])"
  apply (unfold patient_actions_def)
  apply (rule gap_play, (simp add: gap_evaluate; fail)+)+
  apply (rule gap_plays_Nil, simp add: gap_quiescent_def quiescent_def)
  done

lemma patient_run:
  "\<exists>g. gap_run symbolic_codec (\<lambda>_. True) sample_exec sample_nodes sample_router [] False 14 g
     \<and> gap_quiescent (set sample_nodes) g
     \<and> delivered (log (base g) ''a'') = [uid CHR ''1'' @ ''da39a3ee''] \<and> delivered (log (base g) ''b'') = [uid CHR ''1'' @ ''da39a3ee'']
     \<and> processor (nodes (base g) ''a'') = [''/x'']"
proof -
  obtain g where g: "gap_perform_all sample_nodes False patient_actions (gap_initial sample_nodes sample_router []) = Some g"
    "gap_quiescent (set sample_nodes) g"
    "delivered (log (base g) ''a'') = [uid CHR ''1'' @ ''da39a3ee'']" "delivered (log (base g) ''b'') = [uid CHR ''1'' @ ''da39a3ee'']"
    "processor (nodes (base g) ''a'') = [''/x'']"
    using patient_plays by (auto simp: gap_plays_def sample_nodes_def sample_router_def)
  from gap_perform_all_run [OF gap_run.start _ g(1)]
  have "gap_run symbolic_codec (\<lambda>_. True) sample_exec sample_nodes sample_router [] False 14 g"
    by (simp add: sample_nodes_def patient_actions_def eval_nat_numeral)
  then show ?thesis using g by blast
qed

section \<open>A run that does\<close>




section \<open>Property\<close>


end
