(* ===== verification/Bank_Runs.thy ===== *)
theory Bank_Runs
  imports Lock_Gap Bank_Cluster
begin

text \<open>
  The events that a group of banks applies, found in the record of the calls of \<open>Multicast\<close> by
  the ids of the delivered messages.
\<close>

definition call_events :: "string calls \<Rightarrow> string \<Rightarrow> event list" where
  "call_events C mid =
     (case C (take 36 mid) of
        Some (q, path, Inr d) \<Rightarrow>
          (case event_of \<lparr>t_Path = path, t_Body = d\<rparr> of None \<Rightarrow> [] | Some v \<Rightarrow> [v])
      | _ \<Rightarrow> [])"

text \<open>The paths of the bank are plain ASCII: what JSON does to the path of a call is no matter.\<close>

lemma mend_bank_paths: "mend path = DepositPath \<longleftrightarrow> path = DepositPath" "mend path = TransferPath \<longleftrightarrow> path = TransferPath"
proof -
  have plain: "mend path = p \<longleftrightarrow> path = p" if "CHR 0xEF \<notin> set p" "utf8_valid p" for p
    using mend_plain [of path] mend_valid [of p] that by metis
  show "mend path = DepositPath \<longleftrightarrow> path = DepositPath"
    by (rule plain) (simp_all add: DepositPath_def utf8_valid_ascii)
  show "mend path = TransferPath \<longleftrightarrow> path = TransferPath"
    by (rule plain) (simp_all add: TransferPath_def utf8_valid_ascii)
qed

lemma event_of_mended: "event_of (m\<lparr>t_Path := mend (t_Path m)\<rparr>) = event_of m"
  by (simp add: event_of_def mend_bank_paths)

lemma call_events_body:
  assumes "multicast_by json_codec M C mid y"
  shows "events json_codec (call_body json_codec C mid) = call_events C mid"
proof -
  obtain q path d where c: "C (take 36 mid) = Some (q, path, Inr d)" using assms by (auto simp: multicast_by_def)
  let ?m = "\<lparr>t_Path = path, t_Body = d\<rparr>"
  have "enc_TOMsg json_codec ?m = Inr (struct_text (TOMsg_struct ?m))"
    "dec_TOMsg json_codec (struct_text (TOMsg_struct ?m)) = Inr (?m\<lparr>t_Path := mend (t_Path ?m)\<rparr>)"
    by (simp_all only: json_codec_def codec.simps TOMsg_Encode_def TOMsg_Decode_mended)
  then show ?thesis
    using c event_of_mended [of ?m] by (simp add: call_body_def call_events_def events_def)
qed

lemma events_concat: "events cd (concat xss) = concat (map (events cd) xss)"
  by (induction xss) (simp_all add: events_def)

lemma bank_gap_run:
  assumes "\<forall>p\<in>set ms. utf8_valid p" "n < 2 ^ 64" "p \<in> set ms"
    and "gap_run json_codec utf8_valid (bank_exec orders) ms bank_router NewProcessor False n g"
  shows "processor (nodes (base g) p) =
      fold apply_event (concat (map (call_events (called g)) (delivered (log (base g) p)))) NewProcessor"
proof -
  note c = gap_run_calls [OF json.message_codec_axioms bank_exec_prints assms(1,4,2,3)]
  have m: "map (events json_codec \<circ> call_body json_codec (called g)) (delivered (log (base g) p))
      = map (call_events (called g)) (delivered (log (base g) p))"
    using c(1) call_events_body by fastforce
  show ?thesis using bank_replay [OF c(2)] unfolding events_concat map_map m .
qed

end
