(* ===== verification/Crash_Run.thy ===== *)
theory Crash_Run
  imports Crash Sample_Run
begin

text \<open>
  A run of three nodes in which one crashes and the other two deliver messages in different
  orders.
\<close>

section \<open>Performing a list of actions\<close>

datatype faulty_action =
    F_multicast string string string string string  \<comment> \<open>node, path, text and two uuids\<close>
  | F_receive string string                         \<comment> \<open>to, from\<close>
  | F_collect string string                         \<comment> \<open>node and its uuid\<close>
  | F_crash string

definition faulty_env :: "string list \<Rightarrow> string set \<Rightarrow> string \<Rightarrow> string \<Rightarrow> env" where
  "faulty_env ms D u1 u2 =
     \<lparr>env_ok = (\<lambda>_ d. d \<notin> D), env_order = ms, env_uuid1 = u1, env_uuid2 = u2, env_now = 0\<rparr>"

fun faulty_perform ::
  "string list \<Rightarrow> faulty_action \<Rightarrow> (wire, unit, string list) faulty \<Rightarrow> (wire, unit, string list) faulty option" where
  "faulty_perform ms (F_multicast p path x u1 u2) f =
     (if p \<in> set ms \<and> p \<notin> dead f \<and> fresh (\<lambda>_. True) (sys f) u1 \<and> fresh (\<lambda>_. True) (sys f) u2 then
        case node_multicast symbolic_codec (faulty_env ms (dead f) u1 u2) path (Inr (Data x)) (nodes (sys f) p) of
          None \<Rightarrow> None
        | Some (nd, es, err) \<Rightarrow>
            Some (commit_counts p {u1, u2} nd es (f\<lparr>calls := (calls f)(u1 \<mapsto> (p, path, Inr (Data x)))\<rparr>))
      else None)"
| "faulty_perform ms (F_receive p q) f =
     (if p \<in> set ms \<and> p \<notin> dead f \<and> q \<in> set ms then
        case chan (sys f) q p of [] \<Rightarrow> None
        | line # rest \<Rightarrow>
            (case handle_line symbolic_codec sample_exec (faulty_env ms (dead f) [] []) line (nodes (sys f) p) of
               None \<Rightarrow> None
             | Some (nd, es, err) \<Rightarrow> Some (commit_counts p {} nd es (f\<lparr>sys := take_line q p (sys f)\<rparr>)))
      else None)"
| "faulty_perform ms (F_collect p u) f =
     (if p \<in> set ms \<and> p \<notin> dead f \<and> fresh (\<lambda>_. True) (sys f) u then
        case node_collect symbolic_codec (faulty_env ms (dead f) u []) (nodes (sys f) p) of
          None \<Rightarrow> None | Some (nd, es, err) \<Rightarrow> Some (commit_counts p {u} nd es f)
      else None)"
| "faulty_perform ms (F_crash p) f = (if p \<in> set ms then Some (f\<lparr>dead := insert p (dead f)\<rparr>) else None)"

fun faulty_perform_all where
  "faulty_perform_all ms [] f = Some f"
| "faulty_perform_all ms (a # as) f =
     (case faulty_perform ms a f of None \<Rightarrow> None | Some f' \<Rightarrow> faulty_perform_all ms as f')"

lemma faulty_perform_step:
  assumes "distinct ms" "faulty_perform ms a f = Some f'"
  shows "faulty_step symbolic_codec (\<lambda>_. True) sample_exec (set ms) f f'"
proof -
  have e: "crash_stop (set ms) (dead f) (faulty_env ms (dead f) u1 u2)" for u1 u2
    using assms(1) by (simp add: crash_stop_def faulty_env_def)
  show ?thesis
  proof (cases a)
    case (F_multicast p path x u1 u2)
    then show ?thesis
      using assms(2) faulty_step.handler [OF _ handler_run.multicast [OF e [of u1 u2], where cd = symbolic_codec and valid = "\<lambda>_. True" and exec = sample_exec and p = p]]
      by (auto simp: faulty_env_def split: if_splits option.splits)
  next
    case (F_receive p q)
    then show ?thesis
      using assms(2) faulty_step.handler [OF _ handler_run.receive [OF _ e [of "[]" "[]"], where cd = symbolic_codec and valid = "\<lambda>_. True" and exec = sample_exec and p = p]]
      by (auto split: if_splits option.splits list.splits)
  next
    case (F_collect p u)
    then show ?thesis
      using assms(2) faulty_step.handler [OF _ handler_run.collect [OF e [of u "[]"], where cd = symbolic_codec and valid = "\<lambda>_. True" and exec = sample_exec and p = p]]
      by (auto simp: faulty_env_def split: if_splits option.splits)
  next
    case (F_crash p)
    then show ?thesis using assms(2) faulty_step.crash by (auto split: if_splits)
  qed
qed

lemma faulty_perform_all_steps:
  assumes "distinct ms"
  shows "faulty_perform_all ms as f = Some f' \<Longrightarrow>
     (faulty_step symbolic_codec (\<lambda>_. True) sample_exec (set ms))\<^sup>*\<^sup>* f f'"
  by (induction "as" arbitrary: f)
     (auto split: option.splits intro: converse_rtranclp_into_rtranclp dest: faulty_perform_step [OF assms])

section \<open>Three nodes, one crash\<close>

text \<open>
  Each node multicasts a message. That of \<open>a\<close> is agreed on by all three, with number 2; then \<open>a\<close>
  votes for the other two, announces its agreement and crashes. \<open>b\<close> notices, ejects \<open>a\<close>, and now
  counts two votes from two members, its own and that of \<open>a\<close>: it announces number 2 for its
  message, for which \<open>c\<close> votes 3. Of the two messages with number 2 that of \<open>b\<close> comes first at
  \<open>b\<close>; but \<open>c\<close>, which numbered it 3, has delivered that of \<open>a\<close> by then.
\<close>

definition crash_nodes :: "string list" where
  "crash_nodes = [''a'', ''b'', ''c'']"

definition crash_router :: "unit router" where
  "crash_router = [''/x'' \<mapsto> (), ''/y'' \<mapsto> (), ''/z'' \<mapsto> ()]"

definition ask_and_vote :: "faulty_action list" where
  "ask_and_vote =
     [F_multicast ''c'' ''/z'' ''u'' (uid CHR ''5'') (uid CHR ''6''),
      F_multicast ''b'' ''/x'' ''v'' (uid CHR ''1'') (uid CHR ''2''),
      F_multicast ''a'' ''/y'' ''w'' (uid CHR ''3'') (uid CHR ''4''),
      F_receive ''c'' ''c'', F_receive ''b'' ''b'', F_receive ''a'' ''a'',
      F_receive ''b'' ''a'', F_receive ''c'' ''a'']"

definition agree_and_crash :: "faulty_action list" where
  "agree_and_crash =
     [F_receive ''a'' ''b'', F_receive ''a'' ''b'', F_receive ''a'' ''b'', F_receive ''a'' ''a'',
      F_receive ''a'' ''c'', F_receive ''a'' ''c'', F_receive ''a'' ''c'',
      F_collect ''a'' (uid CHR ''7''), F_collect ''a'' (uid CHR ''8''), F_collect ''a'' (uid CHR ''9''),
      F_crash ''a'']"

definition b_delivers :: "faulty_action list" where
  "b_delivers =
     [F_receive ''b'' ''b'', F_collect ''b'' (uid CHR ''a''),
      F_receive ''b'' ''a'', F_receive ''b'' ''a'', F_receive ''b'' ''a'', F_collect ''b'' (uid CHR ''b''),
      F_receive ''b'' ''a'', F_receive ''b'' ''b'', F_receive ''b'' ''b'', F_receive ''b'' ''b'']"

definition c_votes :: "faulty_action list" where
  "c_votes =
     [F_receive ''c'' ''c'', F_collect ''c'' (uid CHR ''c''),
      F_receive ''c'' ''a'', F_receive ''c'' ''a'', F_receive ''c'' ''a'', F_collect ''c'' (uid CHR ''d'')]"

definition c_delivers :: "faulty_action list" where
  "c_delivers =
     [F_receive ''c'' ''a'', F_receive ''c'' ''c'', F_receive ''c'' ''c'', F_receive ''c'' ''c'',
      F_receive ''c'' ''b'', F_receive ''c'' ''b'', F_receive ''c'' ''b'', F_receive ''c'' ''b'', F_receive ''c'' ''b'']"

text \<open>Evaluation, one action at a time: each premise is small enough to be simplified.\<close>

definition plays ::
  "string list \<Rightarrow> faulty_action list \<Rightarrow> (wire, unit, string list) faulty \<Rightarrow> ((wire, unit, string list) faulty \<Rightarrow> bool) \<Rightarrow> bool" where
  "plays ms as f P \<longleftrightarrow> (\<exists>g. faulty_perform_all ms as f = Some g \<and> P g)"

lemma plays_append: "plays ms as f (\<lambda>g. plays ms bs g P) \<Longrightarrow> plays ms (as @ bs) f P"
  by (induction "as" arbitrary: f) (auto simp: plays_def split: option.splits)

lemma plays_Nil: "P f \<Longrightarrow> plays ms [] f P"
  by (simp add: plays_def)

lemma play_multicast:
  "p \<in> set ms \<Longrightarrow> p \<notin> dead f \<Longrightarrow> fresh (\<lambda>_. True) (sys f) u1 \<Longrightarrow> fresh (\<lambda>_. True) (sys f) u2 \<Longrightarrow>
   nodes (sys f) p = nd \<Longrightarrow> dead f = D \<Longrightarrow>
   node_multicast symbolic_codec (faulty_env ms D u1 u2) path (Inr (Data x)) nd = Some (nd', es, err) \<Longrightarrow>
   commit_counts p {u1, u2} nd' es (f\<lparr>calls := (calls f)(u1 \<mapsto> (p, path, Inr (Data x)))\<rparr>) = f' \<Longrightarrow> plays ms as f' P \<Longrightarrow>
   plays ms (F_multicast p path x u1 u2 # as) f P"
  by (auto simp: plays_def)

lemma play_receive:
  "p \<in> set ms \<Longrightarrow> p \<notin> dead f \<Longrightarrow> q \<in> set ms \<Longrightarrow> chan (sys f) q p = line # rest \<Longrightarrow>
   nodes (sys f) p = nd \<Longrightarrow> dead f = D \<Longrightarrow>
   handle_line symbolic_codec sample_exec (faulty_env ms D [] []) line nd = Some (nd', es, err) \<Longrightarrow>
   commit_counts p {} nd' es (f\<lparr>sys := take_line q p (sys f)\<rparr>) = f' \<Longrightarrow> plays ms as f' P \<Longrightarrow>
   plays ms (F_receive p q # as) f P"
  by (auto simp: plays_def)

lemma play_collect:
  "p \<in> set ms \<Longrightarrow> p \<notin> dead f \<Longrightarrow> fresh (\<lambda>_. True) (sys f) u \<Longrightarrow> nodes (sys f) p = nd \<Longrightarrow> dead f = D \<Longrightarrow>
   node_collect symbolic_codec (faulty_env ms D u []) nd = Some (nd', es, err) \<Longrightarrow>
   commit_counts p {u} nd' es f = f' \<Longrightarrow> plays ms as f' P \<Longrightarrow>
   plays ms (F_collect p u # as) f P"
  by (auto simp: plays_def)

lemma play_crash:
  "p \<in> set ms \<Longrightarrow> f\<lparr>dead := insert p (dead f)\<rparr> = f' \<Longrightarrow> plays ms as f' P \<Longrightarrow> plays ms (F_crash p # as) f P"
  by (auto simp: plays_def)

lemmas play = play_multicast play_receive play_collect play_crash

lemmas play_evaluate = evaluate faulty_initial_def faulty_env_def commit_counts_def eject_def

lemma crash_run_plays:
  "plays [''a'', ''b'', ''c''] (ask_and_vote @ agree_and_crash @ b_delivers @ c_votes @ c_delivers)
     (faulty_initial [''a'', ''b'', ''c''] [''/x'' \<mapsto> (), ''/y'' \<mapsto> (), ''/z'' \<mapsto> ()] [])
     (\<lambda>f. dead f = {''a''}
       \<and> delivered (log (sys f) ''b'') = [uid CHR ''1'' @ ''da39a3ee'', uid CHR ''3'' @ ''da39a3ee'']
       \<and> delivered (log (sys f) ''c'') = [uid CHR ''3'' @ ''da39a3ee'', uid CHR ''1'' @ ''da39a3ee'', uid CHR ''5'' @ ''da39a3ee'']
       \<and> processor (nodes (sys f) ''b'') = [''/x'', ''/y''] \<and> processor (nodes (sys f) ''c'') = [''/y'', ''/x'', ''/z''])"
  apply (rule plays_append, unfold ask_and_vote_def)
  apply (rule play, (simp add: play_evaluate; fail)+)+
  apply (rule plays_Nil, rule plays_append, unfold agree_and_crash_def)
  apply (rule play, (simp add: play_evaluate; fail)+)+
  apply (rule plays_Nil, rule plays_append, unfold b_delivers_def)
  apply (rule play, (simp add: play_evaluate; fail)+)+
  apply (rule plays_Nil, rule plays_append, unfold c_votes_def)
  apply (rule play, (simp add: play_evaluate; fail)+)+
  apply (rule plays_Nil, unfold c_delivers_def)
  apply (rule play, (simp add: play_evaluate; fail)+)+
  apply (rule plays_Nil, simp)
  done

lemma crash_run:
  "\<exists>f. (faulty_step symbolic_codec (\<lambda>_. True) sample_exec (set crash_nodes))\<^sup>*\<^sup>* (faulty_initial crash_nodes crash_router []) f
     \<and> dead f = {''a''}
     \<and> delivered (log (sys f) ''b'') = [uid CHR ''1'' @ ''da39a3ee'', uid CHR ''3'' @ ''da39a3ee'']
     \<and> delivered (log (sys f) ''c'') = [uid CHR ''3'' @ ''da39a3ee'', uid CHR ''1'' @ ''da39a3ee'', uid CHR ''5'' @ ''da39a3ee'']
     \<and> processor (nodes (sys f) ''b'') = [''/x'', ''/y''] \<and> processor (nodes (sys f) ''c'') = [''/y'', ''/x'', ''/z'']"
proof -
  have "distinct crash_nodes" by (simp add: crash_nodes_def)
  note steps = faulty_perform_all_steps [OF this, unfolded crash_nodes_def]
  show ?thesis
    using crash_run_plays steps unfolding plays_def crash_nodes_def crash_router_def by fastforce
qed

text \<open>
  C9. The order is lost in a crash. Three nodes; one of them crashes, and no line between the
  other two is lost; yet these deliver two messages in opposite orders. The cause is that a
  vote counts whether or not its voter is still a member: after the ejection of \<open>a\<close> its vote
  makes up for the one of \<open>c\<close>.
\<close>

theorem crash_breaks_total_order:
  "\<exists>f. (faulty_step symbolic_codec (\<lambda>_. True) sample_exec (set crash_nodes))\<^sup>*\<^sup>* (faulty_initial crash_nodes crash_router []) f
     \<and> dead f = {''a''}
     \<and> delivered (log (sys f) ''b'') = [uid CHR ''1'' @ ''da39a3ee'', uid CHR ''3'' @ ''da39a3ee'']
     \<and> delivered (log (sys f) ''c'') = [uid CHR ''3'' @ ''da39a3ee'', uid CHR ''1'' @ ''da39a3ee'', uid CHR ''5'' @ ''da39a3ee'']"
  using crash_run by blast

end
