(* ===== verification/Metrics.thy ===== *)
theory Metrics
  imports Json_Messages
begin

text \<open>
  \<open>lib/mp1/metrics/metrics.go\<close>: log entries for the bytes received and the messages
  delivered. Whether they are logged is a global flag, set from the environment variable
  \<open>METRICS\<close>. The logger is not part of the program: \<open>Log\<close> gives the texts handed to it.
\<close>

definition SetupMetrics :: "string \<Rightarrow> bool" where
  "SetupMetrics metricsENV = (if metricsENV = ''y'' then True else False)"

record BandwidthLogEntry =
  bw_NodeID :: string
  bw_Timestamp :: string
  bw_BytesSize :: goint

record DelayLogEntry =
  dl_NodeID :: string
  dl_MsgID :: string
  dl_Timestamp :: string

text \<open>The time is that of the clock, in nanoseconds.\<close>

definition NowUnixNana :: "goint \<Rightarrow> string" where
  "NowUnixNana timeNow = dec_int (sint timeNow)"

definition NewBandwidthLogEntry :: "goint \<Rightarrow> string \<Rightarrow> goint \<Rightarrow> BandwidthLogEntry" where
  "NewBandwidthLogEntry timeNow nodeID bytesSize =
     \<lparr>bw_NodeID = nodeID, bw_Timestamp = NowUnixNana timeNow, bw_BytesSize = bytesSize\<rparr>"

definition bandwidth_struct :: "BandwidthLogEntry \<Rightarrow> struct" where
  "bandwidth_struct b =
     [(''node_id'', FStr (bw_NodeID b)), (''timestamp'', FStr (bw_Timestamp b)), (''bytes_size'', FInt (bw_BytesSize b))]"

definition Bandwidth_Encode :: "BandwidthLogEntry \<Rightarrow> go_error + string" where
  "Bandwidth_Encode b = Inr (struct_text (bandwidth_struct b))"

definition Bandwidth_Log :: "bool \<Rightarrow> BandwidthLogEntry \<Rightarrow> string list" where
  "Bandwidth_Log enableLog b =
     (case Bandwidth_Encode b of Inl e \<Rightarrow> [] | Inr encoded \<Rightarrow> if enableLog then [encoded] else [])"

definition NewDelayLogEntry :: "goint \<Rightarrow> string \<Rightarrow> string \<Rightarrow> DelayLogEntry" where
  "NewDelayLogEntry timeNow nodeID mid =
     \<lparr>dl_NodeID = nodeID, dl_MsgID = mid, dl_Timestamp = NowUnixNana timeNow\<rparr>"

definition delay_struct :: "DelayLogEntry \<Rightarrow> struct" where
  "delay_struct d = [(''node_id'', FStr (dl_NodeID d)), (''msg_id'', FStr (dl_MsgID d)), (''timestamp'', FStr (dl_Timestamp d))]"

definition Delay_Encode :: "DelayLogEntry \<Rightarrow> go_error + string" where
  "Delay_Encode d = Inr (struct_text (delay_struct d))"

definition Delay_Log :: "bool \<Rightarrow> DelayLogEntry \<Rightarrow> string list" where
  "Delay_Log enableLog d =
     (case Delay_Encode d of Inl e \<Rightarrow> [] | Inr encoded \<Rightarrow> if enableLog then [encoded] else [])"

text \<open>What is logged can be read back, and nothing is logged when metrics are off.\<close>

lemma metrics_names [simp]:
  "utf8_valid ''node_id''" "utf8_valid ''timestamp''" "utf8_valid ''bytes_size''"
  by (rule utf8_valid_ascii, simp)+

lemma dec_int_valid: "utf8_valid (dec_int i)"
  using is_word_dec_int [of i] by (intro utf8_valid_ascii) (simp add: is_word_def word_char_def)

lemma Bandwidth_Log_reads:
  fixes timeNow sz :: goint
  assumes "utf8_valid nodeID"
  defines "b \<equiv> NewBandwidthLogEntry timeNow nodeID sz"
  shows "\<exists>text. Bandwidth_Log enableLog b = (if enableLog then [text] else [])
     \<and> unmarshal text (bandwidth_struct (NewBandwidthLogEntry 0 [] 0)) = (bandwidth_struct b, None)"
  using unmarshal_struct_text [of "bandwidth_struct b" "bandwidth_struct (NewBandwidthLogEntry 0 [] 0)"] assms
  by (auto simp: Bandwidth_Log_def Bandwidth_Encode_def bandwidth_struct_def NewBandwidthLogEntry_def NowUnixNana_def
      field_valid_def same_kind_def dec_int_valid)

lemma Delay_Log_reads:
  fixes timeNow :: goint
  assumes "utf8_valid nodeID" "utf8_valid mid"
  defines "d \<equiv> NewDelayLogEntry timeNow nodeID mid"
  shows "\<exists>text. Delay_Log enableLog d = (if enableLog then [text] else [])
     \<and> unmarshal text (delay_struct (NewDelayLogEntry 0 [] [])) = (delay_struct d, None)"
  using unmarshal_struct_text [of "delay_struct d" "delay_struct (NewDelayLogEntry 0 [] [])"] assms
  by (auto simp: Delay_Log_def Delay_Encode_def delay_struct_def NewDelayLogEntry_def NowUnixNana_def
      field_valid_def same_kind_def dec_int_valid)

end
