(* ===== verification/Wire.thy ===== *)
theory Wire
  imports Json_Messages Group
begin

text \<open>
  A connection between two nodes (\<open>client.go\<close>, \<open>server.go\<close>, \<open>types/msg.go\<close>): the client
  says hello and then sends one message on each line; the server reads the hello, and runs
  every further line. Framing: no encoded message contains a line break, so the lines read
  are the lines sent, as long as each fits the scanner's buffer.
\<close>

section \<open>Hello\<close>

record Hi =
  From :: string

definition NewHi :: "string \<Rightarrow> Hi" where
  "NewHi from = \<lparr>From = from\<rparr>"

definition Hi_struct :: "Hi \<Rightarrow> struct" where
  "Hi_struct h = [(''from'', FStr (From h))]"

definition Hi_Encode :: "Hi \<Rightarrow> go_error + string" where
  "Hi_Encode h = Inr (struct_text (Hi_struct h))"

text \<open>\<open>json.Unmarshal\<close> into a new \<open>Hi\<close>, which stays filled as far as it was on an error.\<close>

definition read_Hi :: "string \<Rightarrow> Hi \<times> go_error option" where
  "read_Hi line = (case unmarshal line (Hi_struct \<lparr>From = []\<rparr>) of (fs, e) \<Rightarrow> (\<lparr>From = str_at fs 0\<rparr>, e))"

section \<open>The client's end\<close>

text \<open>What \<open>TCPClient.Send\<close> writes: a copy of the message and a line break.\<close>

definition Send :: "string \<Rightarrow> string" where
  "Send msg = msg @ [newline]"

text \<open>
  All that a client writes on its connection: \<open>NewTCPClient\<close>'s hello, then the messages.
\<close>

definition hello :: "string \<Rightarrow> string" where
  "hello srcID = (case Hi_Encode (NewHi srcID) of Inl e \<Rightarrow> [] | Inr d \<Rightarrow> d) @ [newline]"

definition client_output :: "string \<Rightarrow> string list \<Rightarrow> string" where
  "client_output srcID msgs = hello srcID @ concat (map Send msgs)"

section \<open>The server's end\<close>

text \<open>The loop over the lines; the errors of decoding and of the router are logged.\<close>

fun serve_lines ::
  "'b codec \<Rightarrow> ('h \<Rightarrow> 'b TOMsg \<Rightarrow> 'p \<Rightarrow> ('p, 'b effect) call) \<Rightarrow> env list \<Rightarrow> 'b list \<Rightarrow>
     ('b, 'h, 'p) node \<Rightarrow> (('b, 'h, 'p) node \<times> 'b effect list) option" where
  "serve_lines cd exec (e # env) (l # ls) nd =
     (case handle_line cd exec e l nd of
        None \<Rightarrow> None
      | Some (nd1, es, err) \<Rightarrow>
          (case serve_lines cd exec env ls nd1 of
             None \<Rightarrow> None
           | Some (nd2, es2) \<Rightarrow> Some (nd2, es @ es2)))"
| "serve_lines cd exec _ _ nd = Some (nd, [])"

text \<open>
  \<open>handleConn\<close> on all the bytes of a connection: \<open>None\<close> when a handler does not return.
  A first line that is no hello ends the connection. When the first line does not fit the
  buffer, the scanner fails once and then yields the full buffer as a line, so the test for a
  hello is passed by and that text is run as a message. \<open>env\<close> has the environment of each
  line's handler; the loop stops with it, so a short one gives the lines handled so far.
\<close>

definition handleConn ::
  "('h \<Rightarrow> string TOMsg \<Rightarrow> 'p \<Rightarrow> ('p, string effect) call) \<Rightarrow> env list \<Rightarrow> string \<Rightarrow>
     (string, 'h, 'p) node \<Rightarrow> ((string, 'h, 'p) node \<times> string effect list) option" where
  "handleConn exec env input nd =
     (case fst (scan_lines input) of
        [] \<Rightarrow>
          (case snd (scan_lines input) of
             None \<Rightarrow> Some (nd, [])
           | Some e \<Rightarrow> serve_lines json_codec exec env [drop_cr (take max_token input)] nd)
      | firstLine # ls \<Rightarrow>
          (case read_Hi firstLine of
             (hi, err) \<Rightarrow>
               if err \<noteq> None \<or> From hi = [] then Some (nd, [])
               else serve_lines json_codec exec env ls nd))"

text \<open>
  The accept loop: every connection gets a handler of its own, and an error of \<open>Accept\<close> is only
  logged. The argument has the outcomes of \<open>Accept\<close>, the result the connections handled.
\<close>

fun runServer :: "(go_error + 'c) list \<Rightarrow> 'c list" where
  "runServer [] = []"
| "runServer (Inl e # outcomes) = runServer outcomes"
| "runServer (Inr conn # outcomes) = conn # runServer outcomes"

section \<open>Encoded messages are lines\<close>

definition printable :: "char \<Rightarrow> bool" where
  "printable c \<longleftrightarrow> (0x20 :: nat) \<le> of_char c"

lemma printable_no_break: "printable c \<Longrightarrow> c \<noteq> newline \<and> c \<noteq> CHR 0x0D"
  by (auto simp: printable_def newline_def)

lemma printable_hex: "n < 16 \<Longrightarrow> printable (hex_digit n)"
  by (simp add: printable_def hex_digit_def)

lemma printable_escape: "of_char c < (128 :: nat) \<Longrightarrow> \<forall>x\<in>set (escape c). printable x"
  using printable_hex [of "of_char c div 16"] printable_hex [of "of_char c mod 16"]
  by (auto simp: escape_def printable_def)

lemma is_rune_printable: "is_rune (c # s) \<Longrightarrow> (128 :: nat) \<le> of_char c \<Longrightarrow> \<forall>x\<in>set (c # s). printable x"
  by (cases "c # s" rule: is_rune.cases)
     (auto simp: printable_def second_of_3_def second_of_4_def cont_byte_def in_range_def)

lemma printable_quote_body: "\<forall>x\<in>set (quote_body s). printable x"
proof (induction s rule: quote_body.induct)
  case (1 s)
  show ?case
  proof (cases s)
    case (Cons c cs)
    show ?thesis
    proof (cases "of_char c < (128 :: nat)")
      case True
      then show ?thesis
        using "1.IH"(1) [OF Cons True] printable_escape [OF True] Cons
        by (auto simp: quote_body.simps [of "c # cs"])
    next
      case False
      have r: "\<forall>x\<in>set (take (rune_len s) s). printable x" if "rune_len s \<noteq> 0"
        using is_rune_printable [of c "take (rune_len s - 1) cs"] rune_len_is_rune [OF that] False Cons that
        by (cases "rune_len s") simp_all
      show ?thesis
        using "1.IH"(2-5) [OF Cons False] False Cons r
        by (auto simp: quote_body.simps [of "c # cs"] printable_def)
    qed
  qed (simp add: quote_body.simps)
qed

lemma printable_dec: "\<forall>x\<in>set (dec_nat n). printable x" "\<forall>x\<in>set (dec_int i). printable x"
proof -
  have "printable c" if "is_digit c" for c using that by (simp add: is_digit_def printable_def)
  then show n: "\<forall>x\<in>set (dec_nat n). printable x" for n using dec_nat_digits [of n] by blast
  show "\<forall>x\<in>set (dec_int i). printable x" using n by (auto simp: dec_int_def printable_def)
qed

lemma printable_b64: "\<forall>x\<in>set (b64_encode b). printable x"
proof
  fix x assume "x \<in> set (b64_encode b)"
  then consider "plain x" | "x = CHR ''=''" using b64_encode_chars by blast
  then show "printable x" by cases (simp_all add: plain_def printable_def)
qed

lemma printable_field: "\<forall>x\<in>set (field_text f). printable x"
  using printable_dec printable_b64 printable_quote_body
  by (cases f) (auto simp: field_text_def quote_def printable_def)

lemma printable_members: "\<forall>x\<in>set (members_text fs). printable x"
  using printable_field printable_quote_body
  by (induction fs rule: members_text.induct) (auto simp: quote_def printable_def)

lemma printable_struct: "\<forall>x\<in>set (struct_text fs). printable x"
  using printable_members by (auto simp: struct_text_def printable_def)

text \<open>Lines of printable characters are read as they were sent.\<close>

lemma scan_printable_lines:
  assumes "\<forall>l\<in>set ls. (\<forall>x\<in>set l. printable x) \<and> length l < max_token"
  shows "scan_lines (concat (map Send ls)) = (ls, None)"
proof -
  have "\<forall>l\<in>set ls. newline \<notin> set l \<and> length l < max_token \<and> (l = [] \<or> last l \<noteq> CHR 0x0D)"
    using assms printable_no_break last_in_set by blast
  from scan_lines_unlines [OF this] show ?thesis by (simp add: Send_def [abs_def])
qed

lemma read_Hi_hello:
  "utf8_valid from \<Longrightarrow> read_Hi (struct_text (Hi_struct \<lparr>From = from\<rparr>)) = (\<lparr>From = from\<rparr>, None)"
  using unmarshal_struct_text [of "Hi_struct \<lparr>From = from\<rparr>" "Hi_struct \<lparr>From = []\<rparr>"] utf8_valid_ascii [of "''from''"]
  by (simp add: Hi_struct_def read_Hi_def field_valid_def same_kind_def)

lemma hello_eq: "hello from = Send (struct_text (Hi_struct \<lparr>From = from\<rparr>))"
  by (simp add: hello_def Hi_Encode_def NewHi_def Send_def)

lemma handleConn_client:
  assumes "utf8_valid from" "from \<noteq> []" "length (hello from) \<le> max_token"
    and "\<forall>l\<in>set ls. (\<forall>x\<in>set l. printable x) \<and> length l < max_token"
  shows "handleConn exec env (client_output from ls) nd = serve_lines json_codec exec env ls nd"
proof -
  let ?h = "struct_text (Hi_struct \<lparr>From = from\<rparr>)"
  have "client_output from ls = concat (map Send (?h # ls))"
    by (simp add: client_output_def hello_eq)
  moreover have "scan_lines \<dots> = (?h # ls, None)"
    using assms(3,4) printable_struct by (intro scan_printable_lines) (auto simp: hello_eq Send_def)
  ultimately show ?thesis using assms(1,2) by (simp add: handleConn_def read_Hi_hello)
qed

section \<open>Properties\<close>

definition bmsg_line :: "string BMsg \<Rightarrow> string" where
  "bmsg_line m = struct_text (BMsg_struct m)"

text \<open>What the server does for one message after the other, without the wire in between.\<close>

fun run_messages ::
  "('h \<Rightarrow> string TOMsg \<Rightarrow> 'p \<Rightarrow> ('p, string effect) call) \<Rightarrow> env list \<Rightarrow> string BMsg list \<Rightarrow>
     (string, 'h, 'p) node \<Rightarrow> ((string, 'h, 'p) node \<times> string effect list) option" where
  "run_messages exec (e # env) (m # ms) nd =
     (case b_run json_codec exec e BMulticastPath m nd of
        None \<Rightarrow> None
      | Some (nd1, es, err) \<Rightarrow>
          (case run_messages exec env ms nd1 of None \<Rightarrow> None | Some (nd2, es2) \<Rightarrow> Some (nd2, es @ es2)))"
| "run_messages exec _ _ nd = Some (nd, [])"

lemma serve_lines_messages:
  assumes "\<forall>m\<in>set ms. utf8_valid (b_SrcID m) \<and> utf8_valid (b_Path m)"
  shows "serve_lines json_codec exec env (map bmsg_line ms) nd = run_messages exec env ms nd"
  using assms
proof (induction exec env ms nd rule: run_messages.induct)
  case (1 exec e env m ms nd)
  then have "handle_line json_codec exec e (bmsg_line m) nd = b_run json_codec exec e BMulticastPath m nd"
    using BMsg_Decode_Encode [of m] by (simp add: handle_line_def json_codec_def bmsg_line_def)
  then show ?case using 1 by (simp split: option.split)
qed simp_all

text \<open>
  C26. A connection is transparent: after the hello of a node with a name in UTF-8, the server
  runs exactly the messages that were sent, one by one and in order, as if there were no wire
  in between, provided each encoded message has less than 64 KiB.
\<close>

theorem connection_transparent:
  assumes "utf8_valid from" "from \<noteq> []" "length (hello from) \<le> max_token"
    and "\<forall>m\<in>set ms. utf8_valid (b_SrcID m) \<and> utf8_valid (b_Path m) \<and> length (bmsg_line m) < max_token"
  shows "handleConn exec env (client_output from (map bmsg_line ms)) nd = run_messages exec env ms nd"
proof -
  have "\<forall>l\<in>set (map bmsg_line ms). (\<forall>x\<in>set l. printable x) \<and> length l < max_token"
    using assms(4) printable_struct by (auto simp: bmsg_line_def)
  note c = handleConn_client [OF assms(1-3) this, of exec env nd]
  have "\<forall>m\<in>set ms. utf8_valid (b_SrcID m) \<and> utf8_valid (b_Path m)" using assms(4) by blast
  from serve_lines_messages [OF this, of exec env nd] show ?thesis unfolding c .
qed

definition sample_bmsg :: "string BMsg" where
  "sample_bmsg = \<lparr>b_SrcID = ''A'', b_Path = ''/none'', b_Body = []\<rparr>"

lemma length_quote: "length (quote s) \<le> 6 * length s + 2"
  using length_quote_body [of s] by (simp add: quote_def)

lemma sample_bmsg_text: "length (bmsg_line sample_bmsg) < max_token" "length (hello ''A'') \<le> max_token"
  using length_quote [of "''A''"] length_quote [of "''/none''"] length_quote [of "''src''"] length_quote [of "''path''"]
    length_quote [of "''body''"] length_quote [of "''from''"]
  by (simp_all add: bmsg_line_def BMsg_struct_def sample_bmsg_def struct_text_def field_text_def hello_eq
      Send_def Hi_struct_def max_token_def)

theorem connection_transparent_witness:
  "\<forall>(exec :: 'h \<Rightarrow> string TOMsg \<Rightarrow> 'p \<Rightarrow> ('p, string effect) call) e nd.
     handleConn exec [e, e] (client_output ''A'' [bmsg_line sample_bmsg, bmsg_line sample_bmsg]) nd
     = run_messages exec [e, e] [sample_bmsg, sample_bmsg] nd"
proof (intro allI)
  fix exec :: "'h \<Rightarrow> string TOMsg \<Rightarrow> 'p \<Rightarrow> ('p, string effect) call" and e nd
  have "utf8_valid ''A''" "utf8_valid ''/none''" by (rule utf8_valid_ascii, simp)+
  then show "handleConn exec [e, e] (client_output ''A'' [bmsg_line sample_bmsg, bmsg_line sample_bmsg]) nd
     = run_messages exec [e, e] [sample_bmsg, sample_bmsg] nd"
    using connection_transparent [of "''A''" "[sample_bmsg, sample_bmsg]" exec "[e, e]" nd] sample_bmsg_text
    by (simp add: sample_bmsg_def)
qed

text \<open>
  C27. A connection whose first line is shorter than 64 KiB and is not a hello, be it another
  message, a hello without a name or no JSON at all, does nothing: no handler runs, whatever
  the rest of the input. When the first line is longer than that there is no such test: its
  first 64 KiB are run as a message, and nothing else.
\<close>

theorem not_hello_refused:
  assumes "newline \<notin> set line"
    and "snd (read_Hi (drop_cr line)) \<noteq> None \<or> From (fst (read_Hi (drop_cr line))) = []"
  shows "handleConn exec env (line @ newline # rest) nd =
     (if length line < max_token then Some (nd, [])
      else serve_lines json_codec exec env [drop_cr (take max_token line)] nd)"
proof (cases "length line < max_token")
  case True
  then have "fst (scan_lines (line @ newline # rest)) = drop_cr line # fst (scan_lines rest)"
    using scan_lines_Cons [OF assms(1)] by simp
  then show ?thesis using assms(2) True by (cases "read_Hi (drop_cr line)") (auto simp: handleConn_def)
next
  case False
  then have "scan_lines (line @ newline # rest) = ([], Some TooLong)"
    using scan_lines_Cons [OF assms(1)] by simp
  then show ?thesis using False by (simp add: handleConn_def)
qed

theorem not_hello_refused_witness:
  "\<forall>(exec :: 'h \<Rightarrow> string TOMsg \<Rightarrow> 'p \<Rightarrow> ('p, string effect) call) env rest nd.
     handleConn exec env (''GET / HTTP/1.1'' @ newline # rest) nd = Some (nd, [])"
proof (intro allI)
  fix exec :: "'h \<Rightarrow> string TOMsg \<Rightarrow> 'p \<Rightarrow> ('p, string effect) call" and env rest nd
  have "drop_cr ''GET / HTTP/1.1'' = ''GET / HTTP/1.1''" by (simp add: drop_cr_def)
  moreover have "read_json ''GET / HTTP/1.1'' = None"
    by (simp add: read_json_def read_value.simps skip_ws_def is_ws_def is_digit_def read_literal_def)
  then have "snd (read_Hi ''GET / HTTP/1.1'') = Some JsonSyntax" by (simp add: read_Hi_def unmarshal_def)
  ultimately show "handleConn exec env (''GET / HTTP/1.1'' @ newline # rest) nd = Some (nd, [])"
    using not_hello_refused [of "''GET / HTTP/1.1''" exec env rest nd] by (simp add: newline_eq max_token_def)
qed

text \<open>
  C28. A line of 64 KiB or more ends a connection: what was sent before it is handled, and it
  and everything after it, however well formed, is lost.
\<close>

theorem long_line_loses_rest:
  assumes "utf8_valid from" "from \<noteq> []" "length (hello from) \<le> max_token"
    and "\<forall>l\<in>set ls. (\<forall>x\<in>set l. printable x) \<and> length l < max_token"
    and "newline \<notin> set big" "max_token \<le> length big"
  shows "handleConn exec env (client_output from (ls @ big # later)) nd = handleConn exec env (client_output from ls) nd"
proof -
  let ?h = "struct_text (Hi_struct \<lparr>From = from\<rparr>)"
  let ?b = "Send big @ concat (map Send later)"
  have big: "scan_lines ?b = ([], Some TooLong)"
    using scan_lines_Cons [OF assms(5), of "concat (map Send later)"] assms(6) by (simp add: Send_def)
  have h: "\<forall>l\<in>set (?h # ls). (\<forall>x\<in>set l. printable x) \<and> length l < max_token"
    using assms(3,4) printable_struct by (auto simp: hello_eq Send_def)
  have pre: "scan_lines (concat (map Send xs) @ ?b) = (xs, Some TooLong)"
    if "\<forall>l\<in>set xs. (\<forall>x\<in>set l. printable x) \<and> length l < max_token" for xs
    using that
  proof (induction xs)
    case (Cons x xs)
    then have x: "newline \<notin> set x" "drop_cr x = x" using printable_no_break last_in_set by (auto simp: drop_cr_def)
    have "concat (map Send (x # xs)) @ ?b = x @ newline # (concat (map Send xs) @ ?b)" by (simp add: Send_def [of x])
    then show ?case
      using scan_lines_Cons [OF x(1), of "concat (map Send xs) @ ?b"] Cons x(2) by (simp only:) simp
  qed (simp add: big)
  have "client_output from (ls @ big # later) = concat (map Send (?h # ls)) @ ?b"
    by (simp add: client_output_def hello_eq)
  then have "fst (scan_lines (client_output from (ls @ big # later))) = ?h # ls" using pre [OF h] by simp
  moreover have "scan_lines (client_output from ls) = (?h # ls, None)"
    using scan_printable_lines [OF h] by (simp add: client_output_def hello_eq)
  ultimately show ?thesis by (simp add: handleConn_def)
qed

theorem long_line_loses_rest_witness:
  "\<forall>exec env nd. handleConn exec env (client_output ''A'' ([] @ replicate 65536 CHR ''x'' # [bmsg_line sample_bmsg])) nd
     = handleConn exec env (client_output ''A'' []) nd"
  by (intro allI, rule long_line_loses_rest [of "''A''" "[]" "replicate 65536 CHR ''x''" _ _ "[bmsg_line sample_bmsg]"])
     (use sample_bmsg_text utf8_valid_ascii [of "''A''"] in \<open>auto simp: max_token_def newline_eq\<close>)

text \<open>
  C29. A message addressed to the path of the basic layer itself makes the server recurse for
  ever: on a started node the handling of that line never returns.
\<close>

theorem own_path_never_returns:
  assumes "b_routes (bmulticast nd)" "utf8_valid (b_SrcID m)" "b_Path m = BMulticastPath"
  shows "handle_line json_codec exec e (bmsg_line m) nd = None"
proof -
  have "utf8_valid BMulticastPath" by (rule utf8_valid_ascii) (simp add: BMulticastPath_def)
  then have "dec_BMsg json_codec (bmsg_line m) = (m, None)"
    using BMsg_Decode_Encode [of m] assms(2,3) by (simp add: json_codec_def bmsg_line_def)
  then show ?thesis using b_run_diverges [OF assms(1,3)] by (simp add: handle_line_def)
qed

theorem own_path_never_returns_witness:
  "\<forall>(exec :: 'h \<Rightarrow> string TOMsg \<Rightarrow> 'p \<Rightarrow> ('p, string effect) call) e b p g.
     handle_line json_codec exec e (bmsg_line \<lparr>b_SrcID = ''A'', b_Path = BMulticastPath, b_Body = b\<rparr>) (Start_binds (Build p g)) = None"
  using utf8_valid_ascii [of "''A''"] by (intro allI own_path_never_returns Start_binds_routes(1)) simp_all

end
