(* ===== verification/Retry.thy ===== *)
theory Retry
  imports Prelude
begin

text \<open>
  \<open>lib/retry/retry.go\<close>: calling a function until it succeeds. The function is a state
  transformer with an error; the pauses between the calls take time only. With 0 attempts the
  loop runs until the function succeeds, for ever if it never does, so it is a partial
  function: \<open>None\<close> is not returning.
\<close>

partial_function (option) retry_loop ::
  "goint \<Rightarrow> ('s \<Rightarrow> 's \<times> go_error option) \<Rightarrow> goint \<Rightarrow> 's \<Rightarrow> ('s \<times> go_error option) option" where
  "retry_loop attempts f i s =
     (case f s of (s1, err) \<Rightarrow>
        (case err of
           None \<Rightarrow> Some (s1, None)
         | Some e \<Rightarrow>
             if attempts \<noteq> 0 \<and> sint (attempts - 1) \<le> sint i
             then Some (s1, Some (RetriesFailed (sint attempts) e))
             else retry_loop attempts f (i + 1) s1))"

definition Retry :: "goint \<Rightarrow> ('s \<Rightarrow> 's \<times> go_error option) \<Rightarrow> 's \<Rightarrow> ('s \<times> go_error option) option" where
  "Retry attempts f s = retry_loop attempts f 0 s"

section \<open>The calls made\<close>

text \<open>The state after \<open>n\<close> calls, and whether call number \<open>n\<close> (from 0) fails.\<close>

definition after_calls :: "('s \<Rightarrow> 's \<times> go_error option) \<Rightarrow> nat \<Rightarrow> 's \<Rightarrow> 's" where
  "after_calls f n s = ((\<lambda>s. fst (f s)) ^^ n) s"

definition fails :: "('s \<Rightarrow> 's \<times> go_error option) \<Rightarrow> nat \<Rightarrow> 's \<Rightarrow> bool" where
  "fails f n s \<longleftrightarrow> snd (f (after_calls f n s)) \<noteq> None"

lemma after_calls_0 [simp]: "after_calls f 0 s = s"
  by (simp add: after_calls_def)

lemma after_calls_Suc: "after_calls f (Suc n) s = after_calls f n (fst (f s))"
  by (simp add: after_calls_def funpow_Suc_right del: funpow.simps)

lemma fails_Suc: "fails f (Suc n) s = fails f n (fst (f s))"
  by (simp add: fails_def after_calls_Suc)

lemma retry_loop_ok: "snd (f s) = None \<Longrightarrow> retry_loop attempts f i s = Some (fst (f s), None)"
  by (auto simp: retry_loop.simps [of attempts f i s] split: prod.split)

lemma retry_loop_again:
  "snd (f s) \<noteq> None \<Longrightarrow> \<not> (attempts \<noteq> 0 \<and> sint (attempts - 1) \<le> sint i) \<Longrightarrow>
     retry_loop attempts f i s = retry_loop attempts f (i + 1) (fst (f s))"
  by (auto simp: retry_loop.simps [of attempts f i s] split: prod.split)

lemma retry_loop_last:
  "snd (f s) = Some e \<Longrightarrow> attempts \<noteq> 0 \<Longrightarrow> sint (attempts - 1) \<le> sint i \<Longrightarrow>
     retry_loop attempts f i s = Some (fst (f s), Some (RetriesFailed (sint attempts) e))"
  by (auto simp: retry_loop.simps [of attempts f i s] split: prod.split)

text \<open>The first success ends the loop.\<close>

lemma retry_loop_success:
  assumes "\<forall>k<n. fails f k s" "\<not> fails f n s"
    and "attempts = 0 \<or> sint i + int n < sint attempts" "0 \<le> sint i"
  shows "retry_loop attempts f i s = Some (after_calls f (Suc n) s, None)"
  using assms
proof (induction n arbitrary: i s)
  case 0
  then show ?case by (simp add: fails_def retry_loop_ok after_calls_Suc)
next
  case (Suc n)
  have f0: "snd (f s) \<noteq> None" using Suc.prems(1) by (auto simp: fails_def dest: spec [of _ 0])
  show ?case
  proof (cases "attempts = 0")
    case True
    have "retry_loop 0 f j s = Some (after_calls f (Suc n) s, None)"
      if "\<forall>k<n. fails f k s" "\<not> fails f n s" for n j s
      using that
    proof (induction n arbitrary: j s)
      case 0
      then show ?case by (simp add: fails_def retry_loop_ok after_calls_Suc)
    next
      case (Suc n)
      then have "snd (f s) \<noteq> None" by (auto simp: fails_def dest: spec [of _ 0])
      moreover have "\<forall>k<n. fails f k (fst (f s))" using Suc.prems(1) fails_Suc [of f _ s] by blast
      ultimately show ?case
        using Suc.IH [of "fst (f s)" "j + 1"] Suc.prems(2) by (simp add: retry_loop_again fails_Suc after_calls_Suc)
    qed
    then show ?thesis using Suc.prems(1,2) True by blast
  next
    case False
    then have lt: "sint i + int (Suc n) < sint attempts" using Suc.prems(3) by simp
    have pos: "0 < sint attempts" using lt Suc.prems(4) by linarith
    have a1: "sint (attempts - 1) = sint attempts - 1"
      using sint_goint_diff [of attempts 1] sint_goint_range [of attempts] pos by (simp add: goint_min_def)
    have i1: "sint (i + 1) = sint i + 1"
      using sint_goint_add [of i 1] sint_goint_range [of attempts] lt Suc.prems(4) by (simp add: goint_min_def)
    have "\<forall>k<n. fails f k (fst (f s))" "\<not> fails f n (fst (f s))"
      using Suc.prems(1,2) fails_Suc [of f _ s] by blast+
    then have "retry_loop attempts f (i + 1) (fst (f s)) = Some (after_calls f (Suc n) (fst (f s)), None)"
      using lt i1 Suc.prems(4) by (intro Suc.IH) auto
    then show ?thesis
      using retry_loop_again [of f s attempts i] f0 a1 lt by (simp add: after_calls_Suc)
  qed
qed

text \<open>With a positive number of attempts, that many failures end it with the last error.\<close>

lemma retry_loop_gives_up:
  assumes "\<forall>k\<le>n. fails f k s" "sint i + int n + 1 = sint attempts" "0 \<le> sint i"
  shows "\<exists>e. snd (f (after_calls f n s)) = Some e \<and>
     retry_loop attempts f i s = Some (after_calls f (Suc n) s, Some (RetriesFailed (sint attempts) e))"
  using assms
proof (induction n arbitrary: i s)
  have a1: "sint (attempts - 1) = sint attempts - 1" "attempts \<noteq> 0"
    if "sint i + int n + 1 = sint attempts" "0 \<le> sint i" for n and i :: goint
    using sint_goint_diff [of attempts 1] sint_goint_range [of attempts] that by (auto simp: goint_min_def)
  {
    case 0
    then obtain e where "snd (f s) = Some e" by (auto simp: fails_def)
    then show ?case using 0 a1 [of i 0] retry_loop_last [of f s e attempts i] by (simp add: after_calls_Suc)
  next
    case (Suc n)
    have f0: "snd (f s) \<noteq> None" using Suc.prems(1) by (auto simp: fails_def dest: spec [of _ 0])
    have i1: "sint (i + 1) = sint i + 1"
      using sint_goint_add [of i 1] sint_goint_range [of attempts] Suc.prems(2,3) by (simp add: goint_min_def)
    have "\<forall>k\<le>n. fails f k (fst (f s))" using Suc.prems(1) fails_Suc [of f _ s] by auto
    from Suc.IH [OF this, of "i + 1"] Suc.prems(2,3) i1
      retry_loop_again [of f s attempts i] f0 a1 [of i "Suc n"]
    show ?case by (simp add: after_calls_Suc)
  }
qed

text \<open>With 0 attempts and no success it never returns.\<close>

lemma retry_loop_forever:
  assumes "\<forall>k. fails f k s"
  shows "retry_loop 0 f i s = None"
proof (rule ccontr)
  assume "retry_loop 0 f i s \<noteq> None"
  then obtain r where r: "retry_loop 0 f i s = Some r" by blast
  have "(0 :: goint) = 0 \<longrightarrow> \<not> (\<forall>k. fails f k s)"
  proof (rule retry_loop.raw_induct [OF _ r, of "\<lambda>a f i s r. a = 0 \<longrightarrow> \<not> (\<forall>k. fails f k s)"])
    fix loop :: "goint \<Rightarrow> ('a \<Rightarrow> 'a \<times> go_error option) \<Rightarrow> goint \<Rightarrow> 'a \<Rightarrow> ('a \<times> go_error option) option"
    fix a :: goint and f :: "'a \<Rightarrow> 'a \<times> go_error option" and i s r
    assume IH: "\<And>a f i s r. loop a f i s = Some r \<Longrightarrow> a = 0 \<longrightarrow> \<not> (\<forall>k. fails f k s)"
      and eq: "(case f s of (s1, err) \<Rightarrow> case err of None \<Rightarrow> Some (s1, None)
        | Some e \<Rightarrow> if a \<noteq> 0 \<and> sint (a - 1) \<le> sint i then Some (s1, Some (RetriesFailed (sint a) e)) else loop a f (i + 1) s1) = Some r"
    show "a = 0 \<longrightarrow> \<not> (\<forall>k. fails f k s)"
    proof (intro impI notI)
      assume a: "a = 0" and all: "\<forall>k. fails f k s"
      have "snd (f s) \<noteq> None" using all by (auto simp: fails_def dest: spec [of _ 0])
      then have "loop a f (i + 1) (fst (f s)) = Some r" using eq a by (auto split: prod.splits option.splits)
      from IH [OF this] a have "\<exists>k. \<not> fails f (Suc k) s" by (simp add: fails_Suc)
      then show False using all by blast
    qed
  qed
  then show False using assms by simp
qed

section \<open>Properties\<close>

text \<open>
  C31. With 0 attempts \<open>Retry\<close> returns exactly when some call succeeds, and then with success,
  in the state after the first call that succeeded.
\<close>

theorem retry_unlimited:
  "(Retry 0 f s \<noteq> None \<longleftrightarrow> (\<exists>n. \<not> fails f n s))
   \<and> (\<forall>n. (\<forall>k<n. fails f k s) \<and> \<not> fails f n s \<longrightarrow> Retry 0 f s = Some (after_calls f (Suc n) s, None))"
proof -
  have ok: "Retry 0 f s = Some (after_calls f (Suc n) s, None)" if "\<forall>k<n. fails f k s" "\<not> fails f n s" for n
    using retry_loop_success [OF that, of 0 0] by (simp add: Retry_def)
  have "Retry 0 f s \<noteq> None" if "\<not> fails f n s" for n
  proof -
    let ?m = "LEAST n. \<not> fails f n s"
    have "\<not> fails f ?m s" using that by (rule LeastI)
    moreover have "\<forall>k<?m. fails f k s" using not_less_Least [of _ "\<lambda>n. \<not> fails f n s"] by blast
    ultimately have "Retry 0 f s = Some (after_calls f (Suc ?m) s, None)" by (intro ok)
    then show ?thesis by (simp only: option.distinct not_False_eq_True)
  qed
  moreover have "Retry 0 f s = None" if "\<forall>n. fails f n s"
    using retry_loop_forever [OF that] by (simp add: Retry_def)
  ultimately have "Retry 0 f s \<noteq> None \<longleftrightarrow> (\<exists>n. \<not> fails f n s)" by metis
  then show ?thesis using ok by simp
qed

definition third_time :: "nat \<Rightarrow> nat \<times> go_error option" where
  "third_time k = (Suc k, if k < 2 then Some (IoError ''refused'') else None)"

lemma third_time_fails: "fails third_time k 0 \<longleftrightarrow> k < 2" "after_calls third_time k 0 = k"
proof -
  show "after_calls third_time k 0 = k" for k by (induction k) (simp_all add: after_calls_def third_time_def)
  then show "fails third_time k 0 \<longleftrightarrow> k < 2" by (simp add: fails_def third_time_def)
qed

theorem retry_unlimited_witness: "Retry 0 third_time 0 = Some (3, None)"
proof -
  have "(\<forall>k<2. fails third_time k 0) \<and> \<not> fails third_time 2 0" by (simp add: third_time_fails)
  from conjunct2 [OF retry_unlimited [of third_time 0], rule_format, OF this]
  have "Retry 0 third_time 0 = Some (after_calls third_time (Suc 2) 0, None)" .
  then show ?thesis by (simp add: third_time_fails)
qed

text \<open>
  C32. With a positive number of attempts \<open>Retry\<close> returns: with success after the first call
  that succeeds, when it is one of the first \<open>attempts\<close> calls, and otherwise after exactly that
  many calls, with the error that the last of them gave.
\<close>

theorem retry_limited:
  assumes "0 < sint attempts"
  shows "(\<forall>n. int n < sint attempts \<and> (\<forall>k<n. fails f k s) \<and> \<not> fails f n s \<longrightarrow>
            Retry attempts f s = Some (after_calls f (Suc n) s, None))
       \<and> ((\<forall>k<nat (sint attempts). fails f k s) \<longrightarrow>
            Retry attempts f s = Some (after_calls f (nat (sint attempts)) s,
              Some (RetriesFailed (sint attempts) (the (snd (f (after_calls f (nat (sint attempts) - 1) s)))))))"
proof -
  define n where "n = nat (sint attempts) - 1"
  have n: "nat (sint attempts) = Suc n" "sint (0 :: goint) + int n + 1 = sint attempts" using assms by (simp_all add: n_def)
  have "Retry attempts f s = Some (after_calls f (Suc n) s,
      Some (RetriesFailed (sint attempts) (the (snd (f (after_calls f n s))))))"
    if "\<forall>k<Suc n. fails f k s"
    using retry_loop_gives_up [of n f s 0 attempts] that n(2) by (auto simp: Retry_def less_Suc_eq_le)
  then show ?thesis using retry_loop_success [of _ f s attempts 0] by (auto simp: Retry_def n(1))
qed

text \<open>A function whose error names the call it is from.\<close>

definition numbered_error :: "nat \<Rightarrow> nat \<times> go_error option" where
  "numbered_error k = (Suc k, if k < 2 then Some (IoError (if k = 0 then ''first'' else ''second'')) else None)"

lemma numbered_error_fails: "fails numbered_error k 0 \<longleftrightarrow> k < 2" "after_calls numbered_error k 0 = k"
proof -
  show "after_calls numbered_error k 0 = k" for k by (induction k) (simp_all add: after_calls_def numbered_error_def)
  then show "fails numbered_error k 0 \<longleftrightarrow> k < 2" by (simp add: fails_def numbered_error_def)
qed

theorem retry_limited_witness:
  "Retry 3 numbered_error 0 = Some (3, None)
   \<and> Retry 2 numbered_error 0 = Some (2, Some (RetriesFailed 2 (IoError ''second'')))"
proof -
  have "Retry 3 numbered_error 0 = Some (after_calls numbered_error (Suc 2) 0, None)"
    using conjunct1 [OF retry_limited [of 3 numbered_error 0], rule_format, of 2] by (simp add: numbered_error_fails)
  moreover have "Retry 2 numbered_error 0 = Some (2, Some (RetriesFailed 2 (IoError ''second'')))"
    using conjunct2 [OF retry_limited [of 2 numbered_error 0]] by (simp add: numbered_error_fails) (simp add: numbered_error_def)
  ultimately show ?thesis by (simp add: numbered_error_fails)
qed

end
