(* ===== verification/Startup.thy ===== *)
theory Startup
  imports Wire Retry
begin

text \<open>
  Starting a group (\<open>client.go\<close>, \<open>server.go\<close>, \<open>b_multicast.go\<close>): the node listens, and
  connects to all members, itself included, in turn. The handlers of incoming connections
  wait until all clients are ready. The network is the state \<open>'w\<close> of the functions \<open>dial\<close> and
  \<open>write\<close>; server and clients start concurrently.
\<close>

section \<open>Connecting\<close>

text \<open>
  \<open>NewTCPClient\<close>: dial until it works, then say hello. \<open>None\<close>: no attempt ever succeeds. The
  pause between the attempts is the argument; the client records it.
\<close>

definition NewTCPClient ::
  "('w \<Rightarrow> 'w \<times> go_error option) \<Rightarrow> ('w \<Rightarrow> string \<Rightarrow> 'w \<times> go_error option) \<Rightarrow> string \<Rightarrow> string \<Rightarrow> string \<Rightarrow> int \<Rightarrow>
     'w \<Rightarrow> ('w \<times> (go_error + TCPClient)) option" where
  "NewTCPClient dial write srcID dstID addr interval w =
     (case Retry 0 dial w of
        None \<Rightarrow> None
      | Some (w1, Some e) \<Rightarrow> Some (w1, Inl e)
      | Some (w1, None) \<Rightarrow>
          (case write w1 (hello srcID) of
             (w2, Some e) \<Rightarrow> Some (w2, Inl (Wrap e ''client lost connection, write handshake message error''))
           | (w2, None) \<Rightarrow>
               Some (w2, Inr \<lparr>c_srcID = srcID, c_dstID = dstID, c_addr = addr, c_retryInterval = interval\<rparr>)))"

text \<open>Once an attempt succeeds the client is made, when the hello is written.\<close>

lemma NewTCPClient_connects:
  assumes "\<forall>k<n. fails dial k w" "\<not> fails dial n w" "write (after_calls dial (Suc n) w) (hello srcID) = (w2, None)"
  shows "NewTCPClient dial write srcID dstID addr interval w =
     Some (w2, Inr \<lparr>c_srcID = srcID, c_dstID = dstID, c_addr = addr, c_retryInterval = interval\<rparr>)"
  using retry_loop_success [OF assms(1,2), of 0 0] assms(3) by (simp add: NewTCPClient_def Retry_def)

lemma NewTCPClient_waits: "\<forall>k. fails dial k w \<Longrightarrow> NewTCPClient dial write srcID dstID addr interval w = None"
  by (simp add: NewTCPClient_def Retry_def retry_loop_forever)

section \<open>The start of the basic layer\<close>

text \<open>
  The node's own id, and what is left of \<open>startServer\<close> (the members not yet counted on the wait group, then the
  listening) and of \<open>startClients\<close> (the members not yet connected). \<open>serving\<close> tells that a
  handler of an incoming connection has passed the wait group. A negative counter panics.
\<close>

record startup =
  self_id :: string
  to_count :: "Node list"
  listening :: bool
  to_connect :: "Node list"
  basic :: bmulticast
  serving :: bool
  server_err :: "go_error option"
  clients_err :: "go_error option"
  panicked :: bool

definition startup_init :: "string \<Rightarrow> Node list \<Rightarrow> bmulticast \<Rightarrow> startup" where
  "startup_init i ms b =
     \<lparr>self_id = i, to_count = ms, listening = False, to_connect = ms, basic = bindBDeliver b, serving = False,
      server_err = None, clients_err = None, panicked = False\<rparr>"

definition wg_add :: "int \<Rightarrow> startup \<Rightarrow> startup" where
  "wg_add k s =
     (let n = startSyncWaitGroup (basic s) + k
      in s\<lparr>basic := (basic s)\<lparr>startSyncWaitGroup := n\<rparr>, panicked := (panicked s \<or> n < 0)\<rparr>)"

definition count_member :: "startup \<Rightarrow> startup" where
  "count_member s = wg_add 1 (s\<lparr>to_count := tl (to_count s)\<rparr>)"

definition listen :: "go_error option \<Rightarrow> startup \<Rightarrow> startup" where
  "listen err s = (case err of None \<Rightarrow> s\<lparr>listening := True\<rparr> | Some e \<Rightarrow> s\<lparr>server_err := Some e\<rparr>)"

text \<open>
  \<open>startClient\<close> on the next member, with the outcome of \<open>NewTCPClient\<close>: the client is added,
  as a nil pointer after an error, the member is done, and an error ends the loop.
\<close>

definition startClient :: "go_error + TCPClient \<Rightarrow> startup \<Rightarrow> startup" where
  "startClient outcome s =
     (let m = hd (to_connect s);
          client = (case outcome of Inl e \<Rightarrow> None | Inr c \<Rightarrow> Some c);
          s1 = wg_add (- 1) (s\<lparr>basic := AddMember (ID m) client (basic s), to_connect := tl (to_connect s)\<rparr>)
      in case outcome of Inl e \<Rightarrow> s1\<lparr>to_connect := [], clients_err := Some e\<rparr> | Inr c \<Rightarrow> s1)"

definition pass_wait :: "startup \<Rightarrow> startup" where
  "pass_wait s = s\<lparr>serving := True\<rparr>"

text \<open>
  The outcome of connecting to another node is any; the node itself cannot be connected to
  before it listens, since \<open>NewTCPClient\<close> dials until it succeeds.
\<close>

inductive startup_step :: "startup \<Rightarrow> startup \<Rightarrow> bool" where
  count_member: "\<not> panicked s \<Longrightarrow> to_count s \<noteq> [] \<Longrightarrow> startup_step s (count_member s)"
| listen: "\<not> panicked s \<Longrightarrow> to_count s = [] \<Longrightarrow> \<not> listening s \<Longrightarrow> server_err s = None \<Longrightarrow>
    startup_step s (listen err s)"
| startClient: "\<not> panicked s \<Longrightarrow> to_connect s \<noteq> [] \<Longrightarrow> (ID (hd (to_connect s)) = self_id s \<longrightarrow> listening s) \<Longrightarrow>
    startup_step s (startClient outcome s)"
| pass_wait: "\<not> panicked s \<Longrightarrow> listening s \<Longrightarrow> startSyncWaitGroup (basic s) = 0 \<Longrightarrow> startup_step s (pass_wait s)"

inductive_cases startup_stepE: "startup_step s s'"

inductive startup_run :: "string \<Rightarrow> Node list \<Rightarrow> bmulticast \<Rightarrow> startup \<Rightarrow> bool" for i ms b where
  init: "startup_run i ms b (startup_init i ms b)"
| step: "startup_run i ms b s \<Longrightarrow> startup_step s s' \<Longrightarrow> startup_run i ms b s'"

section \<open>The barrier\<close>

text \<open>
  The members done are a prefix of all; the counter is the members counted less those done;
  the table of senders has every member done, and a real client for it unless the loop ended
  with an error; handlers run only when all are done.
\<close>

definition startup_inv :: "Node list \<Rightarrow> startup \<Rightarrow> bool" where
  "startup_inv ms s \<longleftrightarrow>
     (\<exists>done rest. ms = done @ rest
        \<and> (if clients_err s = None then to_connect s = rest else to_connect s = [])
        \<and> startSyncWaitGroup (basic s) = int (length ms) - int (length (to_count s)) - int (length done)
        \<and> length (to_count s) \<le> length ms
        \<and> (\<forall>m\<in>set done. \<exists>c. senders (basic s) (ID m) = Some c \<and> (clients_err s = None \<longrightarrow> c \<noteq> None))
        \<and> (listening s \<longrightarrow> to_count s = [])
        \<and> (serving s \<longrightarrow> rest = []))"

lemma startup_inv_init: "startSyncWaitGroup b = 0 \<Longrightarrow> startup_inv ms (startup_init i ms b)"
  by (auto simp: startup_inv_def startup_init_def bindBDeliver_def intro!: exI [of _ "[]"])

lemma startup_inv_step:
  assumes "startup_inv ms s" "startup_step s s'"
  shows "startup_inv ms s'"
proof -
  obtain dn rest where I: "ms = dn @ rest"
    "if clients_err s = None then to_connect s = rest else to_connect s = []"
    "startSyncWaitGroup (basic s) = int (length ms) - int (length (to_count s)) - int (length dn)"
    "length (to_count s) \<le> length ms"
    "\<forall>m\<in>set dn. \<exists>c. senders (basic s) (ID m) = Some c \<and> (clients_err s = None \<longrightarrow> c \<noteq> None)"
    "listening s \<longrightarrow> to_count s = []" "serving s \<longrightarrow> rest = []"
    using assms(1) unfolding startup_inv_def by blast
  from assms(2) show ?thesis
  proof cases
    case count_member
    have "int (length (tl (to_count s))) = int (length (to_count s)) - 1"
      using count_member(3) by (cases "to_count s") simp_all
    then show ?thesis
      unfolding startup_inv_def using I count_member
      by (intro exI [of _ dn] exI [of _ rest]) (auto simp: count_member_def wg_add_def Let_def split: if_splits)
  next
    case (listen err)
    then show ?thesis
      unfolding startup_inv_def using I
      by (intro exI [of _ dn] exI [of _ rest]) (auto simp: listen_def split: option.splits)
  next
    case (startClient outcome)
    have ce: "clients_err s = None" using I(2) startClient(3) by (auto split: if_splits)
    then obtain m rest' where m: "rest = m # rest'" "to_connect s = m # rest'"
      using I(2) startClient(3) by (cases "to_connect s") auto
    show ?thesis
      unfolding startup_inv_def using I m ce startClient(1)
      by (intro exI [of _ "dn @ [m]"] exI [of _ rest'])
         (auto simp: startClient_def wg_add_def AddMember_def Let_def split: sum.splits)
  next
    case pass_wait
    then have "rest = []" using I(1,3,6) by simp
    then show ?thesis
      unfolding startup_inv_def using I pass_wait
      by (intro exI [of _ dn] exI [of _ rest]) (auto simp: pass_wait_def)
  qed
qed

lemma startup_run_inv: "startup_run i ms b s \<Longrightarrow> startSyncWaitGroup b = 0 \<Longrightarrow> startup_inv ms s"
  by (induction rule: startup_run.induct) (auto intro: startup_inv_init startup_inv_step)

section \<open>Properties\<close>

text \<open>
  C35. The barrier of the start: no handler of an incoming connection passes the wait group
  before the table of senders has every member; and when connecting gave no error, each of
  them has a real client.
\<close>

theorem startup_barrier:
  assumes "startup_run i ms b s" "startSyncWaitGroup b = 0" "serving s" "m \<in> set ms"
  shows "\<exists>c. senders (basic s) (ID m) = Some c \<and> (clients_err s = None \<longrightarrow> c \<noteq> None)"
proof -
  have "startup_inv ms s" using startup_run_inv assms(1,2) .
  then show ?thesis using assms(3,4) unfolding startup_inv_def by fastforce
qed

definition sample_client :: TCPClient where
  "sample_client = \<lparr>c_srcID = ''A'', c_dstID = ''A'', c_addr = ''0.0.0.0:8080'', c_retryInterval = 5000000000\<rparr>"

definition sample_start :: startup where
  "sample_start = pass_wait (startClient (Inr sample_client) (listen None (count_member
     (startup_init ''A'' [\<lparr>ID = ''A'', Addr = ''0.0.0.0:8080''\<rparr>] NewBMulticast))))"

lemmas startup_ops = startup_init_def count_member_def listen_def startClient_def pass_wait_def wg_add_def AddMember_def
  bindBDeliver_def NewBMulticast_def

lemma started_group_run: "startup_run ''A'' [\<lparr>ID = ''A'', Addr = ''0.0.0.0:8080''\<rparr>] NewBMulticast sample_start"
  unfolding sample_start_def
  by (intro startup_run.step [OF _ startup_step.pass_wait] startup_run.step [OF _ startup_step.startClient]
      startup_run.step [OF _ startup_step.listen] startup_run.step [OF _ startup_step.count_member] startup_run.init)
     (simp_all add: startup_ops Let_def)

theorem startup_barrier_witness:
  "serving sample_start \<and> (\<exists>c. senders (basic sample_start) ''A'' = Some (Some c))"
proof -
  have s: "serving sample_start" "clients_err sample_start = None"
    by (simp_all add: sample_start_def startup_ops Let_def)
  show ?thesis
    using startup_barrier [OF started_group_run _ s(1), of "\<lparr>ID = ''A'', Addr = ''0.0.0.0:8080''\<rparr>"] s
    by (auto simp: NewBMulticast_def)
qed

text \<open>
  When the first member is the node itself the counting is over before the first client is
  done, and the counter is never negative.
\<close>

definition self_first :: "Node list \<Rightarrow> startup \<Rightarrow> bool" where
  "self_first ms s \<longleftrightarrow> self_id s = ID (hd ms) \<and> \<not> panicked s
     \<and> (listening s \<or> to_connect s = ms \<and> clients_err s = None)"

lemma self_first_step:
  assumes "ms \<noteq> []" "startup_inv ms s" "self_first ms s" "startup_step s s'"
  shows "self_first ms s'"
proof -
  obtain dn rest where I: "ms = dn @ rest"
    "if clients_err s = None then to_connect s = rest else to_connect s = []"
    "startSyncWaitGroup (basic s) = int (length ms) - int (length (to_count s)) - int (length dn)"
    "length (to_count s) \<le> length ms" "listening s \<longrightarrow> to_count s = []"
    using assms(2) unfolding startup_inv_def by blast
  from assms(4) show ?thesis
  proof cases
    case count_member
    then have "to_connect s = ms" "clients_err s = None" using assms(3) I(5) by (auto simp: self_first_def)
    then have "dn = []" using I(1,2) by simp
    then show ?thesis using assms(3) count_member I(3,4) by (auto simp: self_first_def count_member_def wg_add_def Let_def)
  next
    case (listen err)
    then show ?thesis using assms(3) by (auto simp: self_first_def listen_def split: option.split)
  next
    case (startClient outcome)
    then have l: "listening s" using assms(3) by (auto simp: self_first_def)
    have "clients_err s = None" "rest \<noteq> []" using I(2) startClient(3) by (auto split: if_splits)
    then have "0 < startSyncWaitGroup (basic s)" using I(1,3,5) l by (cases rest) auto
    then show ?thesis
      using assms(3) l startClient(1)
      by (auto simp: self_first_def startClient_def wg_add_def AddMember_def Let_def split: sum.splits)
  next
    case pass_wait
    then show ?thesis using assms(3) by (auto simp: self_first_def pass_wait_def)
  qed
qed

lemma self_first_run:
  assumes "startup_run i ms b s" "ms \<noteq> []" "startSyncWaitGroup b = 0" "ID (hd ms) = i"
  shows "self_first ms s"
  using assms(1)
proof induction
  case init
  then show ?case using assms(4) by (simp add: self_first_def startup_init_def)
next
  case (step s s')
  then show ?case using self_first_step [OF assms(2) startup_run_inv [OF step(1) assms(3)]] by blast
qed

text \<open>
  C36. The start can panic: server and clients run concurrently, and a client that is ready
  before the server has counted its members takes the wait group below zero. This can happen
  exactly in the groups whose first member is not the node itself, which are all groups of a
  configuration file that names another node.
\<close>

theorem startup_race:
  assumes "ms \<noteq> []" "startSyncWaitGroup b = 0"
  shows "(ID (hd ms) \<noteq> i \<longrightarrow> (\<exists>s. startup_run i ms b s \<and> panicked s \<and> startSyncWaitGroup (basic s) < 0))
    \<and> (ID (hd ms) = i \<longrightarrow> (\<forall>s. startup_run i ms b s \<longrightarrow> \<not> panicked s))"
proof (intro conjI impI)
  let ?s = "startup_init i ms b"
  assume "ID (hd ms) \<noteq> i"
  then have "startup_step ?s (startClient (Inr sample_client) ?s)"
    using assms(1) by (intro startup_step.startClient) (simp_all add: startup_init_def)
  then have "startup_run i ms b (startClient (Inr sample_client) ?s)" by (rule startup_run.step [OF startup_run.init])
  moreover have "startSyncWaitGroup (basic (startClient (Inr sample_client) ?s)) = - 1"
    "panicked (startClient (Inr sample_client) ?s)"
    using assms(2) by (simp_all add: startClient_def wg_add_def startup_init_def bindBDeliver_def AddMember_def Let_def)
  ultimately show "\<exists>s. startup_run i ms b s \<and> panicked s \<and> startSyncWaitGroup (basic s) < 0"
    by (intro exI [of _ "startClient (Inr sample_client) ?s"]) simp
qed (use self_first_run [OF _ assms] in \<open>auto simp: self_first_def\<close>)

theorem startup_race_witness:
  "(\<exists>s. startup_run ''A'' [\<lparr>ID = ''B'', Addr = ''vm2:8080''\<rparr>, \<lparr>ID = ''A'', Addr = ''0.0.0.0:8080''\<rparr>] NewBMulticast s \<and> panicked s)
   \<and> \<not> (\<exists>s. startup_run ''A'' [\<lparr>ID = ''A'', Addr = ''0.0.0.0:8080''\<rparr>] NewBMulticast s \<and> panicked s)"
  using startup_race [of "[\<lparr>ID = ''B'', Addr = ''vm2:8080''\<rparr>, \<lparr>ID = ''A'', Addr = ''0.0.0.0:8080''\<rparr>]" NewBMulticast "''A''"]
    startup_race [of "[\<lparr>ID = ''A'', Addr = ''0.0.0.0:8080''\<rparr>]" NewBMulticast "''A''"]
  by (auto simp: NewBMulticast_def)

end
