(* ===== verification/Config.thy ===== *)
theory Config
  imports Go_Strings
begin

text \<open>
  The configuration file (\<open>lib/mp1/config/config.go\<close>): a count on the first line, then one
  node on each line. The result of opening the file is an argument: an error, or its text.
  The loop tests the counter after it has read a line, and with \<open>\<le>\<close>: it takes one line more
  than the count. Lines that do not have three fields are skipped, and counted.
\<close>

record ConfigItem =
  NodeID :: string
  NodeHost :: string
  NodePort :: string

record Config =
  ConfigItems :: "ConfigItem list"

definition parse_item :: "string \<Rightarrow> ConfigItem list" where
  "parse_item line =
     (let fields = Fields (TrimSpace line) in
      if length fields \<noteq> 3 then []
      else [\<lparr>NodeID = fields ! 0, NodeHost = fields ! 1, NodePort = fields ! 2\<rparr>])"

text \<open>
  The loop over the lines left; \<open>err\<close> is the error the scanner ends with, which is seen only
  when the scanner gets there.
\<close>

fun items_loop ::
  "goint \<Rightarrow> goint \<Rightarrow> string list \<Rightarrow> go_error option \<Rightarrow> ConfigItem list \<Rightarrow> go_error + ConfigItem list" where
  "items_loop i cnt [] err configItem = (case err of Some e \<Rightarrow> Inl e | None \<Rightarrow> Inr configItem)"
| "items_loop i cnt (line # ls) err configItem =
     (if sint i \<le> sint cnt then items_loop (i + 1) cnt ls err (configItem @ parse_item line)
      else Inr configItem)"

definition ConfigItemsParser :: "go_error + string \<Rightarrow> go_error + ConfigItem list" where
  "ConfigItemsParser file =
     (case file of
        Inl e \<Rightarrow> Inl e
      | Inr text \<Rightarrow>
          (let (ls, err) = scan_lines text in
           case ls of
             [] \<Rightarrow> items_loop 0 0 [] err []
           | firstLine # rest \<Rightarrow>
               (case Atoi (TrimSpace firstLine) of
                  Inl e \<Rightarrow> Inl e
                | Inr configItemCount \<Rightarrow> items_loop 0 configItemCount rest err [])))"

definition ConfigParser :: "go_error + string \<Rightarrow> go_error + Config" where
  "ConfigParser file =
     (case ConfigItemsParser file of Inl e \<Rightarrow> Inl e | Inr items \<Rightarrow> Inr \<lparr>ConfigItems = items\<rparr>)"

section \<open>Reading a well-formed file\<close>

definition item_text :: "ConfigItem \<Rightarrow> string" where
  "item_text c = NodeID c @ '' '' @ NodeHost c @ '' '' @ NodePort c"

definition item_ok :: "ConfigItem \<Rightarrow> bool" where
  "item_ok c \<longleftrightarrow> is_word (NodeID c) \<and> is_word (NodeHost c) \<and> is_word (NodePort c) \<and> length (item_text c) < max_token"

definition config_text :: "goint \<Rightarrow> ConfigItem list \<Rightarrow> string" where
  "config_text cnt items = concat (map (\<lambda>l. l @ [newline]) (dec_int (sint cnt) # map item_text items))"

lemma trim_word_ends:
  assumes "s \<noteq> []" "word_char (hd s)" "word_char (last s)"
  shows "TrimSpace s = s"
proof -
  obtain c t where s: "s = c # t" using assms(1) by (cases s) auto
  have l: "trim_left s = s" using space_len_word [of c t] assms(2) s by (simp add: trim_left.simps)
  have "\<not> suffix w s" if "w \<in> set wide_spaces" for w
  proof
    assume "suffix w s"
    then have "last w = last s" using wide_space_ne [OF that] by (auto simp: suffix_def)
    moreover have "(128 :: nat) \<le> of_char (last w)" using that by (auto simp: wide_spaces_def)
    ultimately show False using assms(3) by (simp add: word_char_def)
  qed
  then have "find (\<lambda>w. suffix w s) wide_spaces = None" by (auto simp: find_None_iff)
  then have "ends_in_space s = 0" using assms(3) by (simp add: ends_in_space_def word_char_def)
  then show ?thesis using l by (simp add: TrimSpace_def trim_right.simps)
qed

lemma Fields_item: "item_ok c \<Longrightarrow> Fields (TrimSpace (item_text c)) = [NodeID c, NodeHost c, NodePort c]"
proof -
  assume "item_ok c"
  then have w: "is_word (NodeID c)" "is_word (NodeHost c)" "is_word (NodePort c)" by (simp_all add: item_ok_def)
  note d = w [THEN is_wordD]
  have "TrimSpace (item_text c) = item_text c" using d by (intro trim_word_ends) (simp_all add: item_text_def)
  moreover have "fields_from [] (NodePort c) = [NodePort c]"
    using d fields_from_word [of "NodePort c" "[]" "[]"] by (simp add: fields_from.simps [of _ "[]"])
  ultimately show ?thesis
    using d by (simp add: Fields_def item_text_def fields_from_word fields_from_blank)
qed

lemma parse_item_text: "item_ok c \<Longrightarrow> parse_item (item_text c) = [c]"
  by (simp add: parse_item_def Fields_item eval_nat_numeral)

lemma items_loop_take:
  assumes "\<forall>c\<in>set items. item_ok c" "0 \<le> sint i" "sint i \<le> sint cnt + 1" "sint cnt < goint_max"
  shows "items_loop i cnt (map item_text items) None acc = Inr (acc @ take (nat (sint cnt + 1 - sint i)) items)"
  using assms
proof (induction items arbitrary: i acc)
  case (Cons c items)
  show ?case
  proof (cases "sint i \<le> sint cnt")
    case True
    have i1: "sint (i + 1) = sint i + 1"
      using sint_goint_add [of i 1] Cons.prems(2,4) True by (simp add: goint_min_def)
    have "nat (sint cnt + 1 - sint i) = Suc (nat (sint cnt + 1 - sint (i + 1)))" using i1 True by simp
    moreover have "items_loop (i + 1) cnt (map item_text items) None (acc @ [c])
        = Inr ((acc @ [c]) @ take (nat (sint cnt + 1 - sint (i + 1))) items)"
      using Cons.prems i1 True by (intro Cons.IH) auto
    ultimately show ?thesis using Cons.prems(1) True by (simp add: parse_item_text)
  qed (use Cons.prems in simp)
qed simp

lemma dec_int_line: "newline \<notin> set (dec_int i)" "dec_int i \<noteq> []" "last (dec_int i) \<noteq> CHR 0x0D"
  using is_wordD [OF is_word_dec_int [of i]] break_not_word by metis+

lemma length_dec_nat: "n < 10 ^ k \<Longrightarrow> 0 < k \<Longrightarrow> length (dec_nat n) \<le> k"
proof (induction n arbitrary: k rule: dec_nat.induct)
  case (1 n)
  show ?case
  proof (cases "n < 10")
    case True
    then show ?thesis using 1 by (simp add: dec_nat_small)
  next
    case False
    then obtain k' where k: "k = Suc k'" "0 < k'" using "1.prems" by (cases k; cases "k - 1") auto
    then have "n div 10 < 10 ^ k'" using "1.prems" by (simp add: less_mult_imp_div_less mult.commute)
    then show ?thesis using "1.IH" [OF False, of k'] False k by (simp add: dec_nat_step)
  qed
qed

lemma length_dec_sint: "length (dec_int (sint (x :: goint))) < max_token"
proof -
  have "nat (sint x) < 10 ^ 20" "nat (- sint x) < 10 ^ 20"
    using sint_goint_range [of x] by (simp_all add: goint_min_def goint_max_def nat_less_iff)
  then have "length (dec_nat (nat (sint x))) \<le> 20" "length (dec_nat (nat (- sint x))) \<le> 20"
    using length_dec_nat by simp_all
  then show ?thesis by (simp add: dec_int_def max_token_def)
qed

lemma item_line: "item_ok c \<Longrightarrow> newline \<notin> set (item_text c) \<and> last (item_text c) \<noteq> CHR 0x0D"
proof -
  assume "item_ok c"
  then have w: "is_word (NodeID c)" "is_word (NodeHost c)" "is_word (NodePort c)" by (simp_all add: item_ok_def)
  have "newline \<noteq> CHR '' ''" by (simp add: newline_eq)
  then show ?thesis using w [THEN is_wordD] break_not_word by (auto simp: item_text_def)
qed

lemma ConfigItemsParser_text:
  assumes "\<forall>c\<in>set items. item_ok c" "- 1 \<le> sint cnt" "sint cnt < goint_max"
  shows "ConfigItemsParser (Inr (config_text cnt items)) = Inr (take (nat (sint cnt + 1)) items)"
proof -
  have "scan_lines (config_text cnt items) = (dec_int (sint cnt) # map item_text items, None)"
    unfolding config_text_def
    using assms(1) item_line dec_int_line length_dec_sint by (intro scan_lines_unlines) (auto simp: item_ok_def)
  moreover have "TrimSpace (dec_int (sint cnt)) = dec_int (sint cnt)"
    using is_wordD [OF is_word_dec_int [of "sint cnt"]] by (intro trim_word_ends) simp_all
  ultimately show ?thesis
    using items_loop_take [of items 0 cnt "[]"] assms by (simp add: ConfigItemsParser_def Atoi_dec_int)
qed

section \<open>Properties\<close>

text \<open>
  C30. A well-formed configuration whose first line is the number \<open>cnt\<close> gives its first
  \<open>cnt + 1\<close> nodes, in order: one more than the count says, when the file has that many.
\<close>

theorem config_takes_one_more:
  assumes "\<forall>c\<in>set items. item_ok c" "- 1 \<le> sint cnt" "sint cnt < goint_max"
  shows "ConfigParser (Inr (config_text cnt items)) = Inr \<lparr>ConfigItems = take (nat (sint cnt + 1)) items\<rparr>"
  using ConfigItemsParser_text [OF assms] by (simp add: ConfigParser_def)

definition sample_item :: "string \<Rightarrow> ConfigItem" where
  "sample_item i = \<lparr>NodeID = i, NodeHost = ''127.1'', NodePort = ''8080''\<rparr>"

lemma sample_item_ok: "item_ok (sample_item [CHR ''A''])" "item_ok (sample_item [CHR ''B''])" "item_ok (sample_item [CHR ''C''])"
  by (simp_all add: item_ok_def sample_item_def is_word_def word_char_def ascii_space_def item_text_def max_token_def)

theorem config_takes_one_more_witness:
  "ConfigParser (Inr (config_text 1 [sample_item ''A'', sample_item ''B'', sample_item ''C'']))
     = Inr \<lparr>ConfigItems = [sample_item ''A'', sample_item ''B'']\<rparr>"
  using config_takes_one_more [of "[sample_item ''A'', sample_item ''B'', sample_item ''C'']" 1] sample_item_ok
  by (simp add: goint_max_def eval_nat_numeral)

end
