(* ===== verification/Node_Command.thy ===== *)
theory Node_Command
  imports Startup Config Processor
begin

text \<open>
  The command of a node (\<open>cmd/mp1/root.go\<close>): arguments, the group built from the
  configuration, and the loop that multicasts the events of standard input.
\<close>

section \<open>Arguments\<close>

definition ParsePort :: "string \<Rightarrow> go_error + goint" where
  "ParsePort portRawStr =
     (case Atoi portRawStr of
        Inl e \<Rightarrow> Inl (Errorf (''port should be positive number, received '' @ portRawStr))
      | Inr port \<Rightarrow>
          if sint port < 0 then Inl (Errorf (''port should be positive number, received '' @ portRawStr))
          else Inr port)"

lemma ParsePort_dec_int:
  "ParsePort (dec_int (sint n)) =
     (if sint n < 0 then Inl (Errorf (''port should be positive number, received '' @ dec_int (sint n))) else Inr n)"
  by (simp add: ParsePort_def Atoi_dec_int)

section \<open>The group\<close>

definition CONN_HOST :: string where
  "CONN_HOST = ''0.0.0.0''"

definition member_of :: "ConfigItem \<Rightarrow> Node" where
  "member_of configItem = \<lparr>ID = NodeID configItem, Addr = JoinHostPort (NodeHost configItem) (NodePort configItem)\<rparr>"

definition ConstructGroup ::
  "'p \<Rightarrow> string \<Rightarrow> string \<Rightarrow> go_error + string \<Rightarrow> go_error + ('b, 'h, 'p) node" where
  "ConstructGroup p0 nodeID nodePort file =
     (case ConfigParser file of
        Inl e \<Rightarrow> Inl e
      | Inr nodesConfig \<Rightarrow>
          (let addr = JoinHostPort CONN_HOST nodePort
           in Inr (Build p0
                (gb_AddMember nodeID addr
                  (WithMembers (map member_of (ConfigItems nodesConfig))
                    (WithSelfNodeAddr addr (WithSelfNodeID nodeID NewGroupBuilder)))))))"

section \<open>The node\<close>

text \<open>The loop over the events: an error is logged, and the loop goes on.\<close>

fun multicast_events ::
  "env list \<Rightarrow> event router_Msg list \<Rightarrow> (string, 'h, 'p) node \<Rightarrow>
     ((string, 'h, 'p) node \<times> string effect list) option" where
  "multicast_events (e # env) (msg # msgs) nd =
     (case node_multicast json_codec e (m_Path msg) (marshal_event (m_Body msg)) nd of
        None \<Rightarrow> None
      | Some (nd1, es, err) \<Rightarrow>
          (case multicast_events env msgs nd1 of
             None \<Rightarrow> None
           | Some (nd2, es2) \<Rightarrow> Some (nd2, es @ es2)))"
| "multicast_events _ _ nd = Some (nd, [])"

text \<open>
  \<open>RootCMDMain\<close>: the group is built and started (\<open>start\<close> is the outcome of \<open>Group.Start\<close>)
  with the handlers of the bank bound, and then the events of standard input are multicast.
  The command returns on an error only.
\<close>

definition RootCMDMain ::
  "string \<Rightarrow> string \<Rightarrow> go_error + string \<Rightarrow>
     ((string, bank_handler, transaction) node \<Rightarrow> go_error + (string, bank_handler, transaction) node) \<Rightarrow>
     env list \<Rightarrow> string \<Rightarrow>
     (go_error + (string, bank_handler, transaction) node \<times> string effect list) option" where
  "RootCMDMain nodeID nodePort file start env stdin =
     (case ConstructGroup NewProcessor nodeID nodePort file of
        Inl e \<Rightarrow> Some (Inl e)
      | Inr grp \<Rightarrow>
          (case start (grp\<lparr>totalOrder := RegisteTransactionHandler (totalOrder grp)\<rparr>) of
             Inl e \<Rightarrow> Some (Inl (Wrap e ''group start failed''))
           | Inr nd \<Rightarrow> map_option Inr (multicast_events env (TransactionEventListenerPipeline [] stdin) nd)))"

section \<open>Facts\<close>

lemma ConstructGroup_text:
  assumes "\<forall>c\<in>set items. item_ok c" "- 1 \<le> sint n" "sint n < goint_max"
  shows "\<exists>nd. ConstructGroup p0 nodeID nodePort (Inr (config_text n items)) = Inr nd
     \<and> SelfNodeID nd = nodeID \<and> SelfNodeAddr nd = JoinHostPort CONN_HOST nodePort \<and> processor nd = p0
     \<and> members nd = map member_of (take (nat (sint n + 1)) items) @ [\<lparr>ID = nodeID, Addr = JoinHostPort CONN_HOST nodePort\<rparr>]"
  using ConfigItemsParser_text [OF assms]
  by (simp add: ConstructGroup_def ConfigParser_def Let_def Build_def gb_AddMember_def WithMembers_def
      WithSelfNodeAddr_def WithSelfNodeID_def NewGroupBuilder_def)

text \<open>Input that is the text of events is multicast event by event.\<close>

lemma pipeline_events:
  assumes "\<forall>v\<in>set vs. event_words v \<and> length (event_line v) < max_token"
  shows "TransactionEventListenerPipeline reader (concat (map (\<lambda>v. event_line v @ [newline]) vs)) = map event_msg vs"
proof -
  have w: "c = CHR '' '' \<or> word_char c" if "v \<in> set vs" "c \<in> set (event_line v)" for v c
    using assms that is_word_dec_int is_word_marks
    by (fastforce simp: event_line_def event_words_def unwords_def is_word_def split: event.splits)
  have "\<forall>l\<in>set (map event_line vs). newline \<notin> set l \<and> length l < max_token \<and> (l = [] \<or> last l \<noteq> CHR 0x0D)"
  proof
    fix l assume "l \<in> set (map event_line vs)"
    then obtain v where v: "v \<in> set vs" "l = event_line v" by auto
    have "c \<noteq> newline \<and> c \<noteq> CHR 0x0D" if "c \<in> set l" for c
      using w [OF v(1), of c] that v(2) break_not_word by (auto simp: newline_eq)
    then show "newline \<notin> set l \<and> length l < max_token \<and> (l = [] \<or> last l \<noteq> CHR 0x0D)"
      using assms v last_in_set by blast
  qed
  from scan_lines_unlines [OF this]
  have "scan_lines (concat (map (\<lambda>v. event_line v @ [newline]) vs)) = (map event_line vs, None)"
    by (simp add: comp_def)
  moreover have "concat (map (\<lambda>line. case EncodeTransactionsMsg line of Inl e \<Rightarrow> [] | Inr m \<Rightarrow> [m]) (map event_line vs))
      = map event_msg vs"
    using assms by (induction vs) (simp_all add: EncodeTransactionsMsg_line)
  ultimately show ?thesis by (simp add: TransactionEventListenerPipeline_def)
qed

section \<open>Properties\<close>

text \<open>
  C37. The group of a node: for a well-formed configuration its members are the configured nodes
  (one more than the count, when the file has that many) at their host and port, followed by
  the node itself, listening on all interfaces.
\<close>

theorem group_from_config:
  assumes "\<forall>c\<in>set items. item_ok c" "- 1 \<le> sint n" "sint n < goint_max"
  shows "\<exists>nd. ConstructGroup p0 nodeID nodePort (Inr (config_text n items)) = Inr nd
     \<and> SelfNodeID nd = nodeID \<and> SelfNodeAddr nd = ''0.0.0.0:'' @ nodePort \<and> processor nd = p0
     \<and> members nd = map member_of (take (nat (sint n + 1)) items) @ [\<lparr>ID = nodeID, Addr = ''0.0.0.0:'' @ nodePort\<rparr>]"
  using ConstructGroup_text [OF assms, of p0 nodeID nodePort] by (simp add: JoinHostPort_def CONN_HOST_def)

theorem group_from_config_witness:
  "\<exists>nd. ConstructGroup NewProcessor ''C'' ''8082'' (Inr (config_text 2 [sample_item ''A'', sample_item ''B''])) = Inr nd
     \<and> map ID (members nd) = [''A'', ''B'', ''C''] \<and> map Addr (members nd) = [''127.1:8080'', ''127.1:8080'', ''0.0.0.0:8082'']"
  using group_from_config [of "[sample_item ''A'', sample_item ''B'']" 2 NewProcessor "''C''" "''8082''"] sample_item_ok
  by (auto simp: goint_max_def member_of_def sample_item_def JoinHostPort_def)

text \<open>
  C38. Standard input that is the text of events, one on each line, is turned into exactly their
  messages, in order, whatever reader the pipeline is given.
\<close>

theorem stdin_is_events:
  assumes "\<forall>v\<in>set vs. event_words v \<and> length (event_line v) < max_token"
  shows "TransactionEventListenerPipeline reader (concat (map (\<lambda>v. event_line v @ [newline]) vs)) = map event_msg vs"
  using pipeline_events [OF assms] .

theorem stdin_is_events_witness:
  "TransactionEventListenerPipeline [] (event_line (TransferOf sample_transfer) @ [newline])
     = [NewMsg TransferPath (TransferOf sample_transfer)]"
proof -
  have "length (dec_int (12 :: int)) \<le> 2" using length_dec_nat [of 12 2] by (simp add: dec_int_def)
  then show ?thesis
    using stdin_is_events [of "[TransferOf sample_transfer]" "[]"]
    by (simp add: event_words_def is_word_def word_char_def ascii_space_def event_line_def unwords_def event_msg_def
        sample_transfer_def TransferEvent_def max_token_def)
qed

end
