(* ===== verification/Mp0.thy ===== *)
theory Mp0
  imports Wire
begin

text \<open>
  The first program of the repository (\<open>cmd/mp0\<close>, \<open>lib/mp0/types\<close>): clients read events,
  each a time stamp and a payload, and send them in JSON to a server that prints them.
  The server decodes a stream of values, without separators, into one and the same message.
  Floating-point numbers and their formats are an argument of the model.
\<close>

section \<open>Messages\<close>

record Msg =
  g_From :: string
  g_TimeStamp :: string
  g_Payload :: string

definition Msg_struct :: "Msg \<Rightarrow> struct" where
  "Msg_struct m = [(''from'', FStr (g_From m)), (''timestamp'', FStr (g_TimeStamp m)), (''payload'', FStr (g_Payload m))]"

definition Msg_of :: "struct \<Rightarrow> Msg" where
  "Msg_of fs = \<lparr>g_From = str_at fs 0, g_TimeStamp = str_at fs 1, g_Payload = str_at fs 2\<rparr>"

section \<open>The client\<close>

definition client_ParsePort :: "string \<Rightarrow> go_error + goint" where
  "client_ParsePort portRawStr =
     (case Atoi portRawStr of
        Inl e \<Rightarrow> Inl (Errorf (''port should be positive number, received '' @ portRawStr))
      | Inr port \<Rightarrow>
          if sint port < 0 then Inl (Errorf (''port should be positive number, received '' @ portRawStr))
          else Inr port)"

text \<open>
  The loop over the lines: \<open>json.Encoder\<close> writes the value and a line break. \<open>write\<close> is the
  connection; a failed write ends the client.
\<close>

fun copy_lines ::
  "('w \<Rightarrow> string \<Rightarrow> 'w \<times> go_error option) \<Rightarrow> string \<Rightarrow> string list \<Rightarrow> 'w \<Rightarrow> 'w \<times> go_error option" where
  "copy_lines write name [] w = (w, None)"
| "copy_lines write name (line # ls) w =
     (let tmp = Fields line in
      if length tmp \<noteq> 2 then copy_lines write name ls w
      else
        let msg = \<lparr>g_From = name, g_TimeStamp = tmp ! 0, g_Payload = tmp ! 1\<rparr> in
        case write w (struct_text (Msg_struct msg) @ [newline]) of
          (w1, Some e) \<Rightarrow> (w1, Some e)
        | (w1, None) \<Rightarrow> copy_lines write name ls w1)"

definition CopyStdinToTCP ::
  "('w \<Rightarrow> 'w \<times> go_error option) \<Rightarrow> ('w \<Rightarrow> string \<Rightarrow> 'w \<times> go_error option) \<Rightarrow> string \<Rightarrow> string \<Rightarrow> 'w \<Rightarrow>
     'w \<times> go_error option" where
  "CopyStdinToTCP dial write name stdin w =
     (case dial w of
        (w1, Some e) \<Rightarrow> (w1, Some e)
      | (w1, None) \<Rightarrow> copy_lines write name (fst (scan_lines stdin)) w1)"

section \<open>The server\<close>

definition server_ParsePort :: "string \<Rightarrow> go_error + goint" where
  "server_ParsePort portRawStr =
     (case Atoi portRawStr of
        Inl e \<Rightarrow> Inl (Errorf (''port should be positive number, received '' @ portRawStr))
      | Inr port \<Rightarrow>
          if sint port < 0 then Inl (Errorf (''port should be positive number, received '' @ portRawStr))
          else Inr port)"

text \<open>The check of the arguments of the server's command.\<close>

definition server_Args :: "string list \<Rightarrow> go_error option" where
  "server_Args args =
     (if length args \<noteq> 1
      then Some (Errorf (''accepts 1 arg(s), received '' @ dec_nat (length args)))
      else case server_ParsePort (args ! 0) of Inl e \<Rightarrow> Some e | Inr p \<Rightarrow> None)"

text \<open>
  The values of a stream, and whether it ends cleanly after the last of them. A syntax error
  or an end inside a value stops the decoder.
\<close>

function read_stream :: "string \<Rightarrow> json list \<times> bool" where
  "read_stream s =
     (if skip_ws s = [] then ([], True)
      else case read_value 10000 s of
        None \<Rightarrow> ([], False)
      | Some (v, r) \<Rightarrow> (v # fst (read_stream r), snd (read_stream r)))"
  by pat_completeness auto
termination
  by (relation "measure length") (auto dest: read_shorter(1))

declare read_stream.simps [simp del]

text \<open>Decoding one value into the message, which keeps the fields the value does not name.\<close>

definition decode_value :: "json \<Rightarrow> struct \<Rightarrow> struct \<times> go_error option" where
  "decode_value v fs =
     (case v of JNull \<Rightarrow> (fs, None) | JObj ms \<Rightarrow> store_members ms fs | _ \<Rightarrow> (fs, Some (type_error v)))"

text \<open>
  Floating-point numbers, as far as the server uses them: reading a number, subtraction, the
  format of \<open>%f\<close> and the shortest format with an exponent.
\<close>

record 'f floats =
  ParseFloat :: "string \<Rightarrow> 'f option"
  float_sub :: "'f \<Rightarrow> 'f \<Rightarrow> 'f"
  format_f :: "'f \<Rightarrow> string"
  format_E :: "'f \<Rightarrow> string"

record Params =
  r_Delay :: string
  r_TimeStamp :: string
  r_Size :: string

definition Params_struct :: "Params \<Rightarrow> struct" where
  "Params_struct r = [(''delay'', FStr (r_Delay r)), (''timestamp'', FStr (r_TimeStamp r)), (''size'', FStr (r_Size r))]"

text \<open>What the server prints, and what it hands to the logger (the text of an error is not modelled).\<close>

datatype server_out = Stdout string | LogInfo string | LogError

definition log_delay :: "'f floats \<Rightarrow> 'f \<Rightarrow> Msg \<Rightarrow> server_out list" where
  "log_delay fl currTimestamp msg =
     (case ParseFloat fl (g_TimeStamp msg) of
        None \<Rightarrow> [LogError]
      | Some timeSendFloat \<Rightarrow>
          [LogInfo (struct_text (Params_struct
             \<lparr>r_Delay = format_E fl (float_sub fl currTimestamp timeSendFloat), r_TimeStamp = format_E fl currTimestamp,
              r_Size = dec_nat (length (g_Payload msg))\<rparr>))])"

text \<open>
  \<open>handleRequest\<close>: \<open>now\<close> has the times read, one for each turn of the loop; \<open>established\<close> is the
  time of the connection.
\<close>

fun handle_values ::
  "'f floats \<Rightarrow> 'f \<Rightarrow> 'f list \<Rightarrow> json list \<Rightarrow> bool \<Rightarrow> struct \<Rightarrow> bool \<Rightarrow> server_out list" where
  "handle_values fl established (t # now) [] eof msg isFirst =
     (if eof then [Stdout (format_f fl t @ '' - '' @ g_From (Msg_of msg) @ '' disconnected'' @ [newline])] else []) @ [LogError]"
| "handle_values fl established (t # now) (v # vs) eof msg isFirst =
     (case decode_value v msg of
        (msg1, Some e) \<Rightarrow> [LogError]
      | (msg1, None) \<Rightarrow>
          (let m = Msg_of msg1 in
           (if isFirst then [Stdout (format_f fl established @ '' - '' @ g_From m @ '' connected'' @ [newline])] else [])
           @ [Stdout (format_f fl t @ '' '' @ g_From m @ '' '' @ g_Payload m @ [newline])]
           @ log_delay fl t m
           @ handle_values fl established now vs eof msg1 False))"
| "handle_values fl established [] vs eof msg isFirst = []"

definition handleRequest :: "'f floats \<Rightarrow> 'f \<Rightarrow> 'f list \<Rightarrow> string \<Rightarrow> server_out list" where
  "handleRequest fl established now input =
     (case read_stream input of
        (vs, eof) \<Rightarrow> handle_values fl established now vs eof (Msg_struct \<lparr>g_From = [], g_TimeStamp = [], g_Payload = []\<rparr>) True)"

text \<open>
  The loop that accepts connections, over the outcomes of \<open>Accept\<close>, each with the time read
  after it: a failure is logged and the loop goes on, and every connection gets its handler.
\<close>

fun accept_loop :: "((go_error + 'c) \<times> 'f) list \<Rightarrow> ('c \<times> 'f) list" where
  "accept_loop [] = []"
| "accept_loop ((Inl e, t) # as) = accept_loop as"
| "accept_loop ((Inr conn, t) # as) = (conn, t) # accept_loop as"

definition server_addr :: "string \<Rightarrow> string" where
  "server_addr portStr = JoinHostPort ''0.0.0.0'' portStr"

definition TCPToMath ::
  "(string \<Rightarrow> go_error option) \<Rightarrow> string \<Rightarrow> ((go_error + 'c) \<times> 'f) list \<Rightarrow> go_error + ('c \<times> 'f) list" where
  "TCPToMath listen portStr accepts =
     (case listen (server_addr portStr) of Some e \<Rightarrow> Inl e | None \<Rightarrow> Inr (accept_loop accepts))"

text \<open>The printed lines, and the entries of the log that are not errors.\<close>

fun stdout :: "server_out list \<Rightarrow> string list" where
  "stdout [] = []"
| "stdout (o1 # os) = (case o1 of Stdout x \<Rightarrow> x # stdout os | _ \<Rightarrow> stdout os)"

fun logged :: "server_out list \<Rightarrow> string list" where
  "logged [] = []"
| "logged (o1 # os) = (case o1 of LogInfo x \<Rightarrow> x # logged os | _ \<Rightarrow> logged os)"

lemma outputs_append [simp]: "stdout (os @ os') = stdout os @ stdout os'" "logged (os @ os') = logged os @ logged os'"
  by (induction os) (auto split: server_out.split)

lemma stdout_log_delay [simp]: "stdout (log_delay fl t m) = []"
  by (simp add: log_delay_def split: option.split)

section \<open>From a client's input to the server's output\<close>

text \<open>A connection that takes everything; what it took is the state.\<close>

definition append_write :: "string \<Rightarrow> string \<Rightarrow> string \<times> go_error option" where
  "append_write w data = (w @ data, None)"

definition event_message :: "string \<Rightarrow> string \<times> string \<Rightarrow> Msg" where
  "event_message name ev = \<lparr>g_From = name, g_TimeStamp = fst ev, g_Payload = snd ev\<rparr>"

definition event_text :: "string \<times> string \<Rightarrow> string" where
  "event_text ev = unwords [fst ev, snd ev]"

definition message_line :: "string \<Rightarrow> string \<times> string \<Rightarrow> string" where
  "message_line name ev = struct_text (Msg_struct (event_message name ev)) @ [newline]"

lemma copy_lines_events:
  assumes "\<forall>ev\<in>set evs. is_word (fst ev) \<and> is_word (snd ev)"
  shows "copy_lines append_write name (map event_text evs) w = (w @ concat (map (message_line name) evs), None)"
  using assms
proof (induction evs arbitrary: w)
  case (Cons ev evs)
  then have "Fields (event_text ev) = [fst ev, snd ev]" by (simp add: event_text_def Fields_unwords)
  then show ?case
    using Cons by (simp add: Let_def append_write_def message_line_def event_message_def)
qed simp

lemma Msg_names [simp]: "utf8_valid ''from''" "utf8_valid ''timestamp''" "utf8_valid ''payload''"
  by (rule utf8_valid_ascii, simp)+

lemma Msg_struct_valid:
  assumes "utf8_valid name" "is_word (fst ev)" "is_word (snd ev)"
  shows "\<forall>(k, f)\<in>set (Msg_struct (event_message name ev)). utf8_valid k \<and> field_valid f"
proof -
  have "utf8_valid w" if "is_word w" for w
    using that by (intro utf8_valid_ascii) (auto simp: is_word_def word_char_def)
  then show ?thesis using assms by (simp add: Msg_struct_def event_message_def field_valid_def)
qed

lemma skip_ws_newline: "skip_ws (newline # s) = skip_ws s"
  by (simp add: skip_ws_def newline_eq is_ws_def)

lemma read_value_newline: "read_value d (newline # s) = read_value d s"
  by (simp add: read_value.simps skip_ws_newline)

lemma read_stream_newline: "read_stream (newline # s) = read_stream s"
  by (simp add: read_stream.simps [of "newline # s"] read_stream.simps [of s] skip_ws_newline read_value_newline)

lemma read_stream_messages:
  assumes "utf8_valid name" "\<forall>ev\<in>set evs. is_word (fst ev) \<and> is_word (snd ev)"
  shows "read_stream (concat (map (message_line name) evs)) =
     (map (\<lambda>ev. JObj (map named_json (Msg_struct (event_message name ev)))) evs, True)"
  using assms(2)
proof (induction evs)
  case Nil
  then show ?case by (simp add: read_stream.simps)
next
  case (Cons ev evs)
  let ?r = "concat (map (message_line name) evs)"
  have v: "read_value 10000 (struct_text (Msg_struct (event_message name ev)) @ newline # ?r)
      = Some (JObj (map named_json (Msg_struct (event_message name ev))), newline # ?r)"
    using Msg_struct_valid [OF assms(1), of ev] Cons.prems
    by (intro read_struct_value) (simp_all add: Msg_struct_def)
  have "skip_ws (struct_text (Msg_struct (event_message name ev)) @ newline # ?r) \<noteq> []"
    by (simp add: struct_text_def)
  moreover have "concat (map (message_line name) (ev # evs)) =
      struct_text (Msg_struct (event_message name ev)) @ newline # ?r" by (simp add: message_line_def [of name ev])
  ultimately show ?case
    using v Cons by (subst read_stream.simps) (simp add: read_stream_newline)
qed

lemma decode_message:
  assumes "map fst fs = map fst (Msg_struct m)" "list_all2 (\<lambda>z f. same_kind (snd z) (snd f)) fs (Msg_struct m)"
  shows "decode_value (JObj (map named_json (Msg_struct m))) fs = (Msg_struct m, None)"
  using store_struct_members [of "[]" "Msg_struct m" fs] assms by (simp add: decode_value_def Msg_struct_def)

lemma Msg_of_struct [simp]: "Msg_of (Msg_struct m) = m"
  by (cases m) (simp add: Msg_of_def Msg_struct_def eval_nat_numeral)

lemma decode_next: "decode_value (JObj (map named_json (Msg_struct m))) (Msg_struct m') = (Msg_struct m, None)"
  by (rule decode_message) (simp_all add: Msg_struct_def same_kind_def)

definition output_line :: "'f floats \<Rightarrow> string \<Rightarrow> 'f \<Rightarrow> string \<times> string \<Rightarrow> string" where
  "output_line fl name t ev = format_f fl t @ '' '' @ name @ '' '' @ snd ev @ [newline]"

definition delay_lines :: "'f floats \<Rightarrow> string \<Rightarrow> 'f \<Rightarrow> string \<times> string \<Rightarrow> string list" where
  "delay_lines fl name t ev = logged (log_delay fl t (event_message name ev))"

definition prints_and_logs ::
  "'f floats \<Rightarrow> string \<Rightarrow> string list \<Rightarrow> 'f list \<Rightarrow> (string \<times> string) list \<Rightarrow> string list \<Rightarrow> server_out list \<Rightarrow> bool" where
  "prints_and_logs fl name before now evs after out \<longleftrightarrow>
     stdout out = before @ map2 (output_line fl name) now evs @ after
   \<and> logged out = concat (map2 (delay_lines fl name) now evs)"

definition disconnected :: "'f floats \<Rightarrow> 'f \<Rightarrow> string \<Rightarrow> string" where
  "disconnected fl t name = format_f fl t @ '' - '' @ name @ '' disconnected'' @ [newline]"

lemma handle_values_events:
  assumes "length now = length evs"
  shows "prints_and_logs fl name [] now evs [disconnected fl t (if evs = [] then g_From m else name)]
     (handle_values fl est (now @ [t]) (map (\<lambda>ev. JObj (map named_json (Msg_struct (event_message name ev)))) evs) True
       (Msg_struct m) False)"
  using assms
proof (induction now evs arbitrary: m rule: list_induct2)
  case (Cons x now ev evs)
  then show ?case
    using Cons.IH [of "event_message name ev"]
    by (simp add: prints_and_logs_def decode_next Let_def output_line_def delay_lines_def) (simp add: event_message_def)
qed (simp add: prints_and_logs_def disconnected_def)

lemma handleRequest_events:
  assumes "utf8_valid name" "\<forall>ev\<in>set evs. is_word (fst ev) \<and> is_word (snd ev)" "evs \<noteq> []" "length now = length evs"
  shows "prints_and_logs fl name [format_f fl est @ '' - '' @ name @ '' connected'' @ [newline]] now evs [disconnected fl t name]
     (handleRequest fl est (now @ [t]) (concat (map (message_line name) evs)))"
proof -
  obtain ev evs' where e: "evs = ev # evs'" using assms(3) by (cases evs) auto
  then obtain x now' where n: "now = x # now'" "length now' = length evs'" using assms(4) by (cases now) auto
  show ?thesis
    using read_stream_messages [OF assms(1,2)] handle_values_events [OF n(2), of fl name t "event_message name ev" est]
    by (simp add: prints_and_logs_def handleRequest_def e n(1) decode_next Let_def output_line_def delay_lines_def)
       (simp add: event_message_def)
qed

section \<open>Properties\<close>

text \<open>
  C39. From end to end: for a named client whose input has an event on each line, the server
  prints that it connected, then every event once, in order, with the client's name and its
  payload, and then that it disconnected; and it logs the delay and the size of every event
  whose time stamp is a number, in the same order.
\<close>

theorem logger_prints_all_events:
  assumes "utf8_valid name" "\<forall>ev\<in>set evs. is_word (fst ev) \<and> is_word (snd ev) \<and> length (event_text ev) < max_token"
    and "evs \<noteq> []" "length now = length evs"
    and "CopyStdinToTCP (\<lambda>w. (w, None)) append_write name (concat (map (\<lambda>ev. event_text ev @ [newline]) evs)) [] = (wire, err)"
  shows "err = None
    \<and> stdout (handleRequest fl est (now @ [t]) wire) =
       [format_f fl est @ '' - '' @ name @ '' connected'' @ [newline]] @ map2 (output_line fl name) now evs
       @ [format_f fl t @ '' - '' @ name @ '' disconnected'' @ [newline]]
    \<and> logged (handleRequest fl est (now @ [t]) wire) = concat (map2 (delay_lines fl name) now evs)"
proof -
  have "\<forall>l\<in>set (map event_text evs). newline \<notin> set l \<and> length l < max_token \<and> (l = [] \<or> last l \<noteq> CHR 0x0D)"
  proof
    fix l assume "l \<in> set (map event_text evs)"
    then obtain ev where ev: "ev \<in> set evs" "l = event_text ev" by auto
    then have "is_word (fst ev)" "is_word (snd ev)" "length l < max_token" using assms(2) by auto
    moreover have "newline \<noteq> CHR '' ''" by (simp add: newline_eq)
    ultimately show "newline \<notin> set l \<and> length l < max_token \<and> (l = [] \<or> last l \<noteq> CHR 0x0D)"
      using ev(2) break_not_word by (auto simp: event_text_def unwords_def is_word_def)
  qed
  from scan_lines_unlines [OF this]
  have "scan_lines (concat (map (\<lambda>ev. event_text ev @ [newline]) evs)) = (map event_text evs, None)"
    by (simp add: comp_def)
  then have "wire = concat (map (message_line name) evs)" "err = None"
    using assms(2,5) copy_lines_events [of evs name "[]"] by (simp_all add: CopyStdinToTCP_def)
  then show ?thesis
    using handleRequest_events [of name evs now fl est t] assms(1-4) by (simp add: prints_and_logs_def disconnected_def)
qed

text \<open>Whole seconds below ten, which \<open>%f\<close> and the shortest format print like this.\<close>

definition whole_seconds :: "nat floats" where
  "whole_seconds =
     \<lparr>ParseFloat = (\<lambda>s. case s of [c] \<Rightarrow> if is_digit c then Some (of_char c - 48) else None | _ \<Rightarrow> None),
      float_sub = (-), format_f = (\<lambda>n. dec_nat n @ ''.000000''), format_E = (\<lambda>n. dec_nat n @ ''E+00'')\<rparr>"

lemma whole_seconds_simps:
  "ParseFloat whole_seconds [c] = (if is_digit c then Some (of_char c - 48) else None)"
  "float_sub whole_seconds m n = m - n" "format_f whole_seconds n = dec_nat n @ ''.000000''"
  "format_E whole_seconds n = dec_nat n @ ''E+00''"
  by (simp_all add: whole_seconds_def)

lemma digit_chars:
  "digit_char (Suc 0) = CHR ''1''" "digit_char 2 = CHR ''2''" "digit_char 3 = CHR ''3''" "digit_char 4 = CHR ''4''"
  "digit_char (Suc (Suc (Suc (Suc (Suc 0))))) = CHR ''5''"
  by code_simp+

theorem logger_prints_all_events_witness:
  "\<exists>wire. CopyStdinToTCP (\<lambda>w. (w, None)) append_write ''A'' (''1 hello '' @ [newline] @ ''x world '' @ [newline]) [] = (wire, None)
     \<and> stdout (handleRequest whole_seconds 1 [2, 3, 4] wire) =
        [''1.000000 - A connected'' @ [newline], ''2.000000 A hello'' @ [newline], ''3.000000 A world'' @ [newline],
         ''4.000000 - A disconnected'' @ [newline]]
     \<and> logged (handleRequest whole_seconds 1 [2, 3, 4] wire) =
        [struct_text (Params_struct \<lparr>r_Delay = ''1E+00'', r_TimeStamp = ''2E+00'', r_Size = ''5''\<rparr>)]"
proof -
  let ?evs = "[(''1'', ''hello''), (''x'', ''world'')]"
  obtain w err where w: "CopyStdinToTCP (\<lambda>w. (w, None)) append_write ''A''
      (concat (map (\<lambda>ev. event_text ev @ [newline]) ?evs)) [] = (w, err)" by fastforce
  note all = logger_prints_all_events [OF _ _ _ _ w, of "[2, 3]" whole_seconds 1 4]
  have "err = None
    \<and> stdout (handleRequest whole_seconds 1 ([2, 3] @ [4]) w) =
       [format_f whole_seconds 1 @ '' - '' @ ''A'' @ '' connected'' @ [newline]]
       @ map2 (output_line whole_seconds ''A'') [2, 3] ?evs
       @ [format_f whole_seconds 4 @ '' - '' @ ''A'' @ '' disconnected'' @ [newline]]
    \<and> logged (handleRequest whole_seconds 1 ([2, 3] @ [4]) w) = concat (map2 (delay_lines whole_seconds ''A'') [2, 3] ?evs)"
    using utf8_valid_ascii [of "''A''"]
    by (intro all) (simp_all add: is_word_def word_char_def ascii_space_def event_text_def unwords_def max_token_def)
  then show ?thesis
    using w by (simp add: output_line_def event_text_def unwords_def delay_lines_def log_delay_def event_message_def
        whole_seconds_simps is_digit_def dec_nat.simps digit_chars)
qed

end
