(* ===== verification/Commands.thy ===== *)
theory Commands
  imports Node_Command Mp0
begin

text \<open>
  The three commands (\<open>NewRootCMD\<close> in \<open>cmd/mp1/root.go\<close>, \<open>cmd/mp0/server/root.go\<close> and
  \<open>cmd/mp0/client/root.go\<close>) and their main functions (\<open>cli\<close>): what they check, what they run
  and the code they exit with; and the settings of the logger (\<open>lib/logger/logger.go\<close>).
\<close>

section \<open>The logger\<close>

datatype log_formatter =
    JSONFormatter (DisableTimestamp: bool) (PrettyPrint: bool)
  | TextFormatter (PadLevelText: bool) (ForceColors: bool) (EnvironmentOverrideColors: bool) (DisableTimestamp: bool)

record log_settings =
  Level :: nat
  ReportCaller :: bool
  Formatter :: log_formatter
  Out :: string

definition TraceLevel :: nat where
  "TraceLevel = 6"

text \<open>
  The loggers of a process by name; \<open>std\<close> is the standard logger, on which the functions of the
  package work that are not called on a logger. \<open>logEnv\<close> is the environment variable \<open>LOG\<close>.
\<close>

definition SetupLogger :: "'l \<Rightarrow> string \<Rightarrow> 'l \<Rightarrow> ('l \<Rightarrow> log_settings) \<Rightarrow> 'l \<Rightarrow> log_settings" where
  "SetupLogger std logEnv logger ls =
     (let l1 = ls(logger := (ls logger)\<lparr>Level := TraceLevel\<rparr>);
          l2 = l1(logger := (l1 logger)\<lparr>ReportCaller := (if logEnv = ''trace'' then True else False)\<rparr>);
          l3 = (if logEnv = ''json''
                then l2(std := (l2 std)\<lparr>Formatter := JSONFormatter True False\<rparr>)
                else l2(logger := (l2 logger)\<lparr>Formatter := TextFormatter True False True True\<rparr>))
      in l3(logger := (l3 logger)\<lparr>Out := ''stderr''\<rparr>))"

text \<open>
  On the standard logger, as all the programs call it, every setting is made; on another one
  the JSON format is set on the standard logger instead.
\<close>

lemma SetupLogger_std:
  "SetupLogger std logEnv std ls std =
     \<lparr>Level = TraceLevel, ReportCaller = (logEnv = ''trace''),
      Formatter = (if logEnv = ''json'' then JSONFormatter True False else TextFormatter True False True True),
      Out = ''stderr''\<rparr>"
  by (simp add: SetupLogger_def Let_def)

lemma SetupLogger_other:
  "logger \<noteq> std \<Longrightarrow> logEnv = ''json'' \<Longrightarrow>
     Formatter (SetupLogger std logEnv logger ls logger) = Formatter (ls logger)
     \<and> Formatter (SetupLogger std logEnv logger ls std) = JSONFormatter True False"
  by (simp add: SetupLogger_def Let_def)

section \<open>Commands\<close>

text \<open>
  A command checks its positional arguments and runs: \<open>'r\<close> is what it does, and the error is the
  one it ends with; the two servers do not end otherwise.
\<close>

record 'r command =
  Args :: "string list \<Rightarrow> go_error option"
  RunE :: "string list \<Rightarrow> 'r \<times> go_error option"

text \<open>What the commands use of \<open>cobra\<close>: \<open>ExactArgs\<close>, and that arguments are checked before the run.\<close>

definition ExactArgs :: "nat \<Rightarrow> string list \<Rightarrow> go_error option" where
  "ExactArgs n args =
     (if length args \<noteq> n
      then Some (Errorf (''accepts '' @ dec_nat n @ '' arg(s), received '' @ dec_nat (length args))) else None)"

definition Execute :: "'r command \<Rightarrow> string list \<Rightarrow> 'r option \<times> go_error option" where
  "Execute cmd args =
     (case Args cmd args of Some e \<Rightarrow> (None, Some e) | None \<Rightarrow> (Some (fst (RunE cmd args)), snd (RunE cmd args)))"

text \<open>The main functions, and \<open>ExitWrapper\<close>: any error is exit code 1.\<close>

definition ExitWrapper :: "go_error option \<Rightarrow> int option" where
  "ExitWrapper err = (case err of Some e \<Rightarrow> Some 1 | None \<Rightarrow> None)"

definition main_exit :: "'r command \<Rightarrow> string list \<Rightarrow> int" where
  "main_exit cmd args = (case snd (Execute cmd args) of Some e \<Rightarrow> 1 | None \<Rightarrow> 0)"

definition client_NewRootCMD ::
  "(string \<Rightarrow> 'w \<Rightarrow> 'w \<times> go_error option) \<Rightarrow> ('w \<Rightarrow> string \<Rightarrow> 'w \<times> go_error option) \<Rightarrow> string \<Rightarrow> 'w \<Rightarrow> 'w command" where
  "client_NewRootCMD dial write stdin w =
     \<lparr>Args = ExactArgs 3,
      RunE = (\<lambda>args. CopyStdinToTCP (dial (JoinHostPort (args ! 1) (args ! 2))) write (args ! 0) stdin w)\<rparr>"

definition server_NewRootCMD ::
  "(string \<Rightarrow> go_error option) \<Rightarrow> ((go_error + 'c) \<times> 'f) list \<Rightarrow> ('c \<times> 'f) list command" where
  "server_NewRootCMD bind_to accepts =
     \<lparr>Args = server_Args,
      RunE = (\<lambda>args. case TCPToMath bind_to (args ! 0) accepts of Inl e \<Rightarrow> ([], Some e) | Inr hs \<Rightarrow> (hs, None))\<rparr>"

text \<open>\<open>read\<close> opens and reads the configuration file.\<close>

definition mp1_NewRootCMD ::
  "(string \<Rightarrow> go_error + string) \<Rightarrow>
     ((string, bank_handler, transaction) node \<Rightarrow> go_error + (string, bank_handler, transaction) node) \<Rightarrow>
     env list \<Rightarrow> string \<Rightarrow> ((string, bank_handler, transaction) node \<times> string effect list) option command" where
  "mp1_NewRootCMD read start env stdin =
     \<lparr>Args = ExactArgs 3,
      RunE = (\<lambda>args. case RootCMDMain (args ! 0) (args ! 1) (read (args ! 2)) start env stdin of
                 None \<Rightarrow> (None, None) | Some (Inl e) \<Rightarrow> (None, Some e) | Some (Inr r) \<Rightarrow> (Some r, None))\<rparr>"

lemma ExactArgs_None: "ExactArgs n args = None \<longleftrightarrow> length args = n"
  by (simp add: ExactArgs_def)

text \<open>The server serves only when it was given one argument, a decimal number that is not negative.\<close>

lemma server_serves:
  assumes "Execute (server_NewRootCMD bind_to accepts) args = (Some hs, None)"
  shows "\<exists>port n. args = [port] \<and> server_ParsePort port = Inr n \<and> 0 \<le> sint n
     \<and> bind_to (server_addr port) = None \<and> hs = accept_loop accepts"
proof -
  have a: "server_Args args = None" using assms by (auto simp: Execute_def server_NewRootCMD_def split: option.splits)
  then obtain port where p: "args = [port]" by (auto simp: server_Args_def length_Suc_conv split: if_splits)
  then obtain n where n: "server_ParsePort port = Inr n" using a by (auto simp: server_Args_def split: sum.splits)
  then have "0 \<le> sint n" by (auto simp: server_ParsePort_def split: sum.splits if_splits)
  then show ?thesis
    using assms p n a by (auto simp: Execute_def server_NewRootCMD_def TCPToMath_def split: option.splits)
qed

text \<open>
  The node and the client do not look at their port: \<open>ParsePort\<close> is declared for both and called
  by neither.
\<close>

lemma mp1_any_port:
  "snd (Execute (mp1_NewRootCMD read start env stdin) [nodeID, port, path]) =
     (case RootCMDMain nodeID port (read path) start env stdin of Some (Inl e) \<Rightarrow> Some e | _ \<Rightarrow> None)"
  by (auto simp: Execute_def mp1_NewRootCMD_def ExactArgs_def split: option.splits sum.splits)

text \<open>Without a readable configuration the node exits with code 1.\<close>

lemma mp1_no_config:
  assumes "length args = 3" "read (args ! 2) = Inl e"
  shows "main_exit (mp1_NewRootCMD read start env stdin) args = 1
    \<and> ExitWrapper (snd (Execute (mp1_NewRootCMD read start env stdin) args)) = Some 1"
  using assms
  by (simp add: main_exit_def Execute_def mp1_NewRootCMD_def ExactArgs_def RootCMDMain_def ConstructGroup_def
      ConfigParser_def ConfigItemsParser_def ExitWrapper_def)

end
