(* ===== verification/R_Simulation.thy ===== *)
theory R_Simulation
  imports Prelude
begin

text \<open>
  The simulation of reliable multicast in one process (\<open>cli/r-multicast/main.go\<close>): nodes
  numbered from 0, a channel between any two, itself included, and a global count of the
  messages sent. A node forwards a message it sees for the first time to the nodes with a
  larger number, unless it sent it itself. A send waits when a channel holds 100000 messages.
\<close>

type_synonym int32 = "32 word"

record Msg =
  m_body :: string
  m_from :: nat

record sim =
  nodeCount :: nat
  R :: "nat \<Rightarrow> string set"                       \<comment> \<open>\<open>N.R\<close>: what each node has received\<close>
  chans :: "nat \<Rightarrow> nat \<Rightarrow> Msg list"              \<comment> \<open>\<open>N.O\<close> of the first, \<open>N.I\<close> of the second\<close>
  counter :: int32
  out :: "string list"                           \<comment> \<open>what was printed\<close>

definition chan_capacity :: nat where
  "chan_capacity = 100000"

definition Add :: "int32 \<Rightarrow> sim \<Rightarrow> sim" where
  "Add x s = s\<lparr>counter := counter s + x, out := out s @ [dec_int (sint (counter s + x)) @ [newline]]\<rparr>"

definition arrow :: "nat \<Rightarrow> nat \<Rightarrow> string" where
  "arrow i j = dec_nat i @ '' -> '' @ dec_nat j @ [newline]"

text \<open>One send: the print, the count and the channel; \<open>None\<close> when the channel is full.\<close>

definition send :: "nat \<Rightarrow> string \<Rightarrow> nat \<Rightarrow> sim \<Rightarrow> sim option" where
  "send i msg to s =
     (let s1 = Add 1 (s\<lparr>out := out s @ [arrow i to]\<rparr>)
      in if length (chans s1 i to) < chan_capacity
         then Some (s1\<lparr>chans := (chans s1)(i := (chans s1 i)(to := chans s1 i to @ [\<lparr>m_body = msg, m_from = i\<rparr>]))\<rparr>)
         else None)"

fun send_all :: "nat \<Rightarrow> string \<Rightarrow> nat list \<Rightarrow> sim \<Rightarrow> sim option" where
  "send_all i msg [] s = Some s"
| "send_all i msg (to # ts) s = (case send i msg to s of None \<Rightarrow> None | Some s1 \<Rightarrow> send_all i msg ts s1)"

text \<open>The loops over the map of channels, in the order \<open>os\<close>.\<close>

definition BM :: "nat \<Rightarrow> string \<Rightarrow> nat list \<Rightarrow> sim \<Rightarrow> sim option" where
  "BM i msg os s = send_all i msg (i # filter (\<lambda>to. to \<noteq> i) os) s"

definition BMA :: "nat \<Rightarrow> string \<Rightarrow> nat list \<Rightarrow> sim \<Rightarrow> sim option" where
  "BMA i msg os s = send_all i msg (filter (\<lambda>to. i < to) os) s"

text \<open>The body of the loop of \<open>BD\<close>, on a message taken from the channel of node \<open>i\<close>.\<close>

definition BD_handle :: "nat \<Rightarrow> Msg \<Rightarrow> nat list \<Rightarrow> sim \<Rightarrow> sim option" where
  "BD_handle n msg os s =
     (if m_body msg \<notin> R s n
      then (let s1 = s\<lparr>R := (R s)(n := insert (m_body msg) (R s n))\<rparr>
            in if m_from msg \<noteq> n then BMA n (m_body msg) os s1 else Some s1)
      else Some s)"

definition BD_step :: "nat \<Rightarrow> nat \<Rightarrow> nat list \<Rightarrow> sim \<Rightarrow> sim option" where
  "BD_step i n os s =
     (case chans s i n of [] \<Rightarrow> None
      | msg # ms \<Rightarrow> BD_handle n msg os (s\<lparr>chans := (chans s)(i := (chans s i)(n := ms))\<rparr>))"

definition NewG :: "nat \<Rightarrow> sim" where
  "NewG n = \<lparr>nodeCount = n, R = (\<lambda>_. {}), chans = (\<lambda>_ _. []), counter = 0, out = []\<rparr>"

text \<open>\<open>main\<close>: the source multicasts, and the nodes handle messages in any order.\<close>

definition map_order :: "sim \<Rightarrow> nat list \<Rightarrow> bool" where
  "map_order s os \<longleftrightarrow> distinct os \<and> set os = {..<nodeCount s}"

inductive sim_run :: "nat \<Rightarrow> nat \<Rightarrow> sim \<Rightarrow> bool" for n src where
  main: "map_order (NewG n) os \<Longrightarrow> BM src ''msg'' os (NewG n) = Some s \<Longrightarrow> sim_run n src s"
| handle: "sim_run n src s \<Longrightarrow> i < n \<Longrightarrow> j < n \<Longrightarrow> map_order s os \<Longrightarrow> BD_step i j os s = Some s' \<Longrightarrow> sim_run n src s'"

section \<open>What is sent\<close>

text \<open>The state after sends that found room.\<close>

definition sent :: "nat \<Rightarrow> string \<Rightarrow> nat list \<Rightarrow> sim \<Rightarrow> sim \<Rightarrow> bool" where
  "sent i msg ts s s' \<longleftrightarrow>
     nodeCount s' = nodeCount s \<and> R s' = R s \<and> counter s' = counter s + of_nat (length ts)
   \<and> (\<forall>k to. chans s' k to = chans s k to @ (if k = i \<and> to \<in> set ts then [\<lparr>m_body = msg, m_from = i\<rparr>] else []))"

lemma send_all_sent:
  assumes "send_all i msg ts s = Some s'" "distinct ts"
  shows "sent i msg ts s s'"
  using assms
proof (induction ts arbitrary: s)
  case (Cons to ts)
  obtain s1 where s1: "send i msg to s = Some s1" "send_all i msg ts s1 = Some s'"
    using Cons.prems(1) by (auto split: option.splits)
  have I: "sent i msg ts s1 s'" using Cons.IH [OF s1(2)] Cons.prems(2) by simp
  have "nodeCount s1 = nodeCount s" "R s1 = R s" "counter s1 = counter s + 1"
    "\<And>k t. chans s1 k t = chans s k t @ (if k = i \<and> t = to then [\<lparr>m_body = msg, m_from = i\<rparr>] else [])"
    using s1(1) by (auto simp: send_def Add_def Let_def split: if_splits)
  then show ?case using I Cons.prems(2) by (auto simp: sent_def add_ac)
qed (simp add: sent_def)


section \<open>Every state of a run\<close>

text \<open>
  \<open>F\<close> are the nodes that forwarded the message: all that received it, except possibly the
  source. Every message in flight comes from its channel's sender, which is the source or has
  a smaller number; and a node that has not received the message has it in flight from the
  source.
\<close>

definition received_by :: "sim \<Rightarrow> nat set" where
  "received_by s = {j. ''msg'' \<in> R s j}"

definition forwards :: "nat \<Rightarrow> nat set \<Rightarrow> nat" where
  "forwards n F = (\<Sum>j\<in>F. n - 1 - j)"

definition flight_ok :: "nat \<Rightarrow> nat \<Rightarrow> nat \<Rightarrow> Msg list \<Rightarrow> bool" where
  "flight_ok src i j ms \<longleftrightarrow> (\<forall>m\<in>set ms. m = \<lparr>m_body = ''msg'', m_from = i\<rparr> \<and> (i = src \<or> i < j))"

definition sim_inv :: "nat \<Rightarrow> nat \<Rightarrow> sim \<Rightarrow> nat set \<Rightarrow> bool" where
  "sim_inv n src s F \<longleftrightarrow>
     nodeCount s = n \<and> F \<subseteq> received_by s \<and> received_by s \<subseteq> {..<n} \<and> received_by s - {src} \<subseteq> F
   \<and> (\<forall>j. R s j \<subseteq> {''msg''})
   \<and> counter s = of_nat (n + forwards n F)
   \<and> (\<forall>i j. flight_ok src i j (chans s i j))
   \<and> (\<forall>j<n. j \<in> received_by s \<or> chans s src j \<noteq> [])
   \<and> (src \<in> F \<longrightarrow> 0 < src)"

lemma sentD:
  assumes "sent i msg ts s s'"
  shows "nodeCount s' = nodeCount s" "R s' = R s" "counter s' = counter s + of_nat (length ts)"
    "chans s' k to = chans s k to @ (if k = i \<and> to \<in> set ts then [\<lparr>m_body = msg, m_from = i\<rparr>] else [])"
  using assms by (simp_all add: sent_def)

lemma sim_invD:
  assumes "sim_inv n src s F"
  shows "nodeCount s = n" "F \<subseteq> received_by s" "received_by s \<subseteq> {..<n}" "received_by s - {src} \<subseteq> F"
    "R s j \<subseteq> {''msg''}" "counter s = of_nat (n + forwards n F)" "flight_ok src i j (chans s i j)"
    "j < n \<Longrightarrow> j \<in> received_by s \<or> chans s src j \<noteq> []" "src \<in> F \<Longrightarrow> 0 < src"
  using assms by (simp_all add: sim_inv_def)

lemma sim_invI:
  assumes "nodeCount s = n" "F \<subseteq> received_by s" "received_by s \<subseteq> {..<n}" "received_by s - {src} \<subseteq> F"
    "\<And>j. R s j \<subseteq> {''msg''}" "counter s = of_nat (n + forwards n F)" "\<And>i j. flight_ok src i j (chans s i j)"
    "\<And>j. j < n \<Longrightarrow> j \<in> received_by s \<or> chans s src j \<noteq> []" "src \<in> F \<Longrightarrow> 0 < src"
  shows "sim_inv n src s F"
  using assms by (simp add: sim_inv_def)

lemma larger_count:
  assumes "map_order s os" "nodeCount s = n" "j < n"
  shows "length (filter (\<lambda>to. j < to) os) = n - 1 - j"
proof -
  have o: "distinct (filter (\<lambda>to. j < to) os)" "set os = {..<n}"
    using assms(1) unfolding map_order_def assms(2) by simp_all
  have "set (filter (\<lambda>to. j < to) os) = {Suc j..<n}" unfolding set_filter o(2) by auto
  then show ?thesis using distinct_card [OF o(1)] by simp
qed

lemma sim_inv_main:
  assumes "map_order (NewG n) os" "BM src ''msg'' os (NewG n) = Some s" "src < n"
  shows "sim_inv n src s {}"
proof -
  let ?ts = "src # filter (\<lambda>to. to \<noteq> src) os"
  have d: "distinct ?ts" "set ?ts = {..<n}" using assms(1,3) by (auto simp: map_order_def NewG_def)
  have len: "length ?ts = n" using distinct_card [OF d(1)] unfolding d(2) by simp
  have "sent src ''msg'' ?ts (NewG n) s" using send_all_sent assms(2) d(1) unfolding BM_def by blast
  note S = sentD [OF this, unfolded len d(2)]
  have e: "received_by s = {}" using S(2) by (simp add: received_by_def NewG_def)
  show ?thesis
  proof (rule sim_invI)
    show "counter s = of_nat (n + forwards n {})" using S(3) by (simp add: NewG_def forwards_def)
    show "flight_ok src i j (chans s i j)" for i j using S(4) [of i j] by (simp add: NewG_def flight_ok_def)
    show "j \<in> received_by s \<or> chans s src j \<noteq> []" if "j < n" for j using S(4) [of src j] that by simp
  qed (use S(1,2) e in \<open>simp_all add: NewG_def\<close>)
qed

lemma sim_inv_handle:
  assumes inv: "sim_inv n src s F" and ij: "i < n" "j < n" and os: "map_order s os" and st: "BD_step i j os s = Some s'"
  shows "\<exists>F'. sim_inv n src s' F'"
proof -
  note I = sim_invD [OF inv]
  obtain m ms where m: "chans s i j = m # ms" using st by (auto simp: BD_step_def split: list.splits)
  then have mi: "m = \<lparr>m_body = ''msg'', m_from = i\<rparr>" "i = src \<or> i < j"
    using I(7) [of i j] by (simp_all add: flight_ok_def)
  let ?c = "(chans s)(i := (chans s i)(j := ms))"
  have fl: "flight_ok src k t (?c k t)" for k t
    using I(7) [of k t] m by (auto simp: flight_ok_def)
  have rest: "t \<in> received_by s \<or> t = j \<or> ?c src t \<noteq> []" if "t < n" for t
    using I(8) [OF that] by auto
  show ?thesis
  proof (cases "''msg'' \<in> R s j")
    case True
    then have s': "s' = s\<lparr>chans := ?c\<rparr>" using st m mi by (simp add: BD_step_def BD_handle_def)
    then have rb: "received_by s' = received_by s" "j \<in> received_by s" using True by (simp_all add: received_by_def)
    have "sim_inv n src s' F"
    proof (rule sim_invI)
      show "t \<in> received_by s' \<or> chans s' src t \<noteq> []" if "t < n" for t using rest [OF that] rb s' by auto
    qed (use I fl s' rb(1) in simp_all)
    then show ?thesis ..
  next
    case False
    let ?s1 = "s\<lparr>chans := ?c, R := (R s)(j := insert ''msg'' (R s j))\<rparr>"
    have rb: "received_by ?s1 = insert j (received_by s)" "j \<notin> received_by s"
      using False by (auto simp: received_by_def)
    have finF: "finite F" "j \<notin> F" using I(2,3) rb(2) finite_subset [of F "{..<n}"] by auto
    have R1: "R ?s1 t \<subseteq> {''msg''}" for t using I(5) [of t] by auto
    show ?thesis
    proof (cases "i = j")
      case True
      then have j: "j = src" using mi(2) by simp
      have s': "s' = ?s1" using st m mi False True by (simp add: BD_step_def BD_handle_def Let_def)
      have "sim_inv n src s' F"
      proof (rule sim_invI)
        show "t \<in> received_by s' \<or> chans s' src t \<noteq> []" if "t < n" for t
          using rest [OF that] unfolding s' rb(1) by auto
        show "received_by s' - {src} \<subseteq> F" "F \<subseteq> received_by s'" "received_by s' \<subseteq> {..<n}"
          using I(2-4) ij j unfolding s' rb(1) by auto
        show "R s' t \<subseteq> {''msg''}" for t using R1 unfolding s' .
      qed (use I fl s' in simp_all)
      then show ?thesis ..
    next
      case ne: False
      let ?ts = "filter (\<lambda>to. j < to) os"
      have "send_all j ''msg'' ?ts ?s1 = Some s'"
        using st m mi False ne by (simp add: BD_step_def BD_handle_def BMA_def Let_def)
      moreover have "distinct ?ts" using os by (simp add: map_order_def)
      ultimately have S: "sent j ''msg'' ?ts ?s1 s'" by (rule send_all_sent)
      note S' = sentD [OF S]
      have rb': "received_by s' = insert j (received_by s)" using S'(2) rb(1) by (simp add: received_by_def)
      have len: "length ?ts = n - 1 - j" using larger_count [OF os I(1) ij(2)] .
      have "sim_inv n src s' (insert j F)"
      proof (rule sim_invI)
        show "counter s' = of_nat (n + forwards n (insert j F))"
          using S'(3) len I(6) finF by (simp add: forwards_def add_ac)
        show "flight_ok src k t (chans s' k t)" for k t
          using S'(4) [of k t] fl [of k t] by (auto simp: flight_ok_def)
        show "t \<in> received_by s' \<or> chans s' src t \<noteq> []" if "t < n" for t
        proof -
          have "chans s' src t \<noteq> []" if "?c src t \<noteq> []" using S'(4) [of src t] that by simp
          then show ?thesis using rest [OF that] rb' by blast
        qed
        show "R s' t \<subseteq> {''msg''}" for t using R1 [of t] S'(2) by simp
        show "src \<in> insert j F \<Longrightarrow> 0 < src" using I(9) mi(2) ne by auto
        show "insert j F \<subseteq> received_by s'" "received_by s' \<subseteq> {..<n}" "received_by s' - {src} \<subseteq> insert j F"
          using I(2-4) ij rb' by auto
      qed (use I(1) S'(1) in simp)
      then show ?thesis ..
    qed
  qed
qed

lemma sim_run_inv: "sim_run n src s \<Longrightarrow> src < n \<Longrightarrow> \<exists>F. sim_inv n src s F"
proof (induction rule: sim_run.induct)
  case (main os s)
  then show ?case using sim_inv_main by blast
next
  case (handle s i j os s')
  then obtain F where "sim_inv n src s F" by blast
  from sim_inv_handle [OF this handle.hyps(2-5)] show ?case .
qed

text \<open>The number of messages when all are handled.\<close>

lemma forwards_all: "forwards n {..<n} = n * (n - 1) div 2"
proof -
  have "forwards n {..<n} = (\<Sum>j<n. j)"
    using sum.nat_diff_reindex [of "\<lambda>j. j" n] by (simp add: forwards_def)
  then show ?thesis using Sum_Ico_nat [of 0 n] by (simp add: atLeast0LessThan)
qed

lemma forwards_but: "src < n \<Longrightarrow> forwards n ({..<n} - {src}) = n * (n - 1) div 2 - (n - 1 - src)"
  using sum_diff1_nat [of "\<lambda>j. n - 1 - j" "{..<n}" src] forwards_all [of n] by (simp add: forwards_def)

lemma sim_quiescent:
  assumes "sim_run n src s" "src < n" "\<forall>i j. chans s i j = []"
  shows "(\<forall>j<n. R s j = {''msg''})
    \<and> (counter s = of_nat (n + (n * (n - 1) div 2 - (n - 1 - src)))
       \<or> 0 < src \<and> counter s = of_nat (n + n * (n - 1) div 2))"
proof -
  obtain F where F: "sim_inv n src s F" using sim_run_inv [OF assms(1,2)] ..
  note I = sim_invD [OF F]
  have all: "received_by s = {..<n}" using I(3) I(8) assms(3) by auto
  have "R s j = {''msg''}" if "j < n" for j
    using I(5) [of j] all that by (auto simp: received_by_def)
  moreover have "F = {..<n} \<or> F = {..<n} - {src}" using I(2,4) all by auto
  ultimately show ?thesis
    using I(6) I(9) assms(2) forwards_all [of n] forwards_but [OF assms(2)] by (elim disjE) auto
qed

section \<open>Properties\<close>

text \<open>
  C40. When the simulation has come to rest, every node has received the message, and the
  number of messages sent is \<open>n + n (n - 1) / 2\<close>, or less by the \<open>n - 1 - src\<close> messages the
  source forwards itself when it hears its message from a smaller node before it hears it
  from itself. From node 0 the number is always the smaller one.
\<close>

theorem simulation_counts:
  assumes "sim_run n src s" "src < n" "\<forall>i j. chans s i j = []"
  shows "(\<forall>j<n. R s j = {''msg''})
    \<and> (counter s = of_nat (n + (n * (n - 1) div 2 - (n - 1 - src)))
       \<or> 0 < src \<and> counter s = of_nat (n + n * (n - 1) div 2))"
  using sim_quiescent [OF assms] .

fun handle_all :: "(nat \<times> nat) list \<Rightarrow> nat list \<Rightarrow> sim \<Rightarrow> sim option" where
  "handle_all [] os s = Some s"
| "handle_all ((i, j) # ijs) os s = (case BD_step i j os s of None \<Rightarrow> None | Some s1 \<Rightarrow> handle_all ijs os s1)"

lemma handle_all_run:
  "sim_run n src s \<Longrightarrow> \<forall>(i, j)\<in>set ijs. i < n \<and> j < n \<Longrightarrow> distinct os \<Longrightarrow> set os = {..<n} \<Longrightarrow> src < n \<Longrightarrow>
     handle_all ijs os s = Some s' \<Longrightarrow> sim_run n src s'"
proof (induction ijs arbitrary: s)
  case (Cons ij ijs)
  obtain i j where ij: "ij = (i, j)" by fastforce
  then obtain s1 where s1: "BD_step i j os s = Some s1" "handle_all ijs os s1 = Some s'"
    using Cons.prems(6) by (auto split: option.splits)
  have "map_order s os" using sim_run_inv [OF Cons.prems(1,5)] sim_invD(1) Cons.prems(3,4) by (auto simp: map_order_def)
  then have "sim_run n src s1" using sim_run.handle [OF Cons.prems(1) _ _ _ s1(1)] Cons.prems(2) ij by simp
  then show ?case using Cons.IH Cons.prems s1(2) by simp
qed simp

text \<open>Three nodes, node 0 multicasts: three messages, then the one that node 1 forwards.\<close>

lemma sample_simulation_eval:
  "\<exists>s. (case BM 0 ''msg'' [0, 1, 2] (NewG 3) of None \<Rightarrow> None
        | Some s0 \<Rightarrow> handle_all [(0, 0), (0, 1), (0, 2), (1, 2)] [0, 1, 2] s0) = Some s
     \<and> (\<forall>i j. chans s i j = []) \<and> counter s = 4"
  by (simp add: BM_def send_def Add_def Let_def NewG_def chan_capacity_def BD_step_def BD_handle_def BMA_def)

lemma sample_simulation: "\<exists>s. sim_run 3 0 s \<and> (\<forall>i j. chans s i j = []) \<and> counter s = 4"
proof -
  have o: "distinct [0, 1, 2 :: nat]" "set [0, 1, 2 :: nat] = {..<3}" by (simp, auto)
  obtain s s0 where s: "BM 0 ''msg'' [0, 1, 2] (NewG 3) = Some s0"
    "handle_all [(0, 0), (0, 1), (0, 2), (1, 2)] [0, 1, 2] s0 = Some s" "\<forall>i j. chans s i j = []" "counter s = 4"
    using sample_simulation_eval by (auto split: option.splits)
  have "sim_run 3 0 s0" using sim_run.main [OF _ s(1)] o by (simp add: map_order_def NewG_def)
  then have "sim_run 3 0 s" using handle_all_run [OF _ _ o _ s(2)] by simp
  then show ?thesis using s(3,4) by blast
qed

theorem simulation_counts_witness:
  "\<exists>s. sim_run 3 0 s \<and> counter s = 4 \<and> R s 2 = {''msg''}"
proof -
  obtain s where s: "sim_run 3 0 s" "\<forall>i j. chans s i j = []" "counter s = 4" using sample_simulation by blast
  from simulation_counts [OF s(1) _ s(2)] s show ?thesis by auto
qed

end
