(* ===== verification/Spec2Isabelle.thy ===== *)
theory Spec2Isabelle
  imports Sample_Bank Node_Life Gap_Run Bank_Runs Crash_Run Metrics Commands R_Simulation
begin

text \<open>
  A verification of \<open>cs425-mps\<close>: a bank replicated over a group of processes by totally
  ordered multicast (\<open>src/lib/mp1\<close>, \<open>src/cmd/mp1\<close>), and two smaller programs, a log collector
  (\<open>src/cmd/mp0\<close>) and a simulation of reliable multicast (\<open>src/cli/r-multicast\<close>).

  \<^bold>\<open>How the program works.\<close> A node reads events from standard input and multicasts them. The
  total-order layer (ISIS) asks every member for a proposed sequence number, announces the
  largest as the agreement, and delivers messages in the order of agreements. It sends
  through the reliable layer, which forwards each message once; that sends through the basic
  layer, one TCP connection per member, one line of JSON per message. What is delivered goes
  by its path to the processor, which applies deposits and transfers to the bank.

  \<^bold>\<open>Theories and the code they model.\<close> File names are relative to \<open>src/lib/mp1\<close> unless they
  start with \<open>src\<close>. Definitions carry the names of the Go functions.

  \<^item> \<open>Prelude\<close>: machine types, error values, facts on lists and orders.
  \<^item> The hold queue: \<open>Go_Heap\<close> (the standard library's \<open>container/heap\<close>, over an interface that is
    a locale) and \<open>Hold_Queue\<close> (\<open>multicast/to_hold_queue_item.go\<close>, items in an explicit store).
  \<^item> The layers: \<open>Multicast_Util\<close> (\<open>util.go\<close>), \<open>Router\<close> (\<open>router/router.go\<close>), \<open>Messages\<close>
    (\<open>message.go\<close>; the laws of marshalling are the locale \<open>message_codec\<close>), \<open>BMulticast\<close>
    (\<open>b_multicast.go\<close>, \<open>client.go\<close>), \<open>RMulticast\<close> (\<open>r_multicast.go\<close>), \<open>Total_Ording\<close>
    (\<open>total_ording.go\<close>) and \<open>Group\<close> (\<open>group.go\<close>, \<open>group_builder.go\<close>, and what \<open>server.go\<close> does
    with a line). \<open>Startup\<close> is the concurrent start of server and clients.
  \<^item> The wire: \<open>Go_Strings\<close> (\<open>strings\<close>, \<open>strconv\<close>, \<open>bufio\<close>), \<open>Json_Text\<close>, \<open>Base64\<close>, \<open>Json\<close>
    (\<open>encoding/json\<close>), \<open>Sha1\<close>, \<open>Json_Messages\<close> (the \<open>Encode\<close> and \<open>Decode\<close> methods, with the
    interpretation of \<open>message_codec\<close>) and \<open>Wire\<close> (\<open>client.go\<close> and \<open>server.go\<close> from \<open>Hi\<close> and \<open>Send\<close>
    to the lines the server runs).
  \<^item> The bank: \<open>Transaction\<close> and \<open>Events\<close> and \<open>Processor\<close> (\<open>transaction/\<close>), and \<open>Bank_Cluster\<close>,
    which puts the bank on top of the group; \<open>Bank_Runs\<close> reads the events of a run off the record
    of its calls of \<open>Multicast\<close>.
  \<^item> Around them: \<open>Config\<close>, \<open>Retry\<close> (\<open>src/lib/retry\<close>), \<open>Broker\<close> (\<open>src/lib/broker\<close>), \<open>Metrics\<close>,
    \<open>Node_Command\<close> (\<open>src/cmd/mp1/root.go\<close>), \<open>Mp0\<close> (\<open>src/cmd/mp0\<close>), \<open>Commands\<close> (the commands of the
    programs, the exit code and \<open>src/lib/logger\<close>), \<open>R_Simulation\<close>.
  \<^item> The proof of total order: \<open>Isis\<close> is the protocol as an abstract machine over proposals and
    agreements, with its invariant; \<open>Cluster\<close> is a group of nodes joined by first-in first-out
    connections, one step being one handler run of one node; \<open>Node_Steps\<close>, \<open>Deliver_Sim\<close>,
    \<open>Cluster_Inv\<close> and \<open>Cluster_Sim\<close> show that each step is a sequence of steps of the abstract
    machine; \<open>Total_Order\<close> reads off the consequences. \<open>Work_Left\<close> measures what is left to do
    for the messages of a run, and \<open>Quiescence\<close> shows that a group comes to rest.
  \<^item> \<open>Lock_Gap\<close>: the two critical sections of the handler of a request as steps of their own, with
    other handlers in between when the switch \<open>overlap\<close> is on; without it these runs are simulated
    by those of \<open>Cluster\<close>. \<open>Gap_Run\<close> has a run of either kind.
  \<^item> \<open>Crash\<close>: groups whose members crash, between handler runs or in the middle of one;
    \<open>Crash_Integrity\<close> is the invariant that is left then, \<open>Crash_Run\<close> a run that loses the order.
    \<open>Node_Life\<close>: one node under any input.
  \<^item> \<open>Sample_Codec\<close>, \<open>Sample_Run\<close> and \<open>Sample_Bank\<close>: concrete runs, one with symbolic messages and
    one of two banks over JSON, in which the hypotheses of the properties below hold.

  \<^bold>\<open>What is shown.\<close> Below, for any codec that meets \<open>message_codec\<close>, any layer above that only
  prints, and any interleaving of the nodes of a failure-free run in which no node enters the gap
  between the two critical sections of its own handler of a request with something else: nodes
  deliver in one order, replicas that delivered as much are in the same state, and at rest every
  node has delivered every message. That the condition is needed is shown by a run that uses the
  gap (\<open>Gap_Run\<close>): two nodes without any failure deliver in opposite orders. For the
  bank over JSON the accounts of a node are the result of the events of the calls it delivered.
  For runs of whole handlers: no message is delivered twice, the counters do not wrap, the hold
  queue stays consistent, a handler of a line in flight waits only for room for a vote, and a
  group comes to rest after at most \<open>2 N\<^sup>2 + 4 N\<close> turns for each message. For one node under any
  input and any failure of writes: no panic, and exactly when a handler does not return. For
  groups whose members crash: nothing is delivered twice or that no member multicast; the order
  can be lost (\<open>Crash_Run\<close>). In the theories: the heap operations of the hold queue, the bank
  against a ledger of unbounded integers, determinism of the output under any order of map
  iteration, round trips of events and messages, the connection as a transparent channel with its
  failures, the broker, the start, the configuration and the two smaller programs. Where the
  program goes wrong the property says so: a self transfer creates money, the start can panic, a
  line of 64 KiB loses the rest, a message to the path of the basic layer never returns.

  \<^bold>\<open>Bounds.\<close> Runs have less than \<open>2 ^ 64\<close> steps, since each step raises a counter of 64 bits by
  at most one; this is proved, not assumed of the counters. Lines are limited to 64 KiB as by
  \<open>bufio.Scanner\<close>, JSON nests to depth 10000 as in Go, and channels hold as many messages as
  the code asks for. Loops with no bound in the code (\<open>Retry\<close>, the handler of a line) are
  partial functions, and that they return is a statement of its own. The JSON parser tests
  that its input got shorter before it goes on: lemma \<open>read_shorter\<close> shows that it always did.

  \<^bold>\<open>Not modelled.\<close> Of the interleavings inside one node only those in the gap of the handler of
  a request are steps of their own, in \<open>Lock_Gap\<close>; otherwise handlers run whole, although the code
  also releases locks within the relay of a message and between the counter and the queue of the
  handler of an agreement. Sockets are lists of lines or bytes; formatting and writing of log
  lines, the parsing of flags by \<open>cobra\<close> and the floating-point numbers of \<open>mp0\<close> are arguments of
  the definitions that use them; a nil and an empty slice are not told apart. uuids are fresh by
  assumption.

  \<^bold>\<open>Left to do.\<close> A condition on the activities of one node that is weaker than waiting and still
  keeps the order; completeness of delivery among the members that do not crash.
\<close>

section \<open>Total order\<close>

lemma clusterI:
  "message_codec cd valid \<Longrightarrow> only_prints exec \<Longrightarrow> \<forall>p\<in>set ms. valid p \<Longrightarrow> cluster cd valid exec (set ms)"
  by (simp add: cluster_def cluster_axioms_def)

text \<open>
  C1. Total order. In every state of a failure-free run of less than \<open>2 ^ 64\<close> steps in which no
  node starts another activity between the two critical sections of the handler of a request,
  the sequences of messages that any two nodes have delivered are one a prefix of the other: no
  two nodes deliver two messages in different orders. The run interleaves the multicasts,
  receipts and vote counts of all nodes in any order that the connections allow; other nodes
  are free while a handler is between the sections.
\<close>

theorem total_order:
  assumes "message_codec cd valid" "only_prints exec" "\<forall>p\<in>set ms. valid p"
    and "gap_run cd valid exec ms tr p0 False n g" "n < 2 ^ 64" "p \<in> set ms" "q \<in> set ms"
  shows "prefix (delivered (log (base g) p)) (delivered (log (base g) q))
       \<or> prefix (delivered (log (base g) q)) (delivered (log (base g) p))"
proof -
  obtain m G where "sys_inv cd valid exec (set ms) tr p0 m (settle cd g) G" using gap_run_inv [OF assms(1-5)] by blast
  from cluster.delivered_comparable [OF clusterI [OF assms(1-3)] this assms(6,7)] show ?thesis by (simp only: settle_upper)
qed

theorem total_order_witness:
  "\<exists>g. gap_run symbolic_codec (\<lambda>_. True) sample_exec sample_nodes sample_router [] False 14 g
     \<and> delivered (log (base g) ''a'') \<noteq> [] \<and> delivered (log (base g) ''b'') \<noteq> []
     \<and> (prefix (delivered (log (base g) ''a'')) (delivered (log (base g) ''b''))
        \<or> prefix (delivered (log (base g) ''b'')) (delivered (log (base g) ''a'')))"
proof -
  obtain g where g: "gap_run symbolic_codec (\<lambda>_. True) sample_exec sample_nodes sample_router [] False 14 g"
    "delivered (log (base g) ''a'') \<noteq> []" "delivered (log (base g) ''b'') \<noteq> []" using patient_run by force
  from total_order [OF symbolic.message_codec_axioms sample_exec_prints _ g(1), of "''a''" "''b''"] g
  show ?thesis by (auto simp: sample_nodes_def)
qed

text \<open>
  C3. Integrity. No node delivers a message twice, in any state of a failure-free run of whole
  handlers.
\<close>

theorem delivered_once:
  assumes "message_codec cd valid" "only_prints exec" "\<forall>p\<in>set ms. valid p"
    and "run cd valid exec ms tr p0 n s" "n < 2 ^ 64" "p \<in> set ms"
  shows "distinct (delivered (log s p))"
proof -
  note c = clusterI [OF assms(1-3)]
  obtain G where "sys_inv cd valid exec (set ms) tr p0 n s G" using cluster.run_inv [OF c assms(4) refl assms(5)] ..
  from cluster.delivered_distinct [OF c this assms(6)] show ?thesis .
qed

theorem delivered_once_witness:
  "\<exists>s. run symbolic_codec (\<lambda>_. True) sample_exec sample_nodes sample_router [] 10 s
     \<and> distinct (delivered (log s ''b'')) \<and> delivered (log s ''b'') \<noteq> []"
proof -
  obtain s where s: "run symbolic_codec (\<lambda>_. True) sample_exec sample_nodes sample_router [] 10 s"
    "delivered (log s ''b'') \<noteq> []" using sample_run by force
  from delivered_once [OF symbolic.message_codec_axioms sample_exec_prints _ s(1), of "''b''"] s
  show ?thesis by (auto simp: sample_nodes_def)
qed

text \<open>
  C4. Replica consistency. In the runs of total order, two nodes that have delivered the same
  number of messages have delivered the same messages in the same order, their upper layers are
  in the same state and have printed the same output.
\<close>

theorem replicas_agree:
  assumes "message_codec cd valid" "only_prints exec" "\<forall>p\<in>set ms. valid p"
    and "gap_run cd valid exec ms tr p0 False n g" "n < 2 ^ 64" "p \<in> set ms" "q \<in> set ms"
    and "length (delivered (log (base g) p)) = length (delivered (log (base g) q))"
  shows "delivered (log (base g) p) = delivered (log (base g) q)
       \<and> processor (nodes (base g) p) = processor (nodes (base g) q)
       \<and> printed (log (base g) p) = printed (log (base g) q)"
proof -
  note c = clusterI [OF assms(1-3)]
  obtain m G where i: "sys_inv cd valid exec (set ms) tr p0 m (settle cd g) G" using gap_run_inv [OF assms(1-5)] by blast
  have "delivered (log (settle cd g) p) = delivered (log (settle cd g) q)"
    using cluster.delivered_comparable [OF c i assms(6,7)] assms(8) unfolding settle_upper by (auto simp: prefix_def)
  from this cluster.replica_state [OF c i assms(6,7) this] show ?thesis unfolding settle_upper by blast
qed

theorem replicas_agree_witness:
  "\<exists>g. gap_run symbolic_codec (\<lambda>_. True) sample_exec sample_nodes sample_router [] False 14 g
     \<and> processor (nodes (base g) ''b'') = [''/x'']"
proof -
  obtain g where g: "gap_run symbolic_codec (\<lambda>_. True) sample_exec sample_nodes sample_router [] False 14 g"
    "delivered (log (base g) ''a'') = delivered (log (base g) ''b'')" "processor (nodes (base g) ''a'') = [''/x'']"
    using patient_run by force
  from replicas_agree [OF symbolic.message_codec_axioms sample_exec_prints _ g(1), of "''a''" "''b''"] g
  show ?thesis by (auto simp: sample_nodes_def)
qed

text \<open>
  C10. Bounds. After \<open>n\<close> steps neither counter of a node exceeds \<open>n\<close>: the 64-bit numbers
  of proposals and agreements do not wrap in a run of less than \<open>2 ^ 64\<close> steps.
\<close>

theorem counters_do_not_wrap:
  assumes "message_codec cd valid" "only_prints exec" "\<forall>p\<in>set ms. valid p"
    and "run cd valid exec ms tr p0 n s" "n < 2 ^ 64" "p \<in> set ms"
  shows "unat (maxProposalSeqNumOfSelf (totalOrder (nodes s p))) \<le> n
       \<and> unat (maxAgreementSeqNumOfGroup (totalOrder (nodes s p))) \<le> n"
proof -
  note c = clusterI [OF assms(1-3)]
  obtain G where "sys_inv cd valid exec (set ms) tr p0 n s G" using cluster.run_inv [OF c assms(4) refl assms(5)] ..
  from cluster.counters_inv [OF c this assms(6)] show ?thesis .
qed

theorem counters_do_not_wrap_witness:
  "\<exists>s. run symbolic_codec (\<lambda>_. True) sample_exec sample_nodes sample_router [] 10 s
     \<and> unat (maxProposalSeqNumOfSelf (totalOrder (nodes s ''a''))) \<le> 10"
proof -
  obtain s where s: "run symbolic_codec (\<lambda>_. True) sample_exec sample_nodes sample_router [] 10 s" using sample_run by blast
  from counters_do_not_wrap [OF symbolic.message_codec_axioms sample_exec_prints _ s(1), of "''a''"] s
  show ?thesis by (auto simp: sample_nodes_def)
qed

text \<open>
  C11. The hold queue of every node is a well-formed heap in every state of a run; its map
  finds exactly the queued items by the id of their message; and no queued message was
  delivered.
\<close>

theorem hold_queue_consistent:
  assumes "message_codec cd valid" "only_prints exec" "\<forall>p\<in>set ms. valid p"
    and "run cd valid exec ms tr p0 n s" "n < 2 ^ 64" "p \<in> set ms"
  shows "pq_heap (holdQueue (totalOrder (nodes s p)))
    \<and> (\<forall>mid a. holdQueueMap (totalOrder (nodes s p)) mid = Some a \<longleftrightarrow>
         (\<exists>x. pq_view (holdQueue (totalOrder (nodes s p))) a = Some x \<and> msgID x = mid))
    \<and> (\<forall>mid. holdQueueMap (totalOrder (nodes s p)) mid \<noteq> None \<longrightarrow> mid \<notin> set (delivered (log s p)))"
proof -
  note c = clusterI [OF assms(1-3)]
  obtain G where "sys_inv cd valid exec (set ms) tr p0 n s G" using cluster.run_inv [OF c assms(4) refl assms(5)] ..
  from cluster.hold_queue_inv [OF c this assms(6)] show ?thesis .
qed

theorem hold_queue_consistent_witness:
  "\<exists>s. run symbolic_codec (\<lambda>_. True) sample_exec sample_nodes sample_router [] 10 s
     \<and> pq_heap (holdQueue (totalOrder (nodes s ''a'')))"
proof -
  obtain s where s: "run symbolic_codec (\<lambda>_. True) sample_exec sample_nodes sample_router [] 10 s" using sample_run by blast
  from hold_queue_consistent [OF symbolic.message_codec_axioms sample_exec_prints _ s(1), of "''a''"] s
  show ?thesis by (auto simp: sample_nodes_def)
qed

text \<open>
  C12. Progress. In every state of a failure-free run of whole handlers, the handler of a line
  in flight returns, without panic and without blocking, when the handlers of the layer above
  return; with one exception: when the line is a vote and the channel of votes is full, the
  handler waits, and then the vote collector of its node can take a turn, which makes room.
\<close>

theorem line_is_handled:
  assumes "message_codec cd valid" "only_prints exec" "\<forall>p\<in>set ms. valid p"
    and "run cd valid exec ms tr p0 n s" "n < 2 ^ 64" "p \<in> set ms" "q \<in> set ms"
    and "always_returns exec" "calm (set ms) e" "chan s q p = line # rest"
  shows "(handle_line cd exec e line (nodes s p) = None \<longleftrightarrow>
       b_Path (fst (dec_BMsg cd line)) = WaitProposalSeqPath
       \<and> waitVotesCapacity \<le> length (waitVotesChannel (totalOrder (nodes s p))))
    \<and> (handle_line cd exec e line (nodes s p) = None \<longrightarrow>
         (\<forall>u. valid u \<longrightarrow> node_collect cd (e\<lparr>env_uuid1 := u\<rparr>) (nodes s p) \<noteq> None))"
proof -
  note c = clusterI [OF assms(1-3)]
  obtain G where G: "sys_inv cd valid exec (set ms) tr p0 n s G" using cluster.run_inv [OF c assms(4) refl assms(5)] ..
  note h = cluster.handlers_return [OF c G assms(6,7,9,8,10)]
  have "node_collect cd (e\<lparr>env_uuid1 := u\<rparr>) (nodes s p) \<noteq> None"
    if "valid u" "waitVotesCapacity \<le> length (waitVotesChannel (totalOrder (nodes s p)))" for u
    by (rule cluster.collect_returns [OF c G assms(6)]) (use assms(9) that in \<open>auto simp: calm_def waitVotesCapacity_def\<close>)
  with h show ?thesis by blast
qed

theorem line_is_handled_witness:
  "\<exists>s line. run symbolic_codec (\<lambda>_. True) sample_exec sample_nodes sample_router [] 1 s
     \<and> chan s ''a'' ''b'' = [line]
     \<and> handle_line symbolic_codec sample_exec (sample_env sample_nodes [] []) line (nodes s ''b'') \<noteq> None"
proof -
  obtain s line where s: "run symbolic_codec (\<lambda>_. True) sample_exec sample_nodes sample_router [] 1 s"
    "chan s ''a'' ''b'' = [line]" "waitVotesChannel (totalOrder (nodes s ''b'')) = []" using sample_first_run by blast
  have "always_returns sample_exec" by (simp add: always_returns_def sample_exec_def)
  moreover have "calm (set sample_nodes) (sample_env sample_nodes [] [])"
    by (simp add: calm_def sample_env_def sample_nodes_def)
  ultimately have "handle_line symbolic_codec sample_exec (sample_env sample_nodes [] []) line (nodes s ''b'') = None \<longleftrightarrow>
      b_Path (fst (dec_BMsg symbolic_codec line)) = WaitProposalSeqPath
      \<and> waitVotesCapacity \<le> length (waitVotesChannel (totalOrder (nodes s ''b'')))"
    using line_is_handled [OF symbolic.message_codec_axioms sample_exec_prints _ s(1), of "''b''" "''a''"
        "sample_env sample_nodes [] []" line "[]"] s(2) by (simp add: sample_nodes_def)
  then show ?thesis using s unfolding waitVotesCapacity_def by auto
qed

text \<open>
  C7. Termination. When no more messages are multicast, a group stops: whatever turns it takes,
  in whatever order, there are at most \<open>message_work\<close> of them (that is \<open>2 N\<^sup>2 + 4 N\<close> for \<open>N\<close>
  members) for each message that was ever requested.
\<close>

theorem turns_bounded:
  assumes "message_codec cd valid" "only_prints exec" "\<forall>p\<in>set ms. valid p"
    and "run cd valid exec ms tr p0 n s" "(turn cd valid exec (set ms) ^^ k) s s'" "n + k < 2 ^ 64"
  shows "k \<le> card (requested cd (set ms) s) * message_work (set ms)"
proof -
  note c = clusterI [OF assms(1-3)]
  obtain G where G: "sys_inv cd valid exec (set ms) tr p0 n s G"
    "work cd (set ms) s G \<le> card (dom (asks G)) * message_work (set ms)"
    using cluster.run_inv_work [OF c assms(4) refl] assms(6) by auto
  from cluster.turns_work [OF c assms(5) G(1) assms(6)] G(2) cluster.requested_asks [OF c G(1)] show ?thesis by auto
qed

theorem turns_bounded_witness:
  "\<exists>s s'. run symbolic_codec (\<lambda>_. True) sample_exec sample_nodes sample_router [] 1 s
     \<and> (turn symbolic_codec (\<lambda>_. True) sample_exec (set sample_nodes) ^^ 12) s s'
     \<and> 12 \<le> card (requested symbolic_codec (set sample_nodes) s) * 16"
proof -
  obtain s s' where s: "run symbolic_codec (\<lambda>_. True) sample_exec sample_nodes sample_router [] 1 s"
    "(turn symbolic_codec (\<lambda>_. True) sample_exec (set sample_nodes) ^^ 12) s s'" using sample_quiet_run by blast
  moreover have "message_work (set sample_nodes) = 16" by (simp add: message_work_def sample_nodes_def)
  ultimately show ?thesis
    using turns_bounded [OF symbolic.message_codec_axioms sample_exec_prints _ s] by fastforce
qed

text \<open>
  C5. Completeness. When, in a run of total order, a group is at rest, no line in flight, no vote
  waiting and no handler between its sections, every node has delivered exactly the messages
  that were ever requested, all nodes in the same order, and they are in the same state.
\<close>

theorem at_rest_all_delivered:
  assumes "message_codec cd valid" "only_prints exec" "\<forall>p\<in>set ms. valid p"
    and "gap_run cd valid exec ms tr p0 False n g" "n < 2 ^ 64" "gap_quiescent (set ms) g" "p \<in> set ms" "q \<in> set ms"
  shows "set (delivered (log (base g) p)) = requested cd (set ms) (base g)
    \<and> delivered (log (base g) p) = delivered (log (base g) q)
    \<and> processor (nodes (base g) p) = processor (nodes (base g) q)"
proof -
  note c = clusterI [OF assms(1-3)] and r = settle_rest [OF assms(6), of cd]
  obtain m G where G: "sys_inv cd valid exec (set ms) tr p0 m (settle cd g) G" using gap_run_inv [OF assms(1-5)] by blast
  note d = cluster.quiescent_all [OF c G r(1) assms(7,8)]
  show ?thesis
    using d cluster.replica_state [OF c G assms(7,8) d(2)] unfolding settle_upper r(2) by blast
qed

theorem at_rest_all_delivered_witness:
  "\<exists>g. gap_run symbolic_codec (\<lambda>_. True) sample_exec sample_nodes sample_router [] False 14 g
     \<and> gap_quiescent (set sample_nodes) g
     \<and> requested symbolic_codec (set sample_nodes) (base g) = {uid CHR ''1'' @ ''da39a3ee''}"
proof -
  obtain g where g: "gap_run symbolic_codec (\<lambda>_. True) sample_exec sample_nodes sample_router [] False 14 g"
    "gap_quiescent (set sample_nodes) g" "delivered (log (base g) ''b'') = [uid CHR ''1'' @ ''da39a3ee'']"
    using patient_run by blast
  from at_rest_all_delivered [OF symbolic.message_codec_axioms sample_exec_prints _ g(1) _ g(2), of "''b''" "''a''"] g
  show ?thesis by (auto simp: sample_nodes_def)
qed

text \<open>
  C6. Liveness. From every state of a run, however many lines are in flight, a group can take
  turns until it is at rest (by the bound on turns it does so in whatever order it takes them),
  and then every node has delivered every message requested so far. The handlers of the layer
  above must return, and the uuids must not run out.
\<close>

theorem group_comes_to_rest:
  assumes "message_codec cd valid" "only_prints exec" "\<forall>p\<in>set ms. valid p"
    and "run cd valid exec ms tr p0 n s" "n + card (requested cd (set ms) s) * message_work (set ms) < 2 ^ 64"
    and "always_returns exec" "uuids_last valid"
  shows "\<exists>k s'. (turn cd valid exec (set ms) ^^ k) s s' \<and> quiescent (set ms) s'
    \<and> (\<forall>p\<in>set ms. set (delivered (log s' p)) = requested cd (set ms) s)"
proof -
  note c = clusterI [OF assms(1-3)]
  obtain G where G: "sys_inv cd valid exec (set ms) tr p0 n s G"
    "work cd (set ms) s G \<le> card (dom (asks G)) * message_work (set ms)"
    using cluster.run_inv_work [OF c assms(4) refl] assms(5) by auto
  then have n: "n + work cd (set ms) s G < 2 ^ 64" using assms(5) cluster.requested_asks [OF c G(1)] by simp
  from cluster.comes_to_rest [OF c assms(4) refl G(1) n assms(6,7)]
  obtain k s' where k: "(turn cd valid exec (set ms) ^^ k) s s'" "quiescent (set ms) s'" by blast
  obtain G' where G': "sys_inv cd valid exec (set ms) tr p0 (n + k) s' G'" "dom (asks G') = dom (asks G)"
    using cluster.turns_reach [OF c k(1) G(1) n] by blast
  then have "set (delivered (log s' p)) = requested cd (set ms) s" if "p \<in> set ms" for p
    using cluster.quiescent_all(1) [OF c G'(1) k(2) that that] cluster.requested_asks [OF c G'(1)]
      cluster.requested_asks [OF c G(1)] by simp
  with k show ?thesis by blast
qed

theorem group_comes_to_rest_witness:
  "\<exists>s k s'. run symbolic_codec (\<lambda>_. True) sample_exec sample_nodes sample_router [] 1 s
     \<and> (turn symbolic_codec (\<lambda>_. True) sample_exec (set sample_nodes) ^^ k) s s' \<and> quiescent (set sample_nodes) s'
     \<and> set (delivered (log s' ''b'')) = {uid CHR ''1'' @ ''da39a3ee''}"
proof -
  obtain s where s: "run symbolic_codec (\<lambda>_. True) sample_exec sample_nodes sample_router [] 1 s"
    "requested symbolic_codec (set sample_nodes) s = {uid CHR ''1'' @ ''da39a3ee''}" using sample_quiet_run by blast
  have "always_returns sample_exec" by (simp add: always_returns_def sample_exec_def)
  moreover have "message_work (set sample_nodes) = 16" "''b'' \<in> set sample_nodes"
    by (simp_all add: message_work_def sample_nodes_def)
  ultimately show ?thesis
    using group_comes_to_rest [OF symbolic.message_codec_axioms sample_exec_prints _ s(1) _ _ uuids_lastI] s by fastforce
qed

text \<open>
  C13. Robustness. Whatever a started node is sent, lines of any content from anybody, whichever
  writes fail and members are ejected: its table of clients holds no nil pointer, its hold queue
  stays a heap, its handlers never panic, and a handler fails to return only on a message
  addressed to the basic layer itself, or on a vote while the channel of votes is full.
\<close>

theorem node_survives_any_input:
  assumes "always_returns exec" "(life cd exec)\<^sup>*\<^sup>* (started ms tr p0 p) nd"
  shows "clients_ok (bmulticast nd) \<and> pq_heap (holdQueue (totalOrder nd))
    \<and> (handle_line cd exec e line nd = None \<longleftrightarrow> line_blocks cd line nd)
    \<and> node_multicast cd e path data nd \<noteq> None \<and> node_member_update cd e n mids nd \<noteq> None
    \<and> (node_collect cd e nd = None \<longleftrightarrow> waitVotesChannel (totalOrder nd) = [])"
proof -
  have ok: "node_ok nd" using life_ok [OF assms] .
  have "node_collect cd e nd = None" if "waitVotesChannel (totalOrder nd) = []"
    using that by (simp add: node_collect_def collect_vote_def)
  then show ?thesis
    using ok handle_line_ok [OF assms(1) ok, of cd line e] node_multicast_ok [OF ok, of cd e path data]
      node_member_update_ok [OF ok, of cd e n mids] node_collect_ok [OF ok, of cd e]
    by (auto simp: node_ok_def queue_ok_def dest: returns_not_None split: if_splits)
qed

text \<open>A node all of whose writes fail has no members left, and still handles what comes in.\<close>

theorem node_survives_any_input_witness:
  "\<exists>nd. life symbolic_codec sample_exec (started sample_nodes sample_router [] ''a'') nd
     \<and> handle_line symbolic_codec sample_exec (sample_env [] [] []) (Data ''?'') nd \<noteq> None"
proof -
  let ?e = "(sample_env sample_nodes (uid CHR ''1'') (uid CHR ''2''))\<lparr>env_ok := \<lambda>_ _. False\<rparr>"
  have ex: "always_returns sample_exec" by (simp add: always_returns_def sample_exec_def)
  obtain nd where nd: "life symbolic_codec sample_exec (started sample_nodes sample_router [] ''a'') nd"
    using returns_not_None [OF node_multicast_ok [OF started_node_ok, of symbolic_codec ?e "''/x''" "Inr (Data ''v'')"]]
      life.multicast by fast
  have "\<not> line_blocks symbolic_codec (Data ''?'') nd"
    by (simp add: line_blocks_def symbolic_codec_def BMulticastPath_def WaitProposalSeqPath_def)
  moreover have "(life symbolic_codec sample_exec)\<^sup>*\<^sup>* (started sample_nodes sample_router [] ''a'') nd" using nd by blast
  ultimately show ?thesis using node_survives_any_input [OF ex] nd by blast
qed

text \<open>
  C8. Integrity under crashes. Members may crash, between handler runs or in the middle of one,
  writes to crashed members fail, members are ejected and votes recounted, and member counts get
  lost in a full buffer. Still no node ever delivers a message twice; every message it delivers
  is one that a member multicast: its id starts with the uuid of a call of \<open>Multicast\<close> and goes
  on with the digest of the encoded path and data of that call; and the state and output of the
  upper layer of a node that has not crashed are the result of handling these bodies in the
  order of delivery.
\<close>

theorem delivered_once_despite_crashes:
  assumes "message_codec cd valid" "only_prints exec" "\<forall>p\<in>set ms. valid p"
    and "(faulty_step cd valid exec (set ms))\<^sup>*\<^sup>* (faulty_initial ms tr p0) f" "p \<in> set ms"
  shows "distinct (delivered (log (sys f) p))
    \<and> (\<forall>mid\<in>set (delivered (log (sys f) p)). \<exists>q\<in>set ms. \<exists>path d y.
         calls f (take 36 mid) = Some (q, path, Inr d) \<and> enc_TOMsg cd \<lparr>t_Path = path, t_Body = d\<rparr> = Inr y
         \<and> mid = take 36 mid @ digest cd y)
    \<and> (p \<notin> dead f \<longrightarrow>
         replay cd exec tr (concat (map (call_body cd (calls f)) (delivered (log (sys f) p)))) p0
           = Some (processor (nodes (sys f) p), printed (log (sys f) p)))"
proof -
  obtain A where A: "fair_system cd valid exec (set ms) tr p0 f A" using faulty_run_fair [OF assms(1-4)] ..
  note s = fair_system_summary [OF A assms(5)]
  show ?thesis using s(1,3) s(2) [unfolded multicast_by_def] by blast
qed

theorem delivered_once_despite_crashes_witness:
  "\<exists>f. (faulty_step symbolic_codec (\<lambda>_. True) sample_exec (set crash_nodes))\<^sup>*\<^sup>* (faulty_initial crash_nodes crash_router []) f
     \<and> dead f = {''a''} \<and> delivered (log (sys f) ''b'') \<noteq> [] \<and> distinct (delivered (log (sys f) ''b''))"
proof -
  obtain f where f: "(faulty_step symbolic_codec (\<lambda>_. True) sample_exec (set crash_nodes))\<^sup>*\<^sup>*
      (faulty_initial crash_nodes crash_router []) f"
    "dead f = {''a''}" "delivered (log (sys f) ''b'') \<noteq> []" using crash_run by force
  from delivered_once_despite_crashes [OF symbolic.message_codec_axioms sample_exec_prints _ f(1), of "''b''"] f
  show ?thesis by (auto simp: crash_nodes_def)
qed

section \<open>The bank\<close>

text \<open>
  C14. A group of banks is one bank. In every state of a run of total order the accounts of a
  node are the result of applying to the empty bank the events of the calls of \<open>Multicast\<close> whose
  messages it has delivered, each call once and in the order of delivery; and of the delivery
  sequences of two nodes one is a prefix of the other, so nodes differ only in how far they have
  got.
\<close>

theorem banks_follow_one_sequence:
  assumes "\<forall>p\<in>set ms. utf8_valid p"
    and "gap_run json_codec utf8_valid (bank_exec orders) ms bank_router NewProcessor False n g" "n < 2 ^ 64"
    and "p \<in> set ms" "q \<in> set ms"
  shows "processor (nodes (base g) p) =
      fold apply_event (concat (map (call_events (called g)) (delivered (log (base g) p)))) NewProcessor
    \<and> distinct (delivered (log (base g) p))
    \<and> (\<forall>mid\<in>set (delivered (log (base g) p)). \<exists>r\<in>set ms. \<exists>path d. called g (take 36 mid) = Some (r, path, Inr d))
    \<and> (prefix (delivered (log (base g) p)) (delivered (log (base g) q))
       \<or> prefix (delivered (log (base g) q)) (delivered (log (base g) p)))"
proof -
  note j = json.message_codec_axioms bank_exec_prints assms(1)
  note c = bank_cluster [OF assms(1), of orders]
  obtain m G where G: "sys_inv json_codec utf8_valid (bank_exec orders) (set ms) bank_router NewProcessor m (settle json_codec g) G"
    using gap_run_inv [OF j assms(2,3)] by blast
  have "\<forall>mid\<in>set (delivered (log (base g) p)). \<exists>r\<in>set ms. \<exists>path d. called g (take 36 mid) = Some (r, path, Inr d)"
    using gap_run_calls(1) [OF j assms(2,3,4)] unfolding multicast_by_def by blast
  then show ?thesis
    using bank_gap_run [OF assms(1,3,4,2)] cluster.delivered_distinct [OF c G assms(4)]
      cluster.delivered_comparable [OF c G assms(4,5)] unfolding settle_upper by blast
qed

theorem banks_follow_one_sequence_witness:
  "\<exists>g. gap_run json_codec utf8_valid (bank_exec sorted_orders) sample_nodes bank_router NewProcessor False 10 g
     \<and> fold apply_event (concat (map (call_events (called g)) (delivered (log (base g) ''b'')))) NewProcessor
         = \<lparr>balances = [''carol'' \<mapsto> 7]\<rparr>"
proof -
  obtain s where s: "run json_codec utf8_valid (bank_exec sorted_orders) sample_nodes bank_router NewProcessor 10 s"
    "processor (nodes s ''b'') = \<lparr>balances = [''carol'' \<mapsto> 7]\<rparr>" using bank_sample_run by blast
  obtain g where g: "gap_run json_codec utf8_valid (bank_exec sorted_orders) sample_nodes bank_router NewProcessor False 10 g"
    "base g = s" using run_gap_run [OF s(1)] by blast
  have "\<forall>p\<in>set sample_nodes. utf8_valid p" by (simp add: sample_nodes_def utf8_valid_ascii)
  from banks_follow_one_sequence [OF this g(1), of "''b''" "''a''"] g s(2) show ?thesis by (auto simp: sample_nodes_def)
qed

end
